(* ===== verification/Accel_Prelude.thy ===== *)
theory Accel_Prelude
  imports Main "HOL-Library.Word"
begin

text \<open>
  The shared vocabulary of the development: the machine types of the C and C++ sources, the
  linear table searches that both the driver and the runtime write as a \<^verbatim>\<open>for\<close> loop with a
  \<^verbatim>\<open>break\<close>, and the counting lemmas on tables that are updated in one slot.

  The collection \<open>accel_simps\<close> holds the unfolding equations of the source's constants, so
  that a component proof names the collection and not each constant.
\<close>

named_theorems accel_simps "constants of the sources, unfolded"

type_synonym u8 = "8 word"
type_synonym u32 = "32 word"
type_synonym u64 = "64 word"

text \<open>
  A \<^verbatim>\<open>float\<close> of the sources is carried through the driver and the runtime as its bit pattern: no
  code of either computes with it.
\<close>

type_synonym float_bits = "32 word"

section \<open>Linear search\<close>

text \<open>
  \<^verbatim>\<open>for (i = 0; i < n; i++) if (P(xs[i])) { slot = i; break; }\<close>: the first index whose entry
  satisfies the test, if there is one.
\<close>

fun first_index :: "('a \<Rightarrow> bool) \<Rightarrow> 'a list \<Rightarrow> nat option" where
  "first_index P [] = None"
| "first_index P (x # xs) = (if P x then Some 0 else map_option Suc (first_index P xs))"

lemma first_index_Some:
  "first_index P xs = Some i \<longleftrightarrow> i < length xs \<and> P (xs ! i) \<and> (\<forall>j < i. \<not> P (xs ! j))"
proof (induction xs arbitrary: i)
  case Nil
  then show ?case by simp
next
  case (Cons x xs)
  show ?case
  proof (cases "P x")
    case True
    then show ?thesis by (cases i) auto
  next
    case False
    then show ?thesis
      using Cons.IH by (cases i) (auto simp: less_Suc_eq_0_disj nth_Cons')
  qed
qed

lemma first_index_None: "first_index P xs = None \<longleftrightarrow> (\<forall>x \<in> set xs. \<not> P x)"
  by (induction xs) auto

lemma first_index_SomeD:
  assumes "first_index P xs = Some i"
  shows "i < length xs" and "P (xs ! i)"
  using assms by (simp_all add: first_index_Some)

lemma first_index_None_nth:
  "first_index P xs = None \<Longrightarrow> i < length xs \<Longrightarrow> \<not> P (xs ! i)"
  by (simp add: first_index_None)

text \<open>Reading a list after an update in one place, with no condition on the index.\<close>

lemma nth_update_if: "xs[i := x] ! j = (if i = j \<and> j < length xs then x else xs ! j)"
  by (cases "i < length xs") (auto simp: nth_list_update list_update_beyond)

lemma map_update_same: "f y = f (xs ! i) \<Longrightarrow> map f (xs[i := y]) = map f xs"
  by (cases "i < length xs") (simp_all add: map_update list_update_beyond list_update_same_conv)

lemma find_append_case: "find P (xs @ ys) = (case find P xs of None \<Rightarrow> find P ys | Some x \<Rightarrow> Some x)"
  by (induction xs) simp_all

section \<open>Counting the entries of a table\<close>

definition count_if :: "('a \<Rightarrow> bool) \<Rightarrow> 'a list \<Rightarrow> nat" where
  "count_if P xs = length (filter P xs)"

lemma count_if_Nil [simp]: "count_if P [] = 0"
  by (simp add: count_if_def)

lemma count_if_Cons [simp]:
  "count_if P (x # xs) = (if P x then Suc (count_if P xs) else count_if P xs)"
  by (simp add: count_if_def)

lemma count_if_le_length: "count_if P xs \<le> length xs"
  by (simp add: count_if_def)

lemma count_if_update:
  assumes "i < length xs"
  shows "count_if P (xs[i := x]) + (if P (xs ! i) then 1 else 0)
         = count_if P xs + (if P x then 1 else 0)"
  using assms
proof (induction xs arbitrary: i)
  case Nil
  then show ?case by simp
next
  case (Cons y ys)
  then show ?case by (cases i) auto
qed

lemma count_if_update_add:
  assumes "i < length xs" and "\<not> P (xs ! i)" and "P x"
  shows "count_if P (xs[i := x]) = Suc (count_if P xs)"
  using count_if_update [OF assms(1), of P x] assms(2,3) by simp

lemma count_if_update_remove:
  assumes "i < length xs" and "P (xs ! i)" and "\<not> P x"
  shows "Suc (count_if P (xs[i := x])) = count_if P xs"
  using count_if_update [OF assms(1), of P x] assms(2,3) by simp

lemma count_if_update_same:
  assumes "i < length xs" and "P (xs ! i) \<longleftrightarrow> P x"
  shows "count_if P (xs[i := x]) = count_if P xs"
  using count_if_update [OF assms(1), of P x] assms(2) by (simp split: if_splits)

lemma count_if_zero_iff: "count_if P xs = 0 \<longleftrightarrow> (\<forall>x \<in> set xs. \<not> P x)"
  by (simp add: count_if_def filter_empty_conv)

lemma count_if_pos_nth: "i < length xs \<Longrightarrow> P (xs ! i) \<Longrightarrow> 0 < count_if P xs"
  by (metis count_if_zero_iff neq0_conv nth_mem)

lemma count_if_lt_lengthE:
  assumes "count_if P xs < length xs"
  obtains i where "first_index (\<lambda>x. \<not> P x) xs = Some i"
proof (cases "first_index (\<lambda>x. \<not> P x) xs")
  case None
  then have "filter P xs = xs" by (simp add: first_index_None filter_id_conv)
  with assms show ?thesis by (simp add: count_if_def)
qed

lemma count_if_mono: "(\<And>x. x \<in> set xs \<Longrightarrow> P x \<Longrightarrow> Q x) \<Longrightarrow> count_if P xs \<le> count_if Q xs"
  by (induction xs) (auto intro: le_SucI)

lemma count_if_nth_le:
  assumes "length ys = length xs" and "\<And>j. j < length xs \<Longrightarrow> P (ys ! j) \<Longrightarrow> P (xs ! j)"
  shows "count_if P ys \<le> count_if P xs"
  using assms
proof (induction ys xs rule: list_induct2)
  case (Cons y ys x xs)
  have "count_if P ys \<le> count_if P xs" using Cons.prems [of "Suc _"] by (intro Cons.IH) simp
  with Cons.prems [of 0] show ?case by (auto intro: le_SucI)
qed simp

lemma count_if_nth_less:
  assumes "length ys = length xs" and "\<And>j. j < length xs \<Longrightarrow> P (ys ! j) \<Longrightarrow> P (xs ! j)"
    and "i < length xs" and "P (xs ! i)" and "\<not> P (ys ! i)"
  shows "count_if P ys < count_if P xs"
  using assms
proof (induction ys xs arbitrary: i rule: list_induct2)
  case (Cons y ys x xs)
  have tail: "P (ys ! j) \<Longrightarrow> P (xs ! j)" if "j < length xs" for j using Cons.prems(1) [of "Suc j"] that by simp
  show ?case
  proof (cases i)
    case 0
    with Cons.prems count_if_nth_le [of ys xs P] Cons.hyps tail show ?thesis by simp
  next
    case (Suc k)
    with Cons.IH [OF tail, of k] Cons.prems show ?thesis by (auto dest: Cons.prems(1) [of 0, simplified])
  qed
qed simp

section \<open>Ceiling division\<close>

text \<open>The kernel's \<^verbatim>\<open>DIV_ROUND_UP(n, d)\<close> and the workloads' \<^verbatim>\<open>ceil_div\<close>, on the naturals.\<close>

definition div_round_up :: "nat \<Rightarrow> nat \<Rightarrow> nat" where
  "div_round_up n d = (n + d - 1) div d"

lemma div_round_up_1 [simp]: "div_round_up n (Suc 0) = n"
  by (simp add: div_round_up_def)

lemma div_round_up_covers:
  assumes "0 < d"
  shows "n \<le> d * div_round_up n d"
proof -
  have "(n + d - 1) mod d \<le> d - 1" using assms by (simp add: Suc_leI le_diff_conv2 less_Suc_eq_le)
  moreover have "d * ((n + d - 1) div d) + (n + d - 1) mod d = n + d - 1"
    by (rule mult_div_mod_eq)
  ultimately show ?thesis using assms unfolding div_round_up_def by linarith
qed

lemma div_round_up_tight:
  assumes "0 < d" and "0 < n"
  shows "d * (div_round_up n d - 1) < n"
proof -
  have le: "d * div_round_up n d \<le> n + d - 1"
    unfolding div_round_up_def by (rule times_div_less_eq_dividend)
  have "d * (div_round_up n d - 1) = d * div_round_up n d - d" by (simp add: right_diff_distrib')
  with le assms show ?thesis by linarith
qed

lemma div_round_up_pos: "0 < d \<Longrightarrow> 0 < n \<Longrightarrow> 0 < div_round_up n d"
  using div_round_up_covers [of d n] by (cases "div_round_up n d") auto

lemma div_round_up_antimono:
  assumes "0 < c" and "c \<le> d"
  shows "div_round_up n d \<le> div_round_up n c"
proof (cases "n = 0")
  case True
  with assms show ?thesis by (simp add: div_round_up_def)
next
  case False
  show ?thesis
  proof (rule ccontr)
    assume "\<not> ?thesis"
    then have "div_round_up n c \<le> div_round_up n d - 1" by linarith
    then have "c * div_round_up n c \<le> d * (div_round_up n d - 1)"
      using assms(2) by (rule mult_le_mono [rotated])
    moreover have "d * (div_round_up n d - 1) < n"
      using False assms by (intro div_round_up_tight) auto
    moreover have "n \<le> c * div_round_up n c"
      using assms(1) by (rule div_round_up_covers)
    ultimately show False by linarith
  qed
qed

end
