(* ===== verification/Regs.thy ===== *)
theory Regs
  imports Accel_Prelude
begin

unbundle bit_operations_syntax

text \<open>
  \<^verbatim>\<open>dma_accel_regs.h\<close>: the BAR0 register file of the device, its status, control and interrupt
  bits, the opcodes and completion codes, the packed submission and completion descriptors, and
  the structures and ioctl numbers of the userspace ABI. The same header is included by the
  driver and by the userspace runtime (the copy under \<^verbatim>\<open>track-c/runtime\<close> is identical).
\<close>

section \<open>Registers\<close>

definition DMA_ACCEL_DEVICE_ID_VAL :: u32 where [accel_simps]: "DMA_ACCEL_DEVICE_ID_VAL = 0xD3A00001"

definition REG_DEVICE_ID :: u32 where [accel_simps]: "REG_DEVICE_ID = 0x00"
definition REG_VERSION :: u32 where [accel_simps]: "REG_VERSION = 0x04"
definition REG_STATUS :: u32 where [accel_simps]: "REG_STATUS = 0x08"
definition REG_CONTROL :: u32 where [accel_simps]: "REG_CONTROL = 0x0C"
definition REG_OPCODE :: u32 where [accel_simps]: "REG_OPCODE = 0x10"
definition REG_SRC_ADDR_LO :: u32 where [accel_simps]: "REG_SRC_ADDR_LO = 0x18"
definition REG_SRC_ADDR_HI :: u32 where [accel_simps]: "REG_SRC_ADDR_HI = 0x1C"
definition REG_DST_ADDR_LO :: u32 where [accel_simps]: "REG_DST_ADDR_LO = 0x20"
definition REG_DST_ADDR_HI :: u32 where [accel_simps]: "REG_DST_ADDR_HI = 0x24"
definition REG_LEN :: u32 where [accel_simps]: "REG_LEN = 0x28"
definition REG_CMD_ID_LO :: u32 where [accel_simps]: "REG_CMD_ID_LO = 0x2C"
definition REG_CMD_ID_HI :: u32 where [accel_simps]: "REG_CMD_ID_HI = 0x30"
definition REG_IRQ_STATUS :: u32 where [accel_simps]: "REG_IRQ_STATUS = 0x34"
definition REG_IRQ_MASK :: u32 where [accel_simps]: "REG_IRQ_MASK = 0x38"
definition REG_ERROR_CODE :: u32 where [accel_simps]: "REG_ERROR_CODE = 0x3C"

definition REG_SQ_BASE_LO :: u32 where [accel_simps]: "REG_SQ_BASE_LO = 0x40"
definition REG_SQ_BASE_HI :: u32 where [accel_simps]: "REG_SQ_BASE_HI = 0x44"
definition REG_SQ_SIZE :: u32 where [accel_simps]: "REG_SQ_SIZE = 0x48"
definition REG_SQ_TAIL :: u32 where [accel_simps]: "REG_SQ_TAIL = 0x4C"
definition REG_CQ_BASE_LO :: u32 where [accel_simps]: "REG_CQ_BASE_LO = 0x50"
definition REG_CQ_BASE_HI :: u32 where [accel_simps]: "REG_CQ_BASE_HI = 0x54"
definition REG_CQ_SIZE :: u32 where [accel_simps]: "REG_CQ_SIZE = 0x58"
definition REG_CQ_HEAD :: u32 where [accel_simps]: "REG_CQ_HEAD = 0x5C"
definition REG_SQ_HEAD :: u32 where [accel_simps]: "REG_SQ_HEAD = 0x60"
definition REG_CQ_TAIL :: u32 where [accel_simps]: "REG_CQ_TAIL = 0x64"

definition STATUS_BUSY :: u32 where [accel_simps]: "STATUS_BUSY = 1"
definition STATUS_ERROR :: u32 where [accel_simps]: "STATUS_ERROR = 2"
definition CONTROL_START :: u32 where [accel_simps]: "CONTROL_START = 1"
definition CONTROL_RESET :: u32 where [accel_simps]: "CONTROL_RESET = 2"
definition IRQ_DMA_DONE :: u32 where [accel_simps]: "IRQ_DMA_DONE = 1"
definition IRQ_DMA_ERROR :: u32 where [accel_simps]: "IRQ_DMA_ERROR = 2"
definition IRQ_DEVICE_ERROR :: u32 where [accel_simps]: "IRQ_DEVICE_ERROR = 4"

section \<open>Opcodes and completion codes\<close>

definition OPCODE_COPY :: u32 where [accel_simps]: "OPCODE_COPY = 0x0"
definition OPCODE_SCALE_ADD :: u32 where [accel_simps]: "OPCODE_SCALE_ADD = 0x1"
definition OPCODE_TILE_MATMUL :: u32 where [accel_simps]: "OPCODE_TILE_MATMUL = 0x2"

definition DMA_ACCEL_TILE_DIM :: u32 where [accel_simps]: "DMA_ACCEL_TILE_DIM = 32"

definition DMA_ACCEL_TILE_MATMUL_BYTES :: u32 where
  [accel_simps]: "DMA_ACCEL_TILE_MATMUL_BYTES = DMA_ACCEL_TILE_DIM * DMA_ACCEL_TILE_DIM * 4"

text \<open>The constants of \<^verbatim>\<open>enum dma_accel_error\<close>, which the code compares with 32-bit registers and
  completion fields.\<close>

definition DMA_ACCEL_OK :: u32 where [accel_simps]: "DMA_ACCEL_OK = 0x00"
definition DMA_ACCEL_ERR_OPCODE :: u32 where [accel_simps]: "DMA_ACCEL_ERR_OPCODE = 0x01"
definition DMA_ACCEL_ERR_SRC :: u32 where [accel_simps]: "DMA_ACCEL_ERR_SRC = 0x02"
definition DMA_ACCEL_ERR_DST :: u32 where [accel_simps]: "DMA_ACCEL_ERR_DST = 0x03"
definition DMA_ACCEL_ERR_LENGTH :: u32 where [accel_simps]: "DMA_ACCEL_ERR_LENGTH = 0x04"
definition DMA_ACCEL_ERR_DMA_FAULT :: u32 where [accel_simps]: "DMA_ACCEL_ERR_DMA_FAULT = 0x05"
definition DMA_ACCEL_ERR_BUSY :: u32 where [accel_simps]: "DMA_ACCEL_ERR_BUSY = 0x06"
definition DMA_ACCEL_ERR_INTERNAL :: u32 where [accel_simps]: "DMA_ACCEL_ERR_INTERNAL = 0x07"
definition DMA_ACCEL_ERR_ABORTED :: u32 where [accel_simps]: "DMA_ACCEL_ERR_ABORTED = 0x08"

section \<open>Descriptors\<close>

record dma_accel_cmd =
  cmd_opcode :: u32
  cmd_len :: u32
  cmd_src_addr :: u64
  cmd_dst_addr :: u64
  cmd_cmd_id :: u64
  cmd_src2_addr :: u64
  cmd_scalar :: float_bits
  cmd_reserved :: u32

record dma_accel_completion =
  comp_cmd_id :: u64
  comp_status :: u32
  comp_reserved :: u32

definition DMA_ACCEL_QUEUE_DEPTH :: nat where [accel_simps]: "DMA_ACCEL_QUEUE_DEPTH = 16"

text \<open>\<^verbatim>\<open>sizeof\<close> of the two packed descriptors.\<close>

definition sizeof_dma_accel_cmd :: nat where
  [accel_simps]: "sizeof_dma_accel_cmd = 4 + 4 + 8 + 8 + 8 + 8 + 4 + 4"
definition sizeof_dma_accel_completion :: nat where
  [accel_simps]: "sizeof_dma_accel_completion = 8 + 4 + 4"

section \<open>The userspace ABI\<close>

record dma_accel_buffer_alloc =
  ba_size :: u32
  ba_buffer_id :: u32
  ba_mmap_offset :: u64

record dma_accel_submit =
  sub_opcode :: u32
  sub_len :: u32
  sub_src_buffer_id :: u32
  sub_src_offset :: u32
  sub_dst_buffer_id :: u32
  sub_dst_offset :: u32
  sub_cmd_id :: u64
  sub_src2_buffer_id :: u32
  sub_src2_offset :: u32
  sub_scalar :: float_bits

record dma_accel_completion_uapi =
  ucomp_cmd_id :: u64
  ucomp_status :: u32
  ucomp_reserved :: u32

text \<open>
  Sizes of the ABI structures under the C layout rules: \<^verbatim>\<open>struct dma_accel_submit\<close> has 44 bytes of
  fields and is padded to the alignment of its 64-bit member.
\<close>

definition sizeof_buffer_alloc :: nat where [accel_simps]: "sizeof_buffer_alloc = 16"
definition sizeof_submit :: nat where [accel_simps]: "sizeof_submit = 48"
definition sizeof_completion_uapi :: nat where [accel_simps]: "sizeof_completion_uapi = 16"

text \<open>\<^verbatim>\<open>_IOWR(magic, nr, type)\<close>: direction bits, size, magic and number packed in one word.\<close>

definition IOWR :: "u32 \<Rightarrow> u32 \<Rightarrow> nat \<Rightarrow> u32" where
  "IOWR magic nr sz = push_bit 30 3 OR push_bit 16 (of_nat sz) OR push_bit 8 magic OR nr"

definition DMA_ACCEL_IOC_MAGIC :: u32 where [accel_simps]: "DMA_ACCEL_IOC_MAGIC = 0x44"

definition DMA_ACCEL_IOC_BUFFER_ALLOC :: u32 where
  "DMA_ACCEL_IOC_BUFFER_ALLOC = IOWR DMA_ACCEL_IOC_MAGIC 1 sizeof_buffer_alloc"

definition DMA_ACCEL_IOC_SUBMIT :: u32 where
  "DMA_ACCEL_IOC_SUBMIT = IOWR DMA_ACCEL_IOC_MAGIC 2 sizeof_submit"

lemma ioctl_numbers:
  "DMA_ACCEL_IOC_BUFFER_ALLOC = 0xC0104401" "DMA_ACCEL_IOC_SUBMIT = 0xC0304402"
  by (simp_all add: DMA_ACCEL_IOC_BUFFER_ALLOC_def DMA_ACCEL_IOC_SUBMIT_def IOWR_def accel_simps)

section \<open>Error numbers\<close>

text \<open>The error numbers that the driver returns (negated) and the runtime reads from \<^verbatim>\<open>errno\<close>.\<close>

datatype errno =
    EPERM | ENOENT | EINTR | EIO | EAGAIN | ENOMEM | EFAULT | ENODEV | EINVAL | ENOTTY | ENOSPC
  | ETIMEDOUT | EDQUOT | ERESTARTSYS | EOther nat

end
