(* ===== verification/Ring.thy ===== *)
theory Ring
  imports Accel_Prelude
begin

text \<open>
  Rings indexed by free-running counters. The driver's completion rings and the runtime's
  lock-free queues share one representation: an array of \<open>N\<close> slots, two unsigned machine
  counters \<open>head\<close> and \<open>tail\<close> that only ever grow (and wrap at the width of the machine word),
  and the slot of a counter \<open>c\<close> is \<open>c mod N\<close>. \<open>ring_list\<close> is the queue such a ring holds. The
  lemmas say what a store at \<open>tail\<close> and an advance of \<open>head\<close> do to that queue, at every value of
  the counters, the wrap-around included; they need \<open>N\<close> to divide the number of counter values.
\<close>

definition ring_list :: "'a list \<Rightarrow> 'w::len word \<Rightarrow> 'w word \<Rightarrow> 'a list" where
  "ring_list ring h t = map (\<lambda>j. ring ! ((unat h + j) mod length ring)) [0..<unat (t - h)]"

text \<open>The ring's size divides the number of values of its counters (powers of two do).\<close>

definition ring_fits :: "'w::len itself \<Rightarrow> 'a list \<Rightarrow> bool" where
  "ring_fits w ring \<longleftrightarrow> length ring dvd 2 ^ LENGTH('w) \<and> 0 < length ring"

lemma ring_fits_update [simp]: "ring_fits w (ring[i := x]) = ring_fits w ring"
  by (simp add: ring_fits_def)

lemma ring_fits_pos: "ring_fits w ring \<Longrightarrow> 0 < length ring"
  by (simp add: ring_fits_def)

lemma ring_list_length [simp]: "length (ring_list ring h t) = unat (t - h)"
  by (simp add: ring_list_def)

lemma ring_list_empty_iff: "ring_list ring h t = [] \<longleftrightarrow> h = t"
  by (metis cancel_comm_monoid_add_class.diff_cancel eq_iff_diff_eq_0 length_0_conv
      ring_list_length unat_eq_zero)

lemma ring_list_same [simp]: "ring_list ring h h = []"
  by (simp add: ring_list_def)

text \<open>The counter arithmetic: adding to a counter commutes with taking its slot.\<close>

lemma unat_add_mod:
  fixes h :: "'w::len word"
  assumes "n dvd 2 ^ LENGTH('w)"
  shows "unat (h + of_nat k) mod n = (unat h + k) mod n"
proof -
  have "unat (h + of_nat k) = (unat h + k) mod 2 ^ LENGTH('w)"
    by (simp add: unat_word_ariths unat_of_nat mod_simps)
  with assms show ?thesis by (simp add: mod_mod_cancel)
qed

lemma counter_gap_Suc:
  fixes h t :: "'w::len word"
  assumes "unat (t - h) < 2 ^ LENGTH('w) - 1"
  shows "unat (t + 1 - h) = Suc (unat (t - h))"
proof -
  have "unat (t - h + 1) = Suc (unat (t - h))"
  proof -
    have "t - h + 1 \<noteq> 0"
    proof
      assume "t - h + 1 = 0"
      then have "t - h = - 1" by (simp add: eq_neg_iff_add_eq_0)
      then have "unat (t - h) = 2 ^ LENGTH('w) - 1"
        by (simp add: unsigned_minus_1_eq_mask mask_eq_exp_minus_1)
      with assms show False by simp
    qed
    then show ?thesis by (simp add: unatSuc add.commute)
  qed
  then show ?thesis by (simp add: algebra_simps)
qed

lemma counter_gap_pop:
  fixes h t :: "'w::len word"
  assumes "h \<noteq> t"
  shows "Suc (unat (t - (h + 1))) = unat (t - h)"
proof -
  have "t - h \<noteq> 0" using assms by simp
  then have "unat (t - h - 1) = unat (t - h) - 1" by (rule unat_minus_one)
  moreover have "0 < unat (t - h)" using assms by (simp add: unat_gt_0)
  moreover have "t - (h + 1) = t - h - 1" by (simp add: diff_diff_eq)
  ultimately show ?thesis by (metis Suc_pred' One_nat_def)
qed

lemma ring_list_nth:
  "j < unat (t - h) \<Longrightarrow> ring_list ring h t ! j = ring ! ((unat h + j) mod length ring)"
  by (simp add: ring_list_def)

lemma fits_gap_bound:
  fixes ring :: "'a list" and h t :: "'w::len word"
  assumes "ring_fits TYPE('w) ring" and "unat (t - h) < length ring"
  shows "unat (t - h) < 2 ^ LENGTH('w) - 1 \<or> length ring = 2 ^ LENGTH('w)"
proof -
  have "length ring \<le> 2 ^ LENGTH('w)"
    using assms(1) by (simp add: ring_fits_def dvd_imp_le)
  with assms(2) show ?thesis by linarith
qed

text \<open>Storing at the tail slot appends, as long as the ring is not full.\<close>

lemma mod_inj_window:
  assumes "(a + j) mod n = (a + k) mod (n::nat)" and "j < n" and "k < n"
  shows "j = k"
proof (rule ccontr)
  assume "j \<noteq> k"
  show False
  proof (cases "j < k")
    case True
    then have "n dvd (a + k) - (a + j)" using assms(1) by (intro mod_eq_dvd_iff_nat [THEN iffD1]) auto
    with True assms(3) show False by (simp add: nat_dvd_not_less)
  next
    case False
    with \<open>j \<noteq> k\<close> have "k < j" by simp
    then have "n dvd (a + j) - (a + k)" using assms(1) by (intro mod_eq_dvd_iff_nat [THEN iffD1]) auto
    with \<open>k < j\<close> assms(2) show False by (simp add: nat_dvd_not_less)
  qed
qed

lemma ring_tail_slot:
  fixes h t :: "'w::len word"
  assumes "n dvd 2 ^ LENGTH('w)"
  shows "unat t mod n = (unat h + unat (t - h)) mod n"
proof -
  have "t = h + of_nat (unat (t - h))" by simp
  then show ?thesis using unat_add_mod [OF assms, of h "unat (t - h)"] by simp
qed

lemma ring_list_push:
  fixes ring :: "'a list" and h t :: "'w::len word"
  assumes fits: "ring_fits TYPE('w) ring" and room: "unat (t - h) < length ring"
    and small: "length ring < 2 ^ LENGTH('w)"
  shows "ring_list (ring[unat t mod length ring := x]) h (t + 1) = ring_list ring h t @ [x]"
proof (rule nth_equalityI)
  have gap: "unat (t + 1 - h) = Suc (unat (t - h))"
    using room small by (intro counter_gap_Suc) linarith
  then show "length (ring_list (ring[unat t mod length ring := x]) h (t + 1))
             = length (ring_list ring h t @ [x])" by simp
  fix j
  assume "j < length (ring_list (ring[unat t mod length ring := x]) h (t + 1))"
  with gap have j: "j \<le> unat (t - h)" by simp
  have tail: "unat t mod length ring = (unat h + unat (t - h)) mod length ring"
    using fits by (intro ring_tail_slot) (simp add: ring_fits_def)
  have pos: "(unat h + k) mod length ring < length ring" for k
    using fits by (simp add: ring_fits_def)
  show "ring_list (ring[unat t mod length ring := x]) h (t + 1) ! j = (ring_list ring h t @ [x]) ! j"
  proof (cases "j = unat (t - h)")
    case True
    with gap tail pos show ?thesis by (simp add: ring_list_nth nth_append)
  next
    case False
    with j have "j < unat (t - h)" by simp
    moreover from this room have "(unat h + j) mod length ring \<noteq> (unat h + unat (t - h)) mod length ring"
      using mod_inj_window [of "unat h" j "length ring" "unat (t - h)"] by auto
    ultimately show ?thesis using gap tail by (simp add: ring_list_nth nth_append)
  qed
qed

text \<open>Advancing the head drops the oldest entry, which is the one in the head slot.\<close>

lemma ring_list_pop:
  fixes ring :: "'a list" and h t :: "'w::len word"
  assumes fits: "ring_fits TYPE('w) ring" and ne: "h \<noteq> t"
  shows "ring_list ring h t = ring ! (unat h mod length ring) # ring_list ring (h + 1) t"
proof (rule nth_equalityI)
  have gap: "Suc (unat (t - (h + 1))) = unat (t - h)" using ne by (rule counter_gap_pop)
  then show "length (ring_list ring h t)
             = length (ring ! (unat h mod length ring) # ring_list ring (h + 1) t)" by simp
  fix j
  assume "j < length (ring_list ring h t)"
  then have j: "j < unat (t - h)" by simp
  have slot: "(unat (h + 1) + k) mod length ring = (unat h + Suc k) mod length ring" for k
  proof -
    have "unat (h + 1) mod length ring = (unat h + 1) mod length ring"
      using unat_add_mod [of "length ring" h 1] fits by (simp add: ring_fits_def)
    then show ?thesis by (metis add.assoc mod_add_left_eq plus_1_eq_Suc)
  qed
  show "ring_list ring h t ! j
        = (ring ! (unat h mod length ring) # ring_list ring (h + 1) t) ! j"
  proof (cases j)
    case 0
    with j show ?thesis by (simp add: ring_list_nth)
  next
    case (Suc k)
    with j gap have "k < unat (t - (h + 1))" by simp
    with j Suc slot show ?thesis by (simp add: ring_list_nth)
  qed
qed

lemma ring_list_hd:
  fixes h t :: "'w::len word"
  assumes "ring_fits TYPE('w) ring" and "h \<noteq> t"
  shows "hd (ring_list ring h t) = ring ! (unat h mod length ring)"
    and "tl (ring_list ring h t) = ring_list ring (h + 1) t"
  using ring_list_pop [OF assms] by simp_all

text \<open>
  A full ring that drops its oldest entry before it stores the new one (the driver's completion
  rings): the queue keeps its newest entries.
\<close>

lemma ring_list_push_full:
  fixes ring :: "'a list" and h t :: "'w::len word"
  assumes fits: "ring_fits TYPE('w) ring" and full: "unat (t - h) = length ring"
    and small: "length ring < 2 ^ LENGTH('w)"
  shows "ring_list (ring[unat t mod length ring := x]) (h + 1) (t + 1) = tl (ring_list ring h t) @ [x]"
proof -
  have ne: "h \<noteq> t" using full fits by (auto simp: ring_fits_def)
  have "unat (t - (h + 1)) < length ring" using counter_gap_pop [OF ne] full by simp
  from ring_list_push [OF fits this small] show ?thesis
    using ring_list_hd(2) [OF fits ne] by simp
qed

end
