(* ===== verification/Driver_State.thy ===== *)
theory Driver_State
  imports Regs Ring
begin

text \<open>
  The state of the kernel driver (\<^verbatim>\<open>track-a/dma_accel_drv.c\<close>): its limits, the device and session
  structures and the accesses to BAR0.

  A \<^verbatim>\<open>struct dma_accel_session *\<close> is a number (\<open>sess_ptr\<close>); \<open>None\<close> is the null pointer. The kernel
  heap of sessions is a map from pointers to session contents, so a freed session is a pointer
  outside its domain and dereferencing it is visible. Locks are not data: a critical section is
  one definition, and \<^verbatim>\<open>Driver_System\<close> interleaves the critical sections. Wait queues carry no
  state either; a sleeper re-evaluates its condition.

  BAR0 is the history of the driver's register writes, with the points where it sleeps on the
  interrupt. The device behind it is not part of the repository: what a register read, a wait or a
  DMA buffer returns is a parameter of the definitions that read it.
\<close>

section \<open>Limits\<close>

definition SELFTEST_LEN :: nat where [accel_simps]: "SELFTEST_LEN = 256"
definition COMP_RING_SIZE :: nat where [accel_simps]: "COMP_RING_SIZE = 64"
definition MAX_BUFFERS :: nat where [accel_simps]: "MAX_BUFFERS = 64"
definition DEFAULT_BUFFER_QUOTA :: nat where [accel_simps]: "DEFAULT_BUFFER_QUOTA = MAX_BUFFERS div 4"
definition DMA_ACCEL_BUFFER_ALLOC_MAX :: u32 where
  [accel_simps]: "DMA_ACCEL_BUFFER_ALLOC_MAX = 16 * 1024 * 1024"
definition MAX_INFLIGHT_CMDS :: nat where [accel_simps]: "MAX_INFLIGHT_CMDS = COMP_RING_SIZE"

text \<open>\<^verbatim>\<open>PAGE_SHIFT\<close> and \<^verbatim>\<open>PAGE_SIZE\<close> of the x86 kernel the module is built for.\<close>

definition PAGE_SHIFT :: nat where [accel_simps]: "PAGE_SHIFT = 12"
definition PAGE_SIZE :: u32 where [accel_simps]: "PAGE_SIZE = 4096"

section \<open>Structures\<close>

type_synonym sess_ptr = nat
type_synonym dma_addr_t = u64

record dma_accel_cmd_ctx =
  cc_valid :: bool
  cc_cmd_id :: u64
  cc_sess :: "sess_ptr option"

record dma_accel_buf_entry =
  be_kaddr :: u64
  be_dma_addr :: dma_addr_t
  be_size :: u64
  be_in_use :: bool
  be_owner :: "sess_ptr option"

text \<open>What the driver does to BAR0 and to the interrupt line, in program order.\<close>

datatype hw_event =
    RegWrite u32 u32          \<comment> \<open>\<^verbatim>\<open>iowrite32(val, bar0 + off)\<close>\<close>
  | IrqWait                   \<comment> \<open>\<^verbatim>\<open>wait_for_completion_timeout(&irq_done, ...)\<close>\<close>
  | MemWrite u64 "u8 list"    \<comment> \<open>the driver fills a DMA buffer\<close>

text \<open>
  A null \<^verbatim>\<open>sq_buf\<close>/\<^verbatim>\<open>cq_buf\<close> is the empty list; an allocated ring has
  \<^verbatim>\<open>DMA_ACCEL_QUEUE_DEPTH\<close> entries. \<^verbatim>\<open>irq_done\<close> is the count of a \<^verbatim>\<open>struct completion\<close>. The atomics
  \<^verbatim>\<open>active_sessions\<close>, \<^verbatim>\<open>total_inflight\<close> and \<^verbatim>\<open>inflight\<close> are signed counters.
\<close>

record dma_accel_dev =
  bar0 :: "hw_event list"
  irq_done :: nat
  sq_buf :: "dma_accel_cmd list"
  sq_dma :: dma_addr_t
  cq_buf :: "dma_accel_completion list"
  cq_dma :: dma_addr_t
  sq_tail :: u32
  cq_head :: u32
  uapi_active :: bool
  cmd_table :: "dma_accel_cmd_ctx list"
  active_sessions :: int
  total_inflight :: int
  buffers :: "dma_accel_buf_entry list"
  next_cmd_id :: u64

record dma_accel_session =
  owned_buffers :: "bool list"
  comp_ring :: "dma_accel_completion list"
  comp_head :: u32
  comp_tail :: u32
  inflight :: int

record kstate =
  kdev :: dma_accel_dev
  sessions :: "sess_ptr \<rightharpoonup> dma_accel_session"

section \<open>Initial values\<close>

definition zero_cmd :: dma_accel_cmd where
  "zero_cmd = \<lparr>cmd_opcode = 0, cmd_len = 0, cmd_src_addr = 0, cmd_dst_addr = 0, cmd_cmd_id = 0,
     cmd_src2_addr = 0, cmd_scalar = 0, cmd_reserved = 0\<rparr>"

definition zero_completion :: dma_accel_completion where
  "zero_completion = \<lparr>comp_cmd_id = 0, comp_status = 0, comp_reserved = 0\<rparr>"

definition free_ctx :: dma_accel_cmd_ctx where
  "free_ctx = \<lparr>cc_valid = False, cc_cmd_id = 0, cc_sess = None\<rparr>"

definition free_buf :: dma_accel_buf_entry where
  "free_buf = \<lparr>be_kaddr = 0, be_dma_addr = 0, be_size = 0, be_in_use = False, be_owner = None\<rparr>"

text \<open>\<^verbatim>\<open>devm_kzalloc\<close> of the device structure followed by the field initialisation of \<^verbatim>\<open>probe()\<close>.\<close>

definition init_dev :: dma_accel_dev where
  "init_dev = \<lparr>bar0 = [], irq_done = 0, sq_buf = [], sq_dma = 0, cq_buf = [], cq_dma = 0,
     sq_tail = 0, cq_head = 0, uapi_active = False, cmd_table = replicate MAX_INFLIGHT_CMDS free_ctx,
     active_sessions = 0, total_inflight = 0, buffers = replicate MAX_BUFFERS free_buf,
     next_cmd_id = 1\<rparr>"

text \<open>\<^verbatim>\<open>kzalloc\<close> of a session.\<close>

definition init_session :: dma_accel_session where
  "init_session = \<lparr>owned_buffers = replicate MAX_BUFFERS False,
     comp_ring = replicate COMP_RING_SIZE zero_completion, comp_head = 0, comp_tail = 0,
     inflight = 0\<rparr>"

section \<open>BAR0\<close>

definition dma_accel_write_reg :: "dma_accel_dev \<Rightarrow> u32 \<Rightarrow> u32 \<Rightarrow> dma_accel_dev" where
  "dma_accel_write_reg dev off val = dev\<lparr>bar0 := bar0 dev @ [RegWrite off val]\<rparr>"

text \<open>A register read: the device's answer, a function of everything the driver did to it.\<close>

definition dma_accel_read_reg :: "(hw_event list \<Rightarrow> u32 \<Rightarrow> u32) \<Rightarrow> dma_accel_dev \<Rightarrow> u32 \<Rightarrow> u32" where
  "dma_accel_read_reg rd dev off = rd (bar0 dev) off"

definition lower_32_bits :: "u64 \<Rightarrow> u32" where
  "lower_32_bits n = ucast n"

definition upper_32_bits :: "u64 \<Rightarrow> u32" where
  "upper_32_bits n = ucast (drop_bit 32 n)"

lemma write_reg_simps [simp]:
  "irq_done (dma_accel_write_reg d a v) = irq_done d"
  "sq_buf (dma_accel_write_reg d a v) = sq_buf d"
  "sq_dma (dma_accel_write_reg d a v) = sq_dma d"
  "cq_buf (dma_accel_write_reg d a v) = cq_buf d"
  "cq_dma (dma_accel_write_reg d a v) = cq_dma d"
  "sq_tail (dma_accel_write_reg d a v) = sq_tail d"
  "cq_head (dma_accel_write_reg d a v) = cq_head d"
  "uapi_active (dma_accel_write_reg d a v) = uapi_active d"
  "cmd_table (dma_accel_write_reg d a v) = cmd_table d"
  "active_sessions (dma_accel_write_reg d a v) = active_sessions d"
  "total_inflight (dma_accel_write_reg d a v) = total_inflight d"
  "buffers (dma_accel_write_reg d a v) = buffers d"
  "next_cmd_id (dma_accel_write_reg d a v) = next_cmd_id d"
  "bar0 (dma_accel_write_reg d a v) = bar0 d @ [RegWrite a v]"
  by (simp_all add: dma_accel_write_reg_def)

lemma halves_recombine: "push_bit 32 (ucast (upper_32_bits n)) + ucast (lower_32_bits n) = (n :: u64)"
proof -
  have "push_bit 32 (ucast (upper_32_bits n)) + ucast (lower_32_bits n)
        = (or (push_bit 32 (ucast (upper_32_bits n))) (ucast (lower_32_bits n)) :: u64)"
    by (rule disjunctive_add_eq_or, rule bit_word_eqI)
       (auto simp: upper_32_bits_def lower_32_bits_def bit_simps)
  also have "\<dots> = n"
    by (rule bit_word_eqI) (auto simp: upper_32_bits_def lower_32_bits_def bit_simps)
  finally show ?thesis .
qed

section \<open>Well-formedness\<close>

definition wf_session :: "dma_accel_session \<Rightarrow> bool" where
  "wf_session s \<longleftrightarrow> length (owned_buffers s) = MAX_BUFFERS \<and> length (comp_ring s) = COMP_RING_SIZE
     \<and> unat (comp_tail s - comp_head s) \<le> COMP_RING_SIZE"

definition wf_dev :: "dma_accel_dev \<Rightarrow> bool" where
  "wf_dev d \<longleftrightarrow> length (cmd_table d) = MAX_INFLIGHT_CMDS \<and> length (buffers d) = MAX_BUFFERS
     \<and> length (sq_buf d) = DMA_ACCEL_QUEUE_DEPTH \<and> length (cq_buf d) = DMA_ACCEL_QUEUE_DEPTH"

lemma wf_init_session: "wf_session init_session"
  by (simp add: wf_session_def init_session_def accel_simps)

text \<open>The queue of unread completions a session holds.\<close>

definition unread :: "dma_accel_session \<Rightarrow> dma_accel_completion list" where
  "unread s = ring_list (comp_ring s) (comp_head s) (comp_tail s)"

lemma comp_ring_fits: "wf_session s \<Longrightarrow> ring_fits TYPE(32) (comp_ring s)"
  by (simp add: wf_session_def ring_fits_def accel_simps)

lemma unread_init [simp]: "unread init_session = []"
  by (simp add: unread_def init_session_def)

end
