(* ===== verification/Driver_Queue.thy ===== *)
theory Driver_Queue
  imports Driver_State
begin

text \<open>
  The command queue of the driver (M6): allocation and registration of the submission and
  completion rings, their release, and the enqueue of one descriptor with its doorbell.
\<close>

section \<open>Operations\<close>

text \<open>
  \<open>sq\<close> and \<open>cq\<close> are the answers of the two \<^verbatim>\<open>dma_alloc_coherent\<close> calls: the bus address of a
  zeroed ring, or \<open>None\<close>.
\<close>

definition dma_accel_queue_init ::
  "dma_addr_t option \<Rightarrow> dma_addr_t option \<Rightarrow> dma_accel_dev \<Rightarrow> dma_accel_dev \<times> (errno + unit)" where
  "dma_accel_queue_init sq cq dev =
     (case sq of
        None \<Rightarrow> (dev\<lparr>sq_buf := []\<rparr>, Inl ENOMEM)
      | Some sqa \<Rightarrow>
          (let dev = dev\<lparr>sq_buf := replicate DMA_ACCEL_QUEUE_DEPTH zero_cmd, sq_dma := sqa\<rparr>
           in case cq of
                None \<Rightarrow> (dev\<lparr>cq_buf := [], sq_buf := []\<rparr>, Inl ENOMEM)
              | Some cqa \<Rightarrow>
                  (let dev = dev\<lparr>cq_buf := replicate DMA_ACCEL_QUEUE_DEPTH zero_completion,
                                 cq_dma := cqa, sq_tail := 0, cq_head := 0\<rparr>;
                       dev = dma_accel_write_reg dev REG_SQ_BASE_LO (lower_32_bits (sq_dma dev));
                       dev = dma_accel_write_reg dev REG_SQ_BASE_HI (upper_32_bits (sq_dma dev));
                       dev = dma_accel_write_reg dev REG_SQ_SIZE (of_nat DMA_ACCEL_QUEUE_DEPTH);
                       dev = dma_accel_write_reg dev REG_CQ_BASE_LO (lower_32_bits (cq_dma dev));
                       dev = dma_accel_write_reg dev REG_CQ_BASE_HI (upper_32_bits (cq_dma dev));
                       dev = dma_accel_write_reg dev REG_CQ_SIZE (of_nat DMA_ACCEL_QUEUE_DEPTH)
                   in (dev, Inr ()))))"

definition dma_accel_queue_fini :: "dma_accel_dev \<Rightarrow> dma_accel_dev" where
  "dma_accel_queue_fini dev =
     (let dev = (if cq_buf dev \<noteq> [] then dev\<lparr>cq_buf := []\<rparr> else dev)
      in if sq_buf dev \<noteq> [] then dev\<lparr>sq_buf := []\<rparr> else dev)"

text \<open>
  The enqueue runs with no lock held. It is the composition of two parts, which \<^verbatim>\<open>Driver_System\<close>
  interleaves: the descriptor stores at \<open>sq_tail mod DMA_ACCEL_QUEUE_DEPTH\<close>, and, after the write
  barrier, the increment of \<^verbatim>\<open>sq_tail\<close> with the doorbell.
\<close>

definition sq_write_slot ::
  "dma_accel_dev \<Rightarrow> u32 \<Rightarrow> dma_addr_t \<Rightarrow> dma_addr_t \<Rightarrow> u32 \<Rightarrow> u64 \<Rightarrow> dma_addr_t \<Rightarrow> float_bits
   \<Rightarrow> dma_accel_dev" where
  "sq_write_slot dev opcode src dst len cmd_id src2 scalar =
     (let idx = unat (sq_tail dev) mod DMA_ACCEL_QUEUE_DEPTH;
          slot = \<lparr>cmd_opcode = opcode, cmd_len = len, cmd_src_addr = src, cmd_dst_addr = dst,
                  cmd_cmd_id = cmd_id, cmd_src2_addr = src2, cmd_scalar = scalar, cmd_reserved = 0\<rparr>
      in dev\<lparr>sq_buf := (sq_buf dev)[idx := slot]\<rparr>)"

definition sq_ring_doorbell :: "dma_accel_dev \<Rightarrow> dma_accel_dev" where
  "sq_ring_doorbell dev =
     (let dev = dev\<lparr>sq_tail := sq_tail dev + 1\<rparr>
      in dma_accel_write_reg dev REG_SQ_TAIL (sq_tail dev))"

definition dma_accel_queue_submit_ext ::
  "dma_accel_dev \<Rightarrow> u32 \<Rightarrow> dma_addr_t \<Rightarrow> dma_addr_t \<Rightarrow> u32 \<Rightarrow> u64 \<Rightarrow> dma_addr_t \<Rightarrow> float_bits
   \<Rightarrow> dma_accel_dev" where
  "dma_accel_queue_submit_ext dev opcode src dst len cmd_id src2 scalar =
     sq_ring_doorbell (sq_write_slot dev opcode src dst len cmd_id src2 scalar)"

definition dma_accel_queue_submit ::
  "dma_accel_dev \<Rightarrow> u32 \<Rightarrow> dma_addr_t \<Rightarrow> dma_addr_t \<Rightarrow> u32 \<Rightarrow> u64 \<Rightarrow> dma_accel_dev" where
  "dma_accel_queue_submit dev opcode src dst len cmd_id =
     dma_accel_queue_submit_ext dev opcode src dst len cmd_id 0 0"

section \<open>Lemmas\<close>

lemma sq_write_slot_frame [simp]:
  "cq_buf (sq_write_slot d op s t l c s2 f) = cq_buf d"
  "cq_head (sq_write_slot d op s t l c s2 f) = cq_head d"
  "uapi_active (sq_write_slot d op s t l c s2 f) = uapi_active d"
  "cmd_table (sq_write_slot d op s t l c s2 f) = cmd_table d"
  "active_sessions (sq_write_slot d op s t l c s2 f) = active_sessions d"
  "total_inflight (sq_write_slot d op s t l c s2 f) = total_inflight d"
  "buffers (sq_write_slot d op s t l c s2 f) = buffers d"
  "next_cmd_id (sq_write_slot d op s t l c s2 f) = next_cmd_id d"
  "sq_tail (sq_write_slot d op s t l c s2 f) = sq_tail d"
  "length (sq_buf (sq_write_slot d op s t l c s2 f)) = length (sq_buf d)"
  by (simp_all add: sq_write_slot_def Let_def)

lemma sq_ring_doorbell_frame [simp]:
  "cq_buf (sq_ring_doorbell d) = cq_buf d" "cq_head (sq_ring_doorbell d) = cq_head d"
  "uapi_active (sq_ring_doorbell d) = uapi_active d" "cmd_table (sq_ring_doorbell d) = cmd_table d"
  "active_sessions (sq_ring_doorbell d) = active_sessions d"
  "total_inflight (sq_ring_doorbell d) = total_inflight d"
  "buffers (sq_ring_doorbell d) = buffers d" "next_cmd_id (sq_ring_doorbell d) = next_cmd_id d"
  "sq_tail (sq_ring_doorbell d) = sq_tail d + 1" "sq_buf (sq_ring_doorbell d) = sq_buf d"
  by (simp_all add: sq_ring_doorbell_def Let_def)

lemma queue_submit_ext_frame [simp]:
  "cq_buf (dma_accel_queue_submit_ext d op s t l c s2 f) = cq_buf d"
  "cq_head (dma_accel_queue_submit_ext d op s t l c s2 f) = cq_head d"
  "uapi_active (dma_accel_queue_submit_ext d op s t l c s2 f) = uapi_active d"
  "cmd_table (dma_accel_queue_submit_ext d op s t l c s2 f) = cmd_table d"
  "active_sessions (dma_accel_queue_submit_ext d op s t l c s2 f) = active_sessions d"
  "total_inflight (dma_accel_queue_submit_ext d op s t l c s2 f) = total_inflight d"
  "buffers (dma_accel_queue_submit_ext d op s t l c s2 f) = buffers d"
  "next_cmd_id (dma_accel_queue_submit_ext d op s t l c s2 f) = next_cmd_id d"
  "sq_tail (dma_accel_queue_submit_ext d op s t l c s2 f) = sq_tail d + 1"
  "length (sq_buf (dma_accel_queue_submit_ext d op s t l c s2 f)) = length (sq_buf d)"
  by (simp_all add: dma_accel_queue_submit_ext_def)

text \<open>The submission ring as the device sees it, between its own head and the doorbell.\<close>

definition sq_pending :: "dma_accel_dev \<Rightarrow> u32 \<Rightarrow> dma_accel_cmd list" where
  "sq_pending dev head = ring_list (sq_buf dev) head (sq_tail dev)"

lemma sq_ring_fits: "length (sq_buf d) = DMA_ACCEL_QUEUE_DEPTH \<Longrightarrow> ring_fits TYPE(32) (sq_buf d)"
  by (simp add: ring_fits_def accel_simps)

text \<open>
  Enqueueing appends the descriptor to what the device has yet to fetch, exactly when fewer than
  \<^verbatim>\<open>DMA_ACCEL_QUEUE_DEPTH\<close> descriptors are outstanding.
\<close>

lemma queue_submit_ext_appends:
  assumes "length (sq_buf dev) = DMA_ACCEL_QUEUE_DEPTH"
    and "unat (sq_tail dev - head) < DMA_ACCEL_QUEUE_DEPTH"
  shows "sq_pending (dma_accel_queue_submit_ext dev opcode src dst len cmd_id src2 scalar) head
         = sq_pending dev head @ [\<lparr>cmd_opcode = opcode, cmd_len = len, cmd_src_addr = src,
             cmd_dst_addr = dst, cmd_cmd_id = cmd_id, cmd_src2_addr = src2, cmd_scalar = scalar,
             cmd_reserved = 0\<rparr>]"
proof -
  have fits: "ring_fits TYPE(32) (sq_buf dev)" using assms(1) by (rule sq_ring_fits)
  have room: "unat (sq_tail dev - head) < length (sq_buf dev)" using assms by simp
  have small: "length (sq_buf dev) < 2 ^ LENGTH(32)" using assms(1) by (simp add: accel_simps)
  show ?thesis
    using ring_list_push [OF fits room small] assms(1)
    by (simp add: sq_pending_def dma_accel_queue_submit_ext_def sq_write_slot_def Let_def)
qed

text \<open>A full ring loses its oldest descriptor instead: the head slot now holds the new one.\<close>

lemma queue_submit_ext_overwrites:
  assumes "length (sq_buf dev) = DMA_ACCEL_QUEUE_DEPTH"
    and "unat (sq_tail dev - head) = DMA_ACCEL_QUEUE_DEPTH"
  shows "cmd_cmd_id (sq_buf (dma_accel_queue_submit_ext dev opcode src dst len cmd_id src2 scalar)
           ! (unat head mod DMA_ACCEL_QUEUE_DEPTH)) = cmd_id"
proof -
  have "DMA_ACCEL_QUEUE_DEPTH dvd 2 ^ LENGTH(32)" by (simp add: accel_simps)
  from ring_tail_slot [OF this, of "sq_tail dev" head]
  have "unat (sq_tail dev) mod DMA_ACCEL_QUEUE_DEPTH = unat head mod DMA_ACCEL_QUEUE_DEPTH"
    using assms(2) by simp
  with assms(1) show ?thesis
    by (simp add: dma_accel_queue_submit_ext_def sq_write_slot_def Let_def nth_list_update accel_simps)
qed

lemma queue_init_ok_iff:
  "(\<exists>d'. dma_accel_queue_init sq cq d = (d', Inr ())) \<longleftrightarrow> sq \<noteq> None \<and> cq \<noteq> None"
  by (auto simp: dma_accel_queue_init_def Let_def split: option.splits)

lemma queue_init_frame [simp]:
  "cmd_table (fst (dma_accel_queue_init sq cq d)) = cmd_table d"
  "buffers (fst (dma_accel_queue_init sq cq d)) = buffers d"
  "uapi_active (fst (dma_accel_queue_init sq cq d)) = uapi_active d"
  "next_cmd_id (fst (dma_accel_queue_init sq cq d)) = next_cmd_id d"
  "active_sessions (fst (dma_accel_queue_init sq cq d)) = active_sessions d"
  "total_inflight (fst (dma_accel_queue_init sq cq d)) = total_inflight d"
  by (simp_all add: dma_accel_queue_init_def Let_def split: option.split)

lemma queue_fini_null [simp]:
  "sq_buf (dma_accel_queue_fini d) = []" "cq_buf (dma_accel_queue_fini d) = []"
  by (simp_all add: dma_accel_queue_fini_def Let_def)

end
