(* ===== verification/Driver_Isr.thy ===== *)
theory Driver_Isr
  imports Driver_Queue
begin

text \<open>
  The interrupt handler: it acknowledges the interrupt and, once the character device is active,
  drains the completion ring, routing each completion through \<^verbatim>\<open>cmd_table\<close> to the ring of the
  session that submitted the command.

  The body of the drain loop is cut at its two critical sections and at its two atomic
  decrements, the points where other processors can interleave. Dereferencing a session that has
  been freed is the value \<open>None\<close>.
\<close>

section \<open>The sections of the drain loop\<close>

text \<open>Under \<^verbatim>\<open>cmd_lock\<close>: find the command's table entry, take its session and clear it.\<close>

definition isr_route :: "u64 \<Rightarrow> dma_accel_dev \<Rightarrow> dma_accel_dev \<times> sess_ptr option" where
  "isr_route cmd_id dev =
     (case first_index (\<lambda>c. cc_valid c \<and> cc_cmd_id c = cmd_id) (cmd_table dev) of
        None \<Rightarrow> (dev, None)
      | Some i \<Rightarrow>
          (dev\<lparr>cmd_table := (cmd_table dev)[i := (cmd_table dev ! i)\<lparr>cc_valid := False\<rparr>]\<rparr>,
           cc_sess (cmd_table dev ! i)))"

text \<open>Under the session's \<^verbatim>\<open>comp_lock\<close>: drop the oldest entry if the ring is full, then store.\<close>

definition isr_deliver :: "dma_accel_completion \<Rightarrow> dma_accel_session \<Rightarrow> dma_accel_session" where
  "isr_deliver cpl owner =
     (let owner = (if of_nat COMP_RING_SIZE \<le> comp_tail owner - comp_head owner
                   then owner\<lparr>comp_head := comp_head owner + 1\<rparr> else owner);
          ridx = unat (comp_tail owner) mod COMP_RING_SIZE
      in owner\<lparr>comp_ring := (comp_ring owner)[ridx := cpl], comp_tail := comp_tail owner + 1\<rparr>)"

definition session_inflight_dec :: "dma_accel_session \<Rightarrow> dma_accel_session" where
  "session_inflight_dec s = s\<lparr>inflight := inflight s - 1\<rparr>"

definition total_inflight_dec :: "dma_accel_dev \<Rightarrow> dma_accel_dev" where
  "total_inflight_dec dev = dev\<lparr>total_inflight := total_inflight dev - 1\<rparr>"

section \<open>One completion\<close>

definition isr_completion :: "dma_accel_completion \<Rightarrow> kstate \<Rightarrow> kstate option" where
  "isr_completion cpl k =
     (case isr_route (comp_cmd_id cpl) (kdev k) of
        (dev, None) \<Rightarrow> Some (k\<lparr>kdev := dev\<rparr>)
      | (dev, Some p) \<Rightarrow>
          (case sessions k p of
             None \<Rightarrow> None
           | Some owner \<Rightarrow>
               Some (k\<lparr>kdev := total_inflight_dec dev,
                       sessions := (sessions k)(p \<mapsto> session_inflight_dec (isr_deliver cpl owner))\<rparr>)))"

definition cq_head_inc :: "kstate \<Rightarrow> kstate" where
  "cq_head_inc k = k\<lparr>kdev := (kdev k)\<lparr>cq_head := cq_head (kdev k) + 1\<rparr>\<rparr>"

lemma cq_head_inc_simps [simp]:
  "sessions (cq_head_inc k) = sessions k" "cq_head (kdev (cq_head_inc k)) = cq_head (kdev k) + 1"
  "cmd_table (kdev (cq_head_inc k)) = cmd_table (kdev k)"
  "cq_buf (kdev (cq_head_inc k)) = cq_buf (kdev k)"
  "buffers (kdev (cq_head_inc k)) = buffers (kdev k)"
  "total_inflight (kdev (cq_head_inc k)) = total_inflight (kdev k)"
  by (simp_all add: cq_head_inc_def)

lemma isr_route_frame:
  assumes "isr_route c d = (d', p)"
  shows "cq_head d' = cq_head d" and "cq_buf d' = cq_buf d" and "buffers d' = buffers d"
    and "sq_buf d' = sq_buf d" and "total_inflight d' = total_inflight d"
    and "active_sessions d' = active_sessions d" and "next_cmd_id d' = next_cmd_id d"
    and "length (cmd_table d') = length (cmd_table d)" and "uapi_active d' = uapi_active d"
  using assms by (auto simp: isr_route_def split: option.splits)

lemma isr_completion_cases:
  assumes "isr_completion cpl k = Some k'"
  obtains (unknown) d' where "isr_route (comp_cmd_id cpl) (kdev k) = (d', None)"
      and "k' = k\<lparr>kdev := d'\<rparr>"
  | (routed) d' p owner where "isr_route (comp_cmd_id cpl) (kdev k) = (d', Some p)"
      and "sessions k p = Some owner"
      and "k' = k\<lparr>kdev := total_inflight_dec d',
                 sessions := (sessions k)(p \<mapsto> session_inflight_dec (isr_deliver cpl owner))\<rparr>"
  using assms by (auto simp: isr_completion_def split: prod.splits option.splits)

lemma isr_completion_frame:
  assumes "isr_completion cpl k = Some k'"
  shows "cq_head (kdev k') = cq_head (kdev k)" and "cq_buf (kdev k') = cq_buf (kdev k)"
    and "buffers (kdev k') = buffers (kdev k)" and "dom (sessions k') = dom (sessions k)"
  using assms
  by (cases rule: isr_completion_cases; auto simp: isr_route_frame total_inflight_dec_def)+

section \<open>The drain loop and the handler\<close>

text \<open>
  \<^verbatim>\<open>while (dev->cq_head != device_cq_tail)\<close>: the counters are free-running 32-bit words, so the
  loop runs once for each step from the head to the tail, the wrap-around included.
\<close>

function isr_drain :: "u32 \<Rightarrow> kstate \<Rightarrow> kstate option" where
  "isr_drain device_cq_tail k =
     (if cq_head (kdev k) = device_cq_tail then Some k
      else case isr_completion (cq_buf (kdev k) ! (unat (cq_head (kdev k)) mod DMA_ACCEL_QUEUE_DEPTH)) k of
             None \<Rightarrow> None
           | Some k' \<Rightarrow> isr_drain device_cq_tail (cq_head_inc k'))"
  by pat_completeness auto

lemma cq_gap_decreases:
  assumes "cq_head (kdev k) \<noteq> t" and "isr_completion cpl k = Some k'"
  shows "unat (t - cq_head (kdev (cq_head_inc k'))) < unat (t - cq_head (kdev k))"
  using counter_gap_pop [OF assms(1)] isr_completion_frame(1) [OF assms(2)] by simp

termination isr_drain
  by (relation "measure (\<lambda>(t, k). unat (t - cq_head (kdev k)))")
     (auto simp del: cq_head_inc_simps intro: cq_gap_decreases)

declare isr_drain.simps [simp del]

datatype irqreturn = IRQ_NONE | IRQ_HANDLED

text \<open>\<open>irq_status\<close> and \<open>device_cq_tail\<close> are the device's answers to the two register reads.\<close>

definition dma_accel_irq_handler :: "u32 \<Rightarrow> u32 \<Rightarrow> kstate \<Rightarrow> (kstate \<times> irqreturn) option" where
  "dma_accel_irq_handler irq_status device_cq_tail k =
     (if irq_status = 0 then Some (k, IRQ_NONE)
      else let k = k\<lparr>kdev := dma_accel_write_reg (kdev k) REG_IRQ_STATUS irq_status\<rparr>
           in if \<not> uapi_active (kdev k)
              then Some (k\<lparr>kdev := (kdev k)\<lparr>irq_done := irq_done (kdev k) + 1\<rparr>\<rparr>, IRQ_HANDLED)
              else case isr_drain device_cq_tail k of
                     None \<Rightarrow> None
                   | Some k' \<Rightarrow>
                       Some (k'\<lparr>kdev := dma_accel_write_reg (kdev k') REG_CQ_HEAD (cq_head (kdev k'))\<rparr>,
                             IRQ_HANDLED))"

section \<open>Delivery refines a bounded queue that forgets its oldest entries\<close>

lemma isr_deliver_wf: "wf_session s \<Longrightarrow> wf_session (isr_deliver cpl s)"
proof -
  assume wf: "wf_session s"
  show "wf_session (isr_deliver cpl s)"
  proof (cases "of_nat COMP_RING_SIZE \<le> comp_tail s - comp_head s")
    case True
    then have ge: "COMP_RING_SIZE \<le> unat (comp_tail s - comp_head s)"
      by (simp add: word_le_nat_alt accel_simps)
    with wf have "unat (comp_tail s - comp_head s) = COMP_RING_SIZE"
      by (simp add: wf_session_def)
    with wf True show ?thesis by (simp add: isr_deliver_def Let_def wf_session_def)
  next
    case False
    then have lt: "unat (comp_tail s - comp_head s) < COMP_RING_SIZE"
      by (simp add: word_le_nat_alt accel_simps)
    then have "unat (comp_tail s + 1 - comp_head s) = Suc (unat (comp_tail s - comp_head s))"
      by (intro counter_gap_Suc) (simp add: accel_simps)
    with wf lt False show ?thesis by (simp add: isr_deliver_def Let_def wf_session_def)
  qed
qed

lemma isr_deliver_frame [simp]:
  "owned_buffers (isr_deliver cpl s) = owned_buffers s" "inflight (isr_deliver cpl s) = inflight s"
  by (simp_all add: isr_deliver_def Let_def)

lemma isr_deliver_unread:
  assumes wf: "wf_session s"
  shows "unread (isr_deliver cpl s)
         = (if length (unread s) < COMP_RING_SIZE then unread s else tl (unread s)) @ [cpl]"
proof -
  have fits: "ring_fits TYPE(32) (comp_ring s)" using wf by (rule comp_ring_fits)
  have len: "length (comp_ring s) = COMP_RING_SIZE" using wf by (simp add: wf_session_def)
  have small: "length (comp_ring s) < 2 ^ LENGTH(32)" using len by (simp add: accel_simps)
  show ?thesis
  proof (cases "of_nat COMP_RING_SIZE \<le> comp_tail s - comp_head s")
    case True
    then have "COMP_RING_SIZE \<le> unat (comp_tail s - comp_head s)"
      by (simp add: word_le_nat_alt accel_simps)
    with wf have full: "unat (comp_tail s - comp_head s) = COMP_RING_SIZE"
      by (simp add: wf_session_def)
    have "unread (isr_deliver cpl s) = tl (unread s) @ [cpl]"
      using ring_list_push_full [OF fits _ small, of "comp_tail s" "comp_head s" cpl] full len True
      by (simp add: isr_deliver_def Let_def unread_def)
    with full show ?thesis by (simp add: unread_def)
  next
    case False
    then have room: "unat (comp_tail s - comp_head s) < COMP_RING_SIZE"
      by (simp add: word_le_nat_alt accel_simps)
    have "unread (isr_deliver cpl s) = unread s @ [cpl]"
      using ring_list_push [OF fits _ small, of "comp_tail s" "comp_head s" cpl] room len False
      by (simp add: isr_deliver_def Let_def unread_def)
    with room show ?thesis by (simp add: unread_def)
  qed
qed

lemma session_inflight_dec_frame [simp]:
  "unread (session_inflight_dec s) = unread s" "wf_session (session_inflight_dec s) = wf_session s"
  "owned_buffers (session_inflight_dec s) = owned_buffers s"
  "inflight (session_inflight_dec s) = inflight s - 1"
  by (simp_all add: session_inflight_dec_def unread_def wf_session_def)

section \<open>The loop consumes the completion ring up to the device's tail\<close>

lemma isr_drain_head: "isr_drain t k = Some k' \<Longrightarrow> cq_head (kdev k') = t"
proof (induction t k rule: isr_drain.induct)
  case (1 t k)
  then show ?case by (subst (asm) (2) isr_drain.simps) (auto split: if_splits option.splits)
qed

lemma isr_drain_cases:
  assumes "isr_drain t k = Some k'" and "cq_head (kdev k) \<noteq> t"
  obtains k1 where
    "isr_completion (cq_buf (kdev k) ! (unat (cq_head (kdev k)) mod DMA_ACCEL_QUEUE_DEPTH)) k = Some k1"
    "isr_drain t (cq_head_inc k1) = Some k'"
  using assms by (subst (asm) isr_drain.simps) (auto split: option.splits)

end
