(* ===== verification/Driver_Buffers.thy ===== *)
theory Driver_Buffers
  imports Driver_Isr
begin

unbundle bit_operations_syntax

text \<open>
  The buffer table: \<^verbatim>\<open>ioctl(BUFFER_ALLOC)\<close> and \<^verbatim>\<open>mmap()\<close>. The table of the device is shared by every
  session; each slot records its owner and each session keeps the inverse index as a bitmap.
  \<open>own_inv\<close> says that the two agree, \<open>quota_inv\<close> that no session is over its quota.
\<close>

section \<open>Operations\<close>

text \<open>\<^verbatim>\<open>PAGE_ALIGN\<close> at the width of its argument, a \<^verbatim>\<open>__u32\<close>.\<close>

definition page_align :: "u32 \<Rightarrow> u32" where
  "page_align x = (x + (PAGE_SIZE - 1)) AND NOT (PAGE_SIZE - 1)"

definition bitmap_weight :: "bool list \<Rightarrow> nat" where
  "bitmap_weight bm = count_if (\<lambda>b. b) bm"

text \<open>
  \<open>from_user\<close> and \<open>to_user\<close> are the outcomes of the two user copies and \<open>mem\<close> the answer of
  \<^verbatim>\<open>dma_alloc_coherent\<close>. \<open>p\<close> is the session pointer and the pair the device and that session.
\<close>

definition dma_accel_ioc_buffer_alloc ::
  "bool \<Rightarrow> (u64 \<times> dma_addr_t) option \<Rightarrow> bool \<Rightarrow> sess_ptr \<Rightarrow> dma_accel_buffer_alloc
   \<Rightarrow> dma_accel_dev \<times> dma_accel_session
   \<Rightarrow> (dma_accel_dev \<times> dma_accel_session) \<times> (errno + dma_accel_buffer_alloc)" where
  "dma_accel_ioc_buffer_alloc from_user mem to_user p req ds =
     (let (dev, sess) = ds in
      if \<not> from_user then (ds, Inl EFAULT)
      else if ba_size req = 0 \<or> DMA_ACCEL_BUFFER_ALLOC_MAX < ba_size req then (ds, Inl EINVAL)
      else let sz = ucast (page_align (ba_size req)) :: u64 in
        if DEFAULT_BUFFER_QUOTA \<le> bitmap_weight (owned_buffers sess) then (ds, Inl EDQUOT)
        else case first_index (\<lambda>b. \<not> be_in_use b) (buffers dev) of
            None \<Rightarrow> (ds, Inl ENOSPC)
          | Some slot \<Rightarrow>
             (case mem of
                None \<Rightarrow> (ds, Inl ENOMEM)
              | Some (kaddr, dma_addr) \<Rightarrow>
                 (let entry = \<lparr>be_kaddr = kaddr, be_dma_addr = dma_addr, be_size = sz,
                               be_in_use = True, be_owner = Some p\<rparr>;
                      dev = dev\<lparr>buffers := (buffers dev)[slot := entry]\<rparr>;
                      sess = sess\<lparr>owned_buffers := (owned_buffers sess)[slot := True]\<rparr>;
                      req = req\<lparr>ba_buffer_id := of_nat slot,
                                ba_mmap_offset := push_bit PAGE_SHIFT (of_nat slot)\<rparr>
                  in if \<not> to_user
                     then ((dev\<lparr>buffers := (buffers dev)[slot := entry\<lparr>be_in_use := False, be_owner := None\<rparr>]\<rparr>,
                            sess\<lparr>owned_buffers := (owned_buffers sess)[slot := False]\<rparr>), Inl EFAULT)
                     else ((dev, sess), Inr req))))"

text \<open>
  \<open>mapped\<close> is the answer of \<^verbatim>\<open>dma_mmap_coherent\<close> (\<open>None\<close>: success). A successful call returns the
  kernel address, bus address and size of the buffer it maps.
\<close>

definition dma_accel_chr_mmap ::
  "errno option \<Rightarrow> sess_ptr \<Rightarrow> u64 \<Rightarrow> u64 \<Rightarrow> dma_accel_dev \<Rightarrow> errno + (u64 \<times> dma_addr_t \<times> u64)" where
  "dma_accel_chr_mmap mapped p vm_pgoff req_size dev =
     (if MAX_BUFFERS \<le> unat vm_pgoff then Inl EINVAL
      else let b = buffers dev ! unat vm_pgoff in
        if \<not> be_in_use b \<or> be_size b < req_size then Inl EINVAL
        else if be_owner b \<noteq> Some p then Inl EPERM
        else case mapped of Some e \<Rightarrow> Inl e | None \<Rightarrow> Inr (be_kaddr b, be_dma_addr b, be_size b))"

section \<open>Page rounding\<close>

lemma page_align_div: "page_align x = (x + 4095) div 4096 * 4096"
proof -
  have "page_align x = push_bit 12 (drop_bit 12 (x + 4095))"
    by (rule bit_word_eqI)
       (auto simp: page_align_def accel_simps bit_simps
             simp flip: mask_eq_exp_minus_1 [of 12, where 'a = u32, simplified])
  then show ?thesis by (simp add: push_bit_eq_mult drop_bit_eq_div)
qed

lemma unat_page_align:
  assumes "x \<le> DMA_ACCEL_BUFFER_ALLOC_MAX"
  shows "unat (page_align x) = (unat x + 4095) div 4096 * 4096"
proof -
  have "unat (x + 4095) = unat x + 4095"
    using assms by (simp add: unat_word_ariths accel_simps word_le_nat_alt)
  moreover have "unat (y div 4096 * 4096) = unat y div 4096 * 4096" for y :: u32
  proof -
    have "unat y div 4096 * 4096 \<le> unat y" by (rule div_times_less_eq_dividend)
    also have "\<dots> < 2 ^ 32" using unsigned_less [of y] by simp
    finally show ?thesis by (simp add: unat_word_ariths unat_div)
  qed
  ultimately show ?thesis by (simp add: page_align_div)
qed

lemma page_align_bounds:
  assumes "x \<le> DMA_ACCEL_BUFFER_ALLOC_MAX"
  shows "unat x \<le> unat (page_align x)" and "unat (page_align x) < unat x + 4096"
    and "4096 dvd unat (page_align x)"
proof -
  have "(unat x + 4095) div 4096 * 4096 + (unat x + 4095) mod 4096 = unat x + 4095"
    by (rule div_mult_mod_eq)
  moreover have "(unat x + 4095) mod 4096 < 4096" by simp
  ultimately show "unat x \<le> unat (page_align x)" "unat (page_align x) < unat x + 4096"
    unfolding unat_page_align [OF assms] by linarith+
  show "4096 dvd unat (page_align x)" unfolding unat_page_align [OF assms] by simp
qed

section \<open>Ownership\<close>

text \<open>A slot is in use exactly when it has an owner, and its owner is a live session whose bitmap
  has the slot's bit; no other session's bitmap has it.\<close>

definition own_inv :: "kstate \<Rightarrow> bool" where
  "own_inv k \<longleftrightarrow> (\<forall>i < MAX_BUFFERS.
     (be_in_use (buffers (kdev k) ! i) \<longleftrightarrow> be_owner (buffers (kdev k) ! i) \<noteq> None)
     \<and> (\<forall>p. be_owner (buffers (kdev k) ! i) = Some p \<longrightarrow> p \<in> dom (sessions k))
     \<and> (\<forall>p s. sessions k p = Some s \<longrightarrow>
            (owned_buffers s ! i \<longleftrightarrow> be_owner (buffers (kdev k) ! i) = Some p)))"

definition quota_inv :: "kstate \<Rightarrow> bool" where
  "quota_inv k \<longleftrightarrow>
     (\<forall>p s. sessions k p = Some s \<longrightarrow> bitmap_weight (owned_buffers s) \<le> DEFAULT_BUFFER_QUOTA)"

definition wf_kstate :: "kstate \<Rightarrow> bool" where
  "wf_kstate k \<longleftrightarrow> wf_dev (kdev k) \<and> (\<forall>p s. sessions k p = Some s \<longrightarrow> wf_session s)"

lemma own_invI:
  assumes "\<And>i. i < MAX_BUFFERS \<Longrightarrow>
      be_in_use (buffers (kdev k) ! i) \<longleftrightarrow> be_owner (buffers (kdev k) ! i) \<noteq> None"
    and "\<And>i p. i < MAX_BUFFERS \<Longrightarrow> be_owner (buffers (kdev k) ! i) = Some p \<Longrightarrow> p \<in> dom (sessions k)"
    and "\<And>i p s. i < MAX_BUFFERS \<Longrightarrow> sessions k p = Some s \<Longrightarrow>
      owned_buffers s ! i \<longleftrightarrow> be_owner (buffers (kdev k) ! i) = Some p"
  shows "own_inv k"
  unfolding own_inv_def using assms by blast

lemma own_invD:
  assumes "own_inv k" and "i < MAX_BUFFERS"
  shows "be_in_use (buffers (kdev k) ! i) \<longleftrightarrow> be_owner (buffers (kdev k) ! i) \<noteq> None"
    and "be_owner (buffers (kdev k) ! i) = Some p \<Longrightarrow> p \<in> dom (sessions k)"
    and "sessions k p = Some s \<Longrightarrow>
      owned_buffers s ! i \<longleftrightarrow> be_owner (buffers (kdev k) ! i) = Some p"
  using assms unfolding own_inv_def by blast+

text \<open>What the handler did, read off its result.\<close>

definition alloc_entry :: "u64 \<Rightarrow> dma_addr_t \<Rightarrow> sess_ptr \<Rightarrow> u32 \<Rightarrow> dma_accel_buf_entry" where
  "alloc_entry kaddr dma p n = \<lparr>be_kaddr = kaddr, be_dma_addr = dma, be_size = ucast (page_align n),
     be_in_use = True, be_owner = Some p\<rparr>"

lemma buffer_alloc_Inr:
  assumes "dma_accel_ioc_buffer_alloc fu mem tu p req (dev, sess) = ((dev', sess'), Inr req')"
  obtains slot kaddr dma where
    "first_index (\<lambda>b. \<not> be_in_use b) (buffers dev) = Some slot" "mem = Some (kaddr, dma)"
    "0 < unat (ba_size req)" "ba_size req \<le> DMA_ACCEL_BUFFER_ALLOC_MAX"
    "bitmap_weight (owned_buffers sess) < DEFAULT_BUFFER_QUOTA"
    "dev' = dev\<lparr>buffers := (buffers dev)[slot := alloc_entry kaddr dma p (ba_size req)]\<rparr>"
    "sess' = sess\<lparr>owned_buffers := (owned_buffers sess)[slot := True]\<rparr>"
    "req' = req\<lparr>ba_buffer_id := of_nat slot, ba_mmap_offset := push_bit PAGE_SHIFT (of_nat slot)\<rparr>"
  using assms
  by (auto simp: dma_accel_ioc_buffer_alloc_def Let_def alloc_entry_def unat_gt_0
           split: if_splits option.splits)

lemma buffer_alloc_Inl:
  assumes "dma_accel_ioc_buffer_alloc fu mem tu p req (dev, sess) = ((dev', sess'), Inl e)"
  shows "dev' = dev \<and> sess' = sess
    \<or> (\<exists>slot entry. first_index (\<lambda>b. \<not> be_in_use b) (buffers dev) = Some slot \<and> e = EFAULT
         \<and> \<not> be_in_use entry \<and> be_owner entry = None
         \<and> dev' = dev\<lparr>buffers := (buffers dev)[slot := entry]\<rparr>
         \<and> sess' = sess\<lparr>owned_buffers := (owned_buffers sess)[slot := False]\<rparr>)"
proof (cases "first_index (\<lambda>b. \<not> be_in_use b) (buffers dev)")
  case None
  with assms show ?thesis
    by (simp add: dma_accel_ioc_buffer_alloc_def Let_def split: if_splits)
next
  case (Some slot)
  show ?thesis
  proof (cases mem)
    case None
    with assms Some show ?thesis
      by (simp add: dma_accel_ioc_buffer_alloc_def Let_def split: if_splits)
  next
    case mem: (Some ka)
    show ?thesis
    proof (cases "dev' = dev \<and> sess' = sess")
      case False
      with assms Some mem show ?thesis
        by (cases ka) (force simp: dma_accel_ioc_buffer_alloc_def Let_def split: if_splits)
    qed simp
  qed
qed

definition put_session :: "kstate \<Rightarrow> sess_ptr \<Rightarrow> dma_accel_dev \<times> dma_accel_session \<Rightarrow> kstate" where
  "put_session k p ds = k\<lparr>kdev := fst ds, sessions := (sessions k)(p \<mapsto> snd ds)\<rparr>"

lemma put_session_simps [simp]:
  "kdev (put_session k p ds) = fst ds" "sessions (put_session k p ds) = (sessions k)(p \<mapsto> snd ds)"
  by (simp_all add: put_session_def)

text \<open>Giving a slot that is free to session \<open>p\<close>, or clearing it, keeps the two directions in step.\<close>

lemma own_inv_set_slot:
  assumes inv: "own_inv k" and wf: "wf_kstate k" and p: "sessions k p = Some s"
    and slot: "slot < MAX_BUFFERS" "\<not> be_in_use (buffers (kdev k) ! slot)"
    and e: "be_in_use e \<longleftrightarrow> b" "be_owner e = (if b then Some p else None)"
  shows "own_inv (put_session k p ((kdev k)\<lparr>buffers := (buffers (kdev k))[slot := e]\<rparr>,
                                   s\<lparr>owned_buffers := (owned_buffers s)[slot := b]\<rparr>))"
proof (rule own_invI)
  have len: "length (buffers (kdev k)) = MAX_BUFFERS" "length (owned_buffers s) = MAX_BUFFERS"
    using wf p by (auto simp: wf_kstate_def wf_dev_def wf_session_def)
  have none: "be_owner (buffers (kdev k) ! slot) = None"
    using own_invD(1) [OF inv slot(1)] slot(2) by simp
  note nths = len slot(1) nth_list_update
  fix i
  assume i: "i < MAX_BUFFERS"
  show "be_in_use (buffers (kdev (put_session k p ((kdev k)\<lparr>buffers := (buffers (kdev k))[slot := e]\<rparr>,
            s\<lparr>owned_buffers := (owned_buffers s)[slot := b]\<rparr>))) ! i)
        \<longleftrightarrow> be_owner (buffers (kdev (put_session k p ((kdev k)\<lparr>buffers := (buffers (kdev k))[slot := e]\<rparr>,
            s\<lparr>owned_buffers := (owned_buffers s)[slot := b]\<rparr>))) ! i) \<noteq> None"
    using own_invD(1) [OF inv i] e i by (auto simp: nths)
  fix q
  show "q \<in> dom (sessions (put_session k p ((kdev k)\<lparr>buffers := (buffers (kdev k))[slot := e]\<rparr>,
            s\<lparr>owned_buffers := (owned_buffers s)[slot := b]\<rparr>)))"
    if "be_owner (buffers (kdev (put_session k p ((kdev k)\<lparr>buffers := (buffers (kdev k))[slot := e]\<rparr>,
            s\<lparr>owned_buffers := (owned_buffers s)[slot := b]\<rparr>))) ! i) = Some q"
    using that own_invD(2) [OF inv i] e i by (auto simp: nths split: if_splits)
  fix t
  assume t: "sessions (put_session k p ((kdev k)\<lparr>buffers := (buffers (kdev k))[slot := e]\<rparr>,
            s\<lparr>owned_buffers := (owned_buffers s)[slot := b]\<rparr>)) q = Some t"
  show "owned_buffers t ! i
        \<longleftrightarrow> be_owner (buffers (kdev (put_session k p ((kdev k)\<lparr>buffers := (buffers (kdev k))[slot := e]\<rparr>,
            s\<lparr>owned_buffers := (owned_buffers s)[slot := b]\<rparr>))) ! i) = Some q"
  proof (cases "q = p")
    case True
    with t have "t = s\<lparr>owned_buffers := (owned_buffers s)[slot := b]\<rparr>" by simp
    with True own_invD(3) [OF inv i p] e i show ?thesis by (auto simp: nths)
  next
    case False
    with t have "sessions k q = Some t" by simp
    with False own_invD(3) [OF inv i] none e i show ?thesis by (auto simp: nths)
  qed
qed

lemma put_session_same: "sessions k p = Some s \<Longrightarrow> put_session k p (kdev k, s) = k"
  by (simp add: put_session_def fun_upd_idem)

lemma free_slot_range:
  assumes "wf_dev d" and "first_index (\<lambda>b. \<not> be_in_use b) (buffers d) = Some slot"
  shows "slot < MAX_BUFFERS" and "\<not> be_in_use (buffers d ! slot)"
  using assms first_index_SomeD [OF assms(2)] by (simp_all add: wf_dev_def)

lemma buffer_alloc_own_inv:
  assumes inv: "own_inv k" "wf_kstate k" and p: "sessions k p = Some s"
    and run: "dma_accel_ioc_buffer_alloc fu mem tu p req (kdev k, s) = (ds', r)"
  shows "own_inv (put_session k p ds')"
proof (cases r)
  have wfd: "wf_dev (kdev k)" using inv(2) by (simp add: wf_kstate_def)
  case (Inr req')
  with run obtain dev' s' where ds': "ds' = (dev', s')"
      "dma_accel_ioc_buffer_alloc fu mem tu p req (kdev k, s) = ((dev', s'), Inr req')"
    by (cases ds') auto
  from ds'(2) obtain slot kaddr dma where
    idx: "first_index (\<lambda>b. \<not> be_in_use b) (buffers (kdev k)) = Some slot" and
    "dev' = (kdev k)\<lparr>buffers := (buffers (kdev k))[slot := alloc_entry kaddr dma p (ba_size req)]\<rparr>"
    "s' = s\<lparr>owned_buffers := (owned_buffers s)[slot := True]\<rparr>"
    by (rule buffer_alloc_Inr)
  with ds'(1) show ?thesis
    using own_inv_set_slot [OF inv p free_slot_range [OF wfd idx],
        of "alloc_entry kaddr dma p (ba_size req)" True]
    by (simp add: alloc_entry_def)
next
  have wfd: "wf_dev (kdev k)" using inv(2) by (simp add: wf_kstate_def)
  case (Inl e)
  with run obtain dev' s' where ds': "ds' = (dev', s')"
      "dma_accel_ioc_buffer_alloc fu mem tu p req (kdev k, s) = ((dev', s'), Inl e)"
    by (cases ds') auto
  from buffer_alloc_Inl [OF ds'(2)] show ?thesis
  proof (elim disjE exE conjE)
    assume "dev' = kdev k" "s' = s"
    with ds' p inv show ?thesis by (simp add: put_session_same)
  next
    fix slot entry
    assume idx: "first_index (\<lambda>b. \<not> be_in_use b) (buffers (kdev k)) = Some slot"
      and "\<not> be_in_use entry" "be_owner entry = None"
      "dev' = (kdev k)\<lparr>buffers := (buffers (kdev k))[slot := entry]\<rparr>"
      "s' = s\<lparr>owned_buffers := (owned_buffers s)[slot := False]\<rparr>"
    with ds'(1) show ?thesis
      using own_inv_set_slot [OF inv p free_slot_range [OF wfd idx], of entry False] by simp
  qed
qed

lemma bitmap_weight_update_le: "bitmap_weight (bm[i := False]) \<le> bitmap_weight bm"
proof (cases "i < length bm")
  case True
  from count_if_update [OF this, of "\<lambda>b. b" False] show ?thesis by (simp add: bitmap_weight_def)
qed (simp add: list_update_beyond)

lemma bitmap_weight_update_Suc: "bitmap_weight (bm[i := True]) \<le> Suc (bitmap_weight bm)"
proof (cases "i < length bm")
  case True
  from count_if_update [OF this, of "\<lambda>b. b" True] show ?thesis by (simp add: bitmap_weight_def)
qed (simp add: list_update_beyond)

lemma buffer_alloc_quota:
  assumes "bitmap_weight (owned_buffers s) \<le> DEFAULT_BUFFER_QUOTA"
    and "dma_accel_ioc_buffer_alloc fu mem tu p req (d, s) = ((d', s'), r)"
  shows "bitmap_weight (owned_buffers s') \<le> DEFAULT_BUFFER_QUOTA"
proof (cases r)
  case (Inr req')
  with assms(2) obtain slot where "bitmap_weight (owned_buffers s) < DEFAULT_BUFFER_QUOTA"
    "s' = s\<lparr>owned_buffers := (owned_buffers s)[slot := True]\<rparr>"
    by (auto elim: buffer_alloc_Inr)
  with bitmap_weight_update_Suc [of "owned_buffers s" slot] show ?thesis by simp
next
  case (Inl e)
  with assms(2) have "s' = s \<or> (\<exists>slot. s' = s\<lparr>owned_buffers := (owned_buffers s)[slot := False]\<rparr>)"
    using buffer_alloc_Inl by blast
  then obtain slot where "s' = s \<or> s' = s\<lparr>owned_buffers := (owned_buffers s)[slot := False]\<rparr>"
    by blast
  with assms(1) bitmap_weight_update_le [of "owned_buffers s" slot] show ?thesis
    by (auto intro: order_trans)
qed

lemma buffer_alloc_frame:
  assumes "dma_accel_ioc_buffer_alloc fu mem tu p req (d, s) = ((d', s'), r)"
  shows "length (buffers d') = length (buffers d)" and "cmd_table d' = cmd_table d"
    and "sq_buf d' = sq_buf d" and "cq_buf d' = cq_buf d" and "total_inflight d' = total_inflight d"
    and "active_sessions d' = active_sessions d" and "next_cmd_id d' = next_cmd_id d"
    and "length (owned_buffers s') = length (owned_buffers s)" and "inflight s' = inflight s"
    and "comp_ring s' = comp_ring s" and "comp_head s' = comp_head s" and "comp_tail s' = comp_tail s"
proof -
  have "(\<exists>bs. d' = d\<lparr>buffers := bs\<rparr> \<and> length bs = length (buffers d))
        \<and> (\<exists>bm. s' = s\<lparr>owned_buffers := bm\<rparr> \<and> length bm = length (owned_buffers s))"
  proof (cases r)
    case (Inr req')
    with assms obtain slot kaddr dma where
      "d' = d\<lparr>buffers := (buffers d)[slot := alloc_entry kaddr dma p (ba_size req)]\<rparr>"
      "s' = s\<lparr>owned_buffers := (owned_buffers s)[slot := True]\<rparr>"
      by (auto elim: buffer_alloc_Inr)
    then show ?thesis by (metis length_list_update)
  next
    case (Inl e)
    have id: "d = d\<lparr>buffers := buffers d\<rparr>" "s = s\<lparr>owned_buffers := owned_buffers s\<rparr>" by simp_all
    from buffer_alloc_Inl [OF assms [unfolded Inl]] show ?thesis
      using id by (elim disjE exE conjE) (metis length_list_update)+
  qed
  then show "length (buffers d') = length (buffers d)" "cmd_table d' = cmd_table d"
    "sq_buf d' = sq_buf d" "cq_buf d' = cq_buf d" "total_inflight d' = total_inflight d"
    "active_sessions d' = active_sessions d" "next_cmd_id d' = next_cmd_id d"
    "length (owned_buffers s') = length (owned_buffers s)" "inflight s' = inflight s"
    "comp_ring s' = comp_ring s" "comp_head s' = comp_head s" "comp_tail s' = comp_tail s" by auto
qed

section \<open>From the allocation to the mapping\<close>

lemma mmap_offset_decodes:
  assumes "slot < MAX_BUFFERS"
  shows "unat (drop_bit PAGE_SHIFT (push_bit PAGE_SHIFT (of_nat slot) :: u64)) = slot"
proof -
  have lt: "slot * 4096 < 2 ^ 64" using assms by (simp add: accel_simps)
  have "unat (push_bit PAGE_SHIFT (of_nat slot) :: u64) = slot * 4096"
    using lt assms by (simp add: push_bit_eq_mult unat_word_ariths unat_of_nat accel_simps)
  then show ?thesis by (simp add: unat_drop_bit_eq drop_bit_eq_div unat_div accel_simps)
qed

end
