(* ===== verification/Driver_Submit.thy ===== *)
theory Driver_Submit
  imports Driver_Buffers
begin

text \<open>
  \<^verbatim>\<open>ioctl(SUBMIT)\<close>: validation of the request against the buffer table, allocation of the command
  identifier, the blocking admission loop with its ring cap (M14) and fairness quota (M15), the
  in-flight accounting and the enqueue. Each part is one definition, cut where the code takes or
  drops a lock, and \<open>dma_accel_ioc_submit\<close> composes them.
\<close>

section \<open>Validation\<close>

definition dma_accel_opcode_needs_src2 :: "u32 \<Rightarrow> bool" where
  "dma_accel_opcode_needs_src2 opcode \<longleftrightarrow> opcode = OPCODE_SCALE_ADD \<or> opcode = OPCODE_TILE_MATMUL"

text \<open>\<^verbatim>\<open>(u64)offset + len > size\<close>: the sum of two 32-bit values in 64 bits.\<close>

definition past_end :: "u32 \<Rightarrow> u32 \<Rightarrow> dma_accel_buf_entry \<Rightarrow> bool" where
  "past_end offset len b \<longleftrightarrow> be_size b < ucast offset + ucast len"

text \<open>The section under \<^verbatim>\<open>buf_mutex\<close>: an error, or the three bus addresses of the command.\<close>

definition submit_validate ::
  "sess_ptr \<Rightarrow> dma_accel_submit \<Rightarrow> dma_accel_dev \<Rightarrow> errno + (dma_addr_t \<times> dma_addr_t \<times> dma_addr_t)" where
  "submit_validate p req dev =
     (let src = buffers dev ! unat (sub_src_buffer_id req);
          dst = buffers dev ! unat (sub_dst_buffer_id req);
          src2 = buffers dev ! unat (sub_src2_buffer_id req) in
      if MAX_BUFFERS \<le> unat (sub_src_buffer_id req) \<or> \<not> be_in_use src
         \<or> MAX_BUFFERS \<le> unat (sub_dst_buffer_id req) \<or> \<not> be_in_use dst
      then Inl EINVAL
      else if be_owner src \<noteq> Some p \<or> be_owner dst \<noteq> Some p then Inl EPERM
      else if past_end (sub_src_offset req) (sub_len req) src
              \<or> past_end (sub_dst_offset req) (sub_len req) dst
      then Inl EINVAL
      else if \<not> dma_accel_opcode_needs_src2 (sub_opcode req)
      then Inr (be_dma_addr src + ucast (sub_src_offset req), be_dma_addr dst + ucast (sub_dst_offset req), 0)
      else if MAX_BUFFERS \<le> unat (sub_src2_buffer_id req) \<or> \<not> be_in_use src2 then Inl EINVAL
      else if be_owner src2 \<noteq> Some p then Inl EPERM
      else if past_end (sub_src2_offset req) (sub_len req) src2 then Inl EINVAL
      else Inr (be_dma_addr src + ucast (sub_src_offset req), be_dma_addr dst + ucast (sub_dst_offset req),
                be_dma_addr src2 + ucast (sub_src2_offset req)))"

section \<open>Admission\<close>

text \<open>\<^verbatim>\<open>DIV_ROUND_UP(DMA_ACCEL_QUEUE_DEPTH, active < 1 ? 1 : active)\<close>.\<close>

definition admission_quota :: "int \<Rightarrow> int" where
  "admission_quota active =
     int (div_round_up DMA_ACCEL_QUEUE_DEPTH (nat (if active < 1 then 1 else active)))"

definition dma_accel_admission_likely_ok :: "dma_accel_dev \<times> dma_accel_session \<Rightarrow> bool" where
  "dma_accel_admission_likely_ok ds =
     (let (dev, sess) = ds; quota = admission_quota (active_sessions dev)
      in total_inflight dev < int DMA_ACCEL_QUEUE_DEPTH \<and> inflight sess < quota)"

text \<open>
  The section under \<^verbatim>\<open>cmd_lock\<close>: with the cap and the quota met, take the first free entry of the
  command table. \<open>quota\<close> was computed before the lock was taken.
\<close>

definition submit_admit ::
  "sess_ptr \<Rightarrow> u64 \<Rightarrow> int \<Rightarrow> dma_accel_dev \<times> dma_accel_session \<Rightarrow> dma_accel_dev option" where
  "submit_admit p cmd_id quota ds =
     (let (dev, sess) = ds in
      if total_inflight dev < int DMA_ACCEL_QUEUE_DEPTH \<and> inflight sess < quota
      then (case first_index (\<lambda>c. \<not> cc_valid c) (cmd_table dev) of
              Some slot \<Rightarrow> Some (dev\<lparr>cmd_table := (cmd_table dev)[slot :=
                              \<lparr>cc_valid = True, cc_cmd_id = cmd_id, cc_sess = Some p\<rparr>]\<rparr>)
            | None \<Rightarrow> None)
      else None)"

text \<open>
  \<^verbatim>\<open>wait_event_interruptible(quota_wq, dma_accel_admission_likely_ok(sess))\<close>. What the rest of the
  system does while the caller sleeps is the list \<open>wakes\<close>: each entry is either the state change
  up to one wake-up or, as \<open>None\<close>, a signal. The result \<open>None\<close> means that the caller is still
  asleep at the end of the list.
\<close>

type_synonym wake = "(dma_accel_dev \<times> dma_accel_session \<Rightarrow> dma_accel_dev \<times> dma_accel_session) option"

fun wait_admission ::
  "wake list \<Rightarrow> dma_accel_dev \<times> dma_accel_session
   \<Rightarrow> (wake list \<times> (dma_accel_dev \<times> dma_accel_session) \<times> (errno + unit)) option" where
  "wait_admission [] ds =
     (if dma_accel_admission_likely_ok ds then Some ([], ds, Inr ()) else None)"
| "wait_admission (w # ws) ds =
     (if dma_accel_admission_likely_ok ds then Some (w # ws, ds, Inr ())
      else case w of None \<Rightarrow> Some (ws, ds, Inl ERESTARTSYS) | Some f \<Rightarrow> wait_admission ws (f ds))"

partial_function (option) submit_loop ::
  "sess_ptr \<Rightarrow> u64 \<Rightarrow> wake list \<Rightarrow> dma_accel_dev \<times> dma_accel_session
   \<Rightarrow> ((dma_accel_dev \<times> dma_accel_session) \<times> (errno + unit)) option" where
  "submit_loop p cmd_id ws ds =
     (case submit_admit p cmd_id (admission_quota (active_sessions (fst ds))) ds of
        Some dev \<Rightarrow> Some ((dev, snd ds), Inr ())
      | None \<Rightarrow>
          Option.bind (wait_admission ws ds)
            (\<lambda>(ws', ds', r). case r of
                 Inl e \<Rightarrow> Some (ds', Inl e)
               | Inr u \<Rightarrow> submit_loop p cmd_id ws' ds'))"

section \<open>Accounting and the whole handler\<close>

definition next_id :: "dma_accel_dev \<Rightarrow> dma_accel_dev \<times> u64" where
  "next_id dev = (dev\<lparr>next_cmd_id := next_cmd_id dev + 1\<rparr>, next_cmd_id dev + 1)"

definition session_inflight_inc :: "dma_accel_session \<Rightarrow> dma_accel_session" where
  "session_inflight_inc s = s\<lparr>inflight := inflight s + 1\<rparr>"

definition total_inflight_inc :: "dma_accel_dev \<Rightarrow> dma_accel_dev" where
  "total_inflight_inc dev = dev\<lparr>total_inflight := total_inflight dev + 1\<rparr>"

definition dma_accel_ioc_submit ::
  "bool \<Rightarrow> bool \<Rightarrow> wake list \<Rightarrow> sess_ptr \<Rightarrow> dma_accel_submit \<Rightarrow> dma_accel_dev \<times> dma_accel_session
   \<Rightarrow> ((dma_accel_dev \<times> dma_accel_session) \<times> (errno + dma_accel_submit)) option" where
  "dma_accel_ioc_submit from_user to_user ws p req ds =
     (let (dev, sess) = ds in
      if \<not> from_user then Some (ds, Inl EFAULT)
      else case submit_validate p req dev of
        Inl e \<Rightarrow> Some (ds, Inl e)
      | Inr (src_dma, dst_dma, src2_dma) \<Rightarrow>
         (let (dev, cmd_id) = next_id dev; req = req\<lparr>sub_cmd_id := cmd_id\<rparr> in
          case submit_loop p cmd_id ws (dev, sess) of
            None \<Rightarrow> None
          | Some (ds, Inl e) \<Rightarrow> Some (ds, Inl e)
          | Some ((dev, sess), Inr u) \<Rightarrow>
             (let sess = session_inflight_inc sess;
                  dev = total_inflight_inc dev;
                  dev = dma_accel_queue_submit_ext dev (sub_opcode req) src_dma dst_dma (sub_len req)
                          (sub_cmd_id req) src2_dma (sub_scalar req)
              in if \<not> to_user then Some ((dev, sess), Inl EFAULT) else Some ((dev, sess), Inr req))))"

section \<open>What a validated request is\<close>

text \<open>
  The bus range \<open>[a, a + len)\<close> of one operand lies inside the allocation of a buffer that session
  \<open>p\<close> owns.
\<close>

definition operand_ok :: "dma_accel_dev \<Rightarrow> sess_ptr \<Rightarrow> u32 \<Rightarrow> u32 \<Rightarrow> u32 \<Rightarrow> dma_addr_t \<Rightarrow> bool" where
  "operand_ok dev p bid off len a \<longleftrightarrow>
     unat bid < MAX_BUFFERS \<and>
     (let b = buffers dev ! unat bid in
      be_in_use b \<and> be_owner b = Some p \<and> a = be_dma_addr b + ucast off
      \<and> unat off + unat len \<le> unat (be_size b))"

lemma past_end_iff: "past_end off len b \<longleftrightarrow> unat (be_size b) < unat off + unat len"
proof -
  have "unat off < 2 ^ 32" "unat len < 2 ^ 32" using unsigned_less [of off] unsigned_less [of len] by simp_all
  then have "unat (ucast off + ucast len :: u64) = unat off + unat len"
    by (simp add: unat_word_ariths unsigned_ucast_eq take_bit_eq_mod)
  then show ?thesis by (simp add: past_end_def word_less_nat_alt)
qed

lemma submit_validate_ok:
  assumes "submit_validate p req dev = Inr (src, dst, src2)"
  shows "operand_ok dev p (sub_src_buffer_id req) (sub_src_offset req) (sub_len req) src"
    and "operand_ok dev p (sub_dst_buffer_id req) (sub_dst_offset req) (sub_len req) dst"
    and "dma_accel_opcode_needs_src2 (sub_opcode req) \<Longrightarrow>
         operand_ok dev p (sub_src2_buffer_id req) (sub_src2_offset req) (sub_len req) src2"
    and "\<not> dma_accel_opcode_needs_src2 (sub_opcode req) \<Longrightarrow> src2 = 0"
  using assms
  by (auto simp: submit_validate_def Let_def operand_ok_def past_end_iff not_less split: if_splits)

section \<open>Admission lemmas\<close>

lemma submit_admit_Some:
  assumes "submit_admit p c q (dev, sess) = Some dev'"
  obtains slot where "total_inflight dev < int DMA_ACCEL_QUEUE_DEPTH" "inflight sess < q"
    "first_index (\<lambda>c. \<not> cc_valid c) (cmd_table dev) = Some slot"
    "dev' = dev\<lparr>cmd_table := (cmd_table dev)[slot :=
               \<lparr>cc_valid = True, cc_cmd_id = c, cc_sess = Some p\<rparr>]\<rparr>"
  using assms by (auto simp: submit_admit_def split: if_splits option.splits)

lemma submit_admit_likely:
  assumes "dma_accel_admission_likely_ok (dev, sess)"
    and "first_index (\<lambda>c. \<not> cc_valid c) (cmd_table dev) = Some slot"
  shows "\<exists>dev'. submit_admit p c (admission_quota (active_sessions dev)) (dev, sess) = Some dev'"
  using assms by (simp add: dma_accel_admission_likely_ok_def submit_admit_def)

lemma admission_quota_pos: "0 < admission_quota active"
proof -
  have "0 < div_round_up DMA_ACCEL_QUEUE_DEPTH (nat (if active < 1 then 1 else active))"
    by (rule div_round_up_pos) (auto simp: accel_simps)
  then show ?thesis by (simp add: admission_quota_def)
qed

lemma admission_quota_single: "admission_quota 1 = int DMA_ACCEL_QUEUE_DEPTH"
  by (simp add: admission_quota_def div_round_up_def accel_simps)

lemma admission_quota_le: "admission_quota active \<le> int DMA_ACCEL_QUEUE_DEPTH"
  using div_round_up_antimono [of 1 "nat (if active < 1 then 1 else active)" DMA_ACCEL_QUEUE_DEPTH]
  by (auto simp: admission_quota_def)

end
