(* ===== verification/Driver_Chr.thy ===== *)
theory Driver_Chr
  imports Driver_Submit
begin

unbundle bit_operations_syntax

text \<open>
  The file operations of the character device: \<^verbatim>\<open>open\<close>, \<^verbatim>\<open>release\<close>, \<^verbatim>\<open>ioctl\<close>, \<^verbatim>\<open>read\<close> and \<^verbatim>\<open>poll\<close>
  (\<^verbatim>\<open>mmap\<close> is with the buffer table).
\<close>

section \<open>open\<close>

text \<open>\<open>mem\<close> is the answer of \<^verbatim>\<open>kzalloc\<close>: a pointer that is not in use, or \<open>None\<close>.\<close>

definition dma_accel_chr_open :: "sess_ptr option \<Rightarrow> kstate \<Rightarrow> kstate \<times> (errno + sess_ptr)" where
  "dma_accel_chr_open mem k =
     (case mem of
        None \<Rightarrow> (k, Inl ENOMEM)
      | Some p \<Rightarrow>
          (k\<lparr>kdev := (kdev k)\<lparr>active_sessions := active_sessions (kdev k) + 1\<rparr>,
             sessions := (sessions k)(p \<mapsto> init_session)\<rparr>, Inr p))"

section \<open>release\<close>

text \<open>The decrement of \<^verbatim>\<open>active_sessions\<close> that \<^verbatim>\<open>release()\<close> starts with.\<close>

definition release_begin :: "kstate \<Rightarrow> kstate" where
  "release_begin k = k\<lparr>kdev := (kdev k)\<lparr>active_sessions := active_sessions (kdev k) - 1\<rparr>\<rparr>"

text \<open>One iteration of \<^verbatim>\<open>for_each_set_bit(i, sess->owned_buffers, MAX_BUFFERS)\<close>.\<close>

definition release_slot :: "bool list \<Rightarrow> dma_accel_buf_entry list \<Rightarrow> nat \<Rightarrow> dma_accel_buf_entry list" where
  "release_slot bm bs i =
     (if bm ! i then bs[i := (bs ! i)\<lparr>be_in_use := False, be_owner := None\<rparr>] else bs)"

text \<open>
  The section under \<^verbatim>\<open>buf_mutex\<close> and the final \<^verbatim>\<open>kfree(sess)\<close>. The second component lists the
  \<^verbatim>\<open>dma_free_coherent\<close> calls: size, kernel address and bus address of each block freed.
\<close>

definition release_finish ::
  "sess_ptr \<Rightarrow> dma_accel_session \<Rightarrow> kstate \<Rightarrow> kstate \<times> (u64 \<times> u64 \<times> dma_addr_t) list" where
  "release_finish p sess k =
     (let bs = buffers (kdev k);
          freed = map (\<lambda>i. (be_size (bs ! i), be_kaddr (bs ! i), be_dma_addr (bs ! i)))
                      (filter (\<lambda>i. owned_buffers sess ! i) [0..<MAX_BUFFERS])
      in (k\<lparr>kdev := (kdev k)\<lparr>buffers := foldl (release_slot (owned_buffers sess)) bs [0..<MAX_BUFFERS]\<rparr>,
            sessions := (sessions k)(p := None)\<rparr>, freed))"

text \<open>
  \<^verbatim>\<open>while (atomic_read(&sess->inflight) > 0) msleep(1);\<close>, with the state changes of the rest of the
  system during each nap. \<open>None\<close>: the list of naps ends before the session has drained (or the
  session vanished under the caller).
\<close>

fun release_wait :: "(kstate \<Rightarrow> kstate) list \<Rightarrow> sess_ptr \<Rightarrow> kstate \<Rightarrow> (kstate \<times> dma_accel_session) option" where
  "release_wait naps p k =
     (case sessions k p of
        None \<Rightarrow> None
      | Some sess \<Rightarrow>
          if inflight sess \<le> 0 then Some (k, sess)
          else case naps of [] \<Rightarrow> None | f # fs \<Rightarrow> release_wait fs p (f k))"

definition dma_accel_chr_release ::
  "(kstate \<Rightarrow> kstate) list \<Rightarrow> sess_ptr \<Rightarrow> kstate \<Rightarrow> (kstate \<times> (u64 \<times> u64 \<times> dma_addr_t) list) option" where
  "dma_accel_chr_release naps p k =
     (case release_wait naps p (release_begin k) of
        None \<Rightarrow> None
      | Some (k', sess) \<Rightarrow> Some (release_finish p sess k'))"

section \<open>read\<close>

definition to_uapi :: "dma_accel_completion \<Rightarrow> dma_accel_completion_uapi" where
  "to_uapi c = \<lparr>ucomp_cmd_id = comp_cmd_id c, ucomp_status = comp_status c, ucomp_reserved = 0\<rparr>"

text \<open>
  The copy loop with \<open>n\<close> entries to go. \<open>to_user i\<close> is the outcome of the \<open>i\<close>-th
  \<^verbatim>\<open>copy_to_user\<close>; the flag reports that one failed.
\<close>

fun chr_read_loop ::
  "(nat \<Rightarrow> bool) \<Rightarrow> nat \<Rightarrow> nat \<Rightarrow> dma_accel_session
   \<Rightarrow> dma_accel_session \<times> dma_accel_completion_uapi list \<times> bool" where
  "chr_read_loop to_user copied 0 sess = (sess, [], False)"
| "chr_read_loop to_user copied (Suc n) sess =
     (if comp_head sess = comp_tail sess then (sess, [], False)
      else let idx = unat (comp_head sess) mod COMP_RING_SIZE;
               out = to_uapi (comp_ring sess ! idx);
               sess = sess\<lparr>comp_head := comp_head sess + 1\<rparr>
           in if \<not> to_user copied then (sess, [], True)
              else let (sess, outs, fault) = chr_read_loop to_user (Suc copied) n sess
                   in (sess, out # outs, fault))"

text \<open>
  A successful \<^verbatim>\<open>read()\<close> returns the entries that were copied; the byte count the code returns is
  \<^verbatim>\<open>sizeof(struct dma_accel_completion_uapi)\<close> times their number. \<open>ppos\<close> is the file position.
\<close>

definition dma_accel_chr_read ::
  "(nat \<Rightarrow> bool) \<Rightarrow> nat \<Rightarrow> int \<Rightarrow> dma_accel_session
   \<Rightarrow> dma_accel_session \<times> int \<times> (errno + dma_accel_completion_uapi list)" where
  "dma_accel_chr_read to_user count ppos sess =
     (let n_avail = unat (comp_tail sess - comp_head sess) in
      if n_avail = 0 then (sess, ppos, Inl EAGAIN)
      else let n_want = count div sizeof_completion_uapi in
        if n_want = 0 then (sess, ppos, Inl EINVAL)
        else let n_want = (if n_avail < n_want then n_avail else n_want);
                 (sess, outs, fault) = chr_read_loop to_user 0 n_want sess
             in if fault then (sess, ppos, if outs \<noteq> [] then Inr outs else Inl EFAULT)
                else (sess, ppos + int (length outs * sizeof_completion_uapi), Inr outs))"

section \<open>poll and ioctl\<close>

definition EPOLLIN :: u32 where [accel_simps]: "EPOLLIN = 0x1"
definition EPOLLRDNORM :: u32 where [accel_simps]: "EPOLLRDNORM = 0x40"

definition dma_accel_chr_poll :: "dma_accel_session \<Rightarrow> u32" where
  "dma_accel_chr_poll sess =
     (if comp_head sess \<noteq> comp_tail sess then EPOLLIN OR EPOLLRDNORM else 0)"

datatype ioctl_result = AllocResult dma_accel_buffer_alloc | SubmitResult dma_accel_submit

text \<open>\<open>areq\<close> and \<open>sreq\<close> are the user structure at \<^verbatim>\<open>arg\<close>, read as the one or the other request.\<close>

definition dma_accel_chr_ioctl ::
  "bool \<Rightarrow> bool \<Rightarrow> (u64 \<times> dma_addr_t) option \<Rightarrow> wake list \<Rightarrow> sess_ptr \<Rightarrow> u32
   \<Rightarrow> dma_accel_buffer_alloc \<Rightarrow> dma_accel_submit \<Rightarrow> dma_accel_dev \<times> dma_accel_session
   \<Rightarrow> ((dma_accel_dev \<times> dma_accel_session) \<times> (errno + ioctl_result)) option" where
  "dma_accel_chr_ioctl from_user to_user mem ws p cmd areq sreq ds =
     (if cmd = DMA_ACCEL_IOC_BUFFER_ALLOC
      then Some (case dma_accel_ioc_buffer_alloc from_user mem to_user p areq ds of
                   (ds', r) \<Rightarrow> (ds', map_sum id AllocResult r))
      else if cmd = DMA_ACCEL_IOC_SUBMIT
      then map_option (\<lambda>(ds', r). (ds', map_sum id SubmitResult r))
             (dma_accel_ioc_submit from_user to_user ws p sreq ds)
      else Some (ds, Inl ENOTTY))"

section \<open>Releasing a session frees exactly its slots\<close>

lemma release_slot_nth:
  "i < length xs \<Longrightarrow> release_slot bm xs m ! i
     = (if i = m \<and> bm ! m then (xs ! i)\<lparr>be_in_use := False, be_owner := None\<rparr> else xs ! i)"
  by (auto simp: release_slot_def nth_list_update)

lemma release_slot_length [simp]: "length (release_slot bm xs m) = length xs"
  by (simp add: release_slot_def)

lemma release_fold_nth:
  assumes "m \<le> length bs" and "i < length bs"
  shows "foldl (release_slot bm) bs [0..<m] ! i
         = (if i < m \<and> bm ! i then (bs ! i)\<lparr>be_in_use := False, be_owner := None\<rparr> else bs ! i)"
    and "length (foldl (release_slot bm) bs [0..<m]) = length bs"
proof -
  have "length (foldl (release_slot bm) bs [0..<m]) = length bs
        \<and> (\<forall>i < length bs. foldl (release_slot bm) bs [0..<m] ! i
             = (if i < m \<and> bm ! i then (bs ! i)\<lparr>be_in_use := False, be_owner := None\<rparr> else bs ! i))"
    using assms(1)
  proof (induction m)
    case 0
    then show ?case by simp
  next
    case (Suc m)
    then have IH: "length (foldl (release_slot bm) bs [0..<m]) = length bs"
      "\<And>i. i < length bs \<Longrightarrow> foldl (release_slot bm) bs [0..<m] ! i
             = (if i < m \<and> bm ! i then (bs ! i)\<lparr>be_in_use := False, be_owner := None\<rparr> else bs ! i)"
      by simp_all
    show ?case using IH Suc.prems by (auto simp: release_slot_nth less_Suc_eq)
  qed
  with assms(2) show "foldl (release_slot bm) bs [0..<m] ! i
         = (if i < m \<and> bm ! i then (bs ! i)\<lparr>be_in_use := False, be_owner := None\<rparr> else bs ! i)"
    and "length (foldl (release_slot bm) bs [0..<m]) = length bs" by auto
qed

lemma release_finish_buffers:
  assumes "wf_dev (kdev k)" and "i < MAX_BUFFERS"
  shows "buffers (kdev (fst (release_finish p sess k))) ! i
         = (if owned_buffers sess ! i
            then (buffers (kdev k) ! i)\<lparr>be_in_use := False, be_owner := None\<rparr>
            else buffers (kdev k) ! i)"
  using assms release_fold_nth(1) [of MAX_BUFFERS "buffers (kdev k)" i "owned_buffers sess"]
  by (simp add: release_finish_def Let_def wf_dev_def)

lemma release_finish_frame [simp]:
  "sessions (fst (release_finish p sess k)) = (sessions k)(p := None)"
  "cmd_table (kdev (fst (release_finish p sess k))) = cmd_table (kdev k)"
  "total_inflight (kdev (fst (release_finish p sess k))) = total_inflight (kdev k)"
  "active_sessions (kdev (fst (release_finish p sess k))) = active_sessions (kdev k)"
  "next_cmd_id (kdev (fst (release_finish p sess k))) = next_cmd_id (kdev k)"
  "sq_buf (kdev (fst (release_finish p sess k))) = sq_buf (kdev k)"
  "cq_buf (kdev (fst (release_finish p sess k))) = cq_buf (kdev k)"
  by (simp_all add: release_finish_def Let_def)

lemma release_finish_wf: "wf_kstate k \<Longrightarrow> wf_kstate (fst (release_finish p sess k))"
  using release_fold_nth(2) [of MAX_BUFFERS "buffers (kdev k)" 0 "owned_buffers sess"]
  by (auto simp: wf_kstate_def wf_dev_def release_finish_def Let_def accel_simps split: if_splits)

lemma release_finish_own_inv:
  assumes inv: "own_inv k" and wf: "wf_kstate k" and p: "sessions k p = Some sess"
  shows "own_inv (fst (release_finish p sess k))"
proof (rule own_invI)
  let ?k = "fst (release_finish p sess k)"
  fix i
  assume i: "i < MAX_BUFFERS"
  have b: "buffers (kdev ?k) ! i
      = (if be_owner (buffers (kdev k) ! i) = Some p
         then (buffers (kdev k) ! i)\<lparr>be_in_use := False, be_owner := None\<rparr> else buffers (kdev k) ! i)"
    using release_finish_buffers [OF _ i, of k p sess] own_invD(3) [OF inv i p] wf
    by (simp add: wf_kstate_def)
  show "be_in_use (buffers (kdev ?k) ! i) \<longleftrightarrow> be_owner (buffers (kdev ?k) ! i) \<noteq> None"
    using own_invD(1) [OF inv i] by (simp add: b)
  show "q \<in> dom (sessions ?k)" if "be_owner (buffers (kdev ?k) ! i) = Some q" for q
    using that own_invD(2) [OF inv i, of q] by (auto simp: b split: if_splits)
  show "owned_buffers t ! i \<longleftrightarrow> be_owner (buffers (kdev ?k) ! i) = Some q"
    if "sessions ?k q = Some t" for q t
    using that own_invD(3) [OF inv i, of q t] by (auto simp: b split: if_splits)
qed

section \<open>Reading is FIFO\<close>

lemma chr_read_loop_all:
  assumes "wf_session s"
  shows "\<exists>s'. chr_read_loop (\<lambda>_. True) c n s = (s', map to_uapi (take n (unread s)), False)
          \<and> unread s' = drop n (unread s) \<and> wf_session s' \<and> s' = s\<lparr>comp_head := comp_head s'\<rparr>"
  using assms
proof (induction n arbitrary: s c)
  case 0
  then show ?case by simp
next
  case (Suc n)
  show ?case
  proof (cases "comp_head s = comp_tail s")
    case True
    with Suc.prems show ?thesis by (simp add: unread_def)
  next
    case False
    let ?s = "s\<lparr>comp_head := comp_head s + 1\<rparr>"
    have pop: "unread s = comp_ring s ! (unat (comp_head s) mod COMP_RING_SIZE) # unread ?s"
      using ring_list_pop [OF comp_ring_fits [OF Suc.prems] False] Suc.prems
      by (simp add: unread_def wf_session_def)
    have "wf_session ?s"
      using Suc.prems counter_gap_pop [OF False] by (simp add: wf_session_def)
    from Suc.IH [OF this, of "Suc c"] obtain s' where s':
      "chr_read_loop (\<lambda>_. True) (Suc c) n ?s = (s', map to_uapi (take n (unread ?s)), False)"
      "unread s' = drop n (unread ?s)" "wf_session s'" "s' = ?s\<lparr>comp_head := comp_head s'\<rparr>"
      by blast
    with False pop show ?thesis by (auto simp: Let_def)
  qed
qed

end
