(* ===== verification/Driver_System.thy ===== *)
theory Driver_System
  imports Driver_Chr
begin

text \<open>
  The driver under concurrency. Several threads are inside \<^verbatim>\<open>ioctl(SUBMIT)\<close>, the interrupt handler
  runs on its own processor, sessions are opened, read and closed, and the device writes to the
  completion ring as it likes. One action is one critical section or one atomic operation of the
  handlers, so a run of actions is an interleaving of the code at the granularity of its locks;
  the definitions that an action performs are those of the handlers.

  What is guaranteed by the kernel around the driver is in the guards: \<^verbatim>\<open>kzalloc\<close> returns memory
  that is not in use, and \<^verbatim>\<open>release()\<close> runs once, when no other call on that file is running.
\<close>

section \<open>State\<close>

type_synonym dma_operands = "dma_addr_t \<times> dma_addr_t \<times> dma_addr_t"

text \<open>Where a thread is inside \<^verbatim>\<open>dma_accel_ioc_submit\<close>, the point being named by what is done.\<close>

datatype sphase =
    PValid          \<comment> \<open>request validated\<close>
  | PReady          \<comment> \<open>command identifier allocated; at the head of the admission loop\<close>
  | PQuota int      \<comment> \<open>\<^verbatim>\<open>active_sessions\<close> read and the quota computed\<close>
  | PWait           \<comment> \<open>asleep on \<^verbatim>\<open>quota_wq\<close>\<close>
  | PAdmitted       \<comment> \<open>entered in the command table, lock dropped\<close>
  | PCounted        \<comment> \<open>\<^verbatim>\<open>sess->inflight\<close> incremented\<close>
  | PTotal          \<comment> \<open>\<^verbatim>\<open>dev->total_inflight\<close> incremented\<close>
  | PWrote          \<comment> \<open>descriptor stored\<close>

datatype spc = SIdle | SAt sphase sess_ptr dma_accel_submit dma_operands

text \<open>Where the interrupt handler is.\<close>

datatype ipc =
    IIdle
  | ILoop u32                                  \<comment> \<open>at the loop head\<close>
  | IDeliver sess_ptr dma_accel_completion u32  \<comment> \<open>routed; \<^verbatim>\<open>cmd_lock\<close> dropped\<close>
  | IDec sess_ptr u32                           \<comment> \<open>stored in the session's ring\<close>
  | ITotal sess_ptr u32                         \<comment> \<open>\<^verbatim>\<open>owner->inflight\<close> decremented\<close>
  | IWake sess_ptr u32                          \<comment> \<open>\<^verbatim>\<open>dev->total_inflight\<close> decremented; about to wake \<^verbatim>\<open>owner->comp_wq\<close>\<close>
  | INext u32                                   \<comment> \<open>about to increment \<^verbatim>\<open>cq_head\<close>\<close>

text \<open>
  \<open>fds\<close> are the sessions whose file is open. \<open>issued\<close> is a history variable: the command
  identifiers admitted so far, each with the session it was admitted for. Entries of a session
  that has been freed are forgotten, so that a later session at the same address starts with none.
\<close>

record sys =
  sk :: kstate
  fds :: "sess_ptr set"
  thr :: "spc list"
  isr :: ipc
  issued :: "(u64 \<times> sess_ptr) list"

datatype action =
    AOpen sess_ptr
  | AAlloc sess_ptr dma_accel_buffer_alloc bool "(u64 \<times> dma_addr_t) option" bool
  | ARead sess_ptr "nat \<Rightarrow> bool" nat
  | ASubmit nat sess_ptr dma_accel_submit
  | AId nat
  | AQuota nat
  | AAdmit nat
  | AWake nat
  | ASignal nat
  | ACount nat
  | ATotal nat
  | AWrite nat
  | ABell nat
  | AIrq u32 u32
  | AIsr
  | ADma "dma_accel_completion list"
  | ARelBegin sess_ptr
  | ARelFinish sess_ptr

fun at_session :: "sess_ptr \<Rightarrow> spc \<Rightarrow> bool" where
  "at_session p SIdle = False"
| "at_session p (SAt ph q req addrs) = (q = p)"

definition forget :: "sess_ptr \<Rightarrow> (u64 \<times> sess_ptr) list \<Rightarrow> (u64 \<times> sess_ptr) list" where
  "forget p xs = filter (\<lambda>cq. snd cq \<noteq> p) xs"

definition set_thr :: "nat \<Rightarrow> spc \<Rightarrow> sys \<Rightarrow> sys" where
  "set_thr t pc s = s\<lparr>thr := (thr s)[t := pc]\<rparr>"

definition set_dev :: "dma_accel_dev \<Rightarrow> sys \<Rightarrow> sys" where
  "set_dev d s = s\<lparr>sk := (sk s)\<lparr>kdev := d\<rparr>\<rparr>"

definition set_sess :: "sess_ptr \<Rightarrow> dma_accel_session \<Rightarrow> sys \<Rightarrow> sys" where
  "set_sess p x s = s\<lparr>sk := (sk s)\<lparr>sessions := (sessions (sk s))(p \<mapsto> x)\<rparr>\<rparr>"

lemma set_simps [simp]:
  "sk (set_thr t pc s) = sk s" "fds (set_thr t pc s) = fds s" "isr (set_thr t pc s) = isr s"
  "issued (set_thr t pc s) = issued s" "thr (set_thr t pc s) = (thr s)[t := pc]"
  "kdev (sk (set_dev d s)) = d" "sessions (sk (set_dev d s)) = sessions (sk s)"
  "fds (set_dev d s) = fds s" "thr (set_dev d s) = thr s" "isr (set_dev d s) = isr s"
  "issued (set_dev d s) = issued s"
  "kdev (sk (set_sess p x s)) = kdev (sk s)"
  "sessions (sk (set_sess p x s)) = (sessions (sk s))(p \<mapsto> x)"
  "fds (set_sess p x s) = fds s" "thr (set_sess p x s) = thr s" "isr (set_sess p x s) = isr s"
  "issued (set_sess p x s) = issued s"
  by (simp_all add: set_thr_def set_dev_def set_sess_def)

section \<open>Actions\<close>

text \<open>The section that the thread \<open>t\<close> runs next, one definition for each point it can be at.\<close>

definition act_id :: "nat \<Rightarrow> sys \<Rightarrow> sys option" where
  "act_id t s = (case thr s ! t of
     SAt PValid p req a \<Rightarrow>
       if next_cmd_id (kdev (sk s)) = - 1 then None
       else let (dev, cmd_id) = next_id (kdev (sk s))
            in Some (set_thr t (SAt PReady p (req\<lparr>sub_cmd_id := cmd_id\<rparr>) a) (set_dev dev s))
   | _ \<Rightarrow> None)"

definition act_quota :: "nat \<Rightarrow> sys \<Rightarrow> sys option" where
  "act_quota t s = (case thr s ! t of
     SAt PReady p req a \<Rightarrow>
       Some (set_thr t (SAt (PQuota (admission_quota (active_sessions (kdev (sk s))))) p req a) s)
   | _ \<Rightarrow> None)"

definition act_admit :: "nat \<Rightarrow> sys \<Rightarrow> sys option" where
  "act_admit t s = (case thr s ! t of
     SAt (PQuota quota) p req a \<Rightarrow>
       (case sessions (sk s) p of
          None \<Rightarrow> None
        | Some sess \<Rightarrow>
            (case submit_admit p (sub_cmd_id req) quota (kdev (sk s), sess) of
               None \<Rightarrow> Some (set_thr t (SAt PWait p req a) s)
             | Some dev \<Rightarrow> Some ((set_thr t (SAt PAdmitted p req a) (set_dev dev s))
                                  \<lparr>issued := issued s @ [(sub_cmd_id req, p)]\<rparr>)))
   | _ \<Rightarrow> None)"

definition act_wake :: "nat \<Rightarrow> sys \<Rightarrow> sys option" where
  "act_wake t s = (case thr s ! t of
     SAt PWait p req a \<Rightarrow>
       (case sessions (sk s) p of
          None \<Rightarrow> None
        | Some sess \<Rightarrow> if dma_accel_admission_likely_ok (kdev (sk s), sess)
                       then Some (set_thr t (SAt PReady p req a) s) else None)
   | _ \<Rightarrow> None)"

definition act_signal :: "nat \<Rightarrow> sys \<Rightarrow> sys option" where
  "act_signal t s = (case thr s ! t of SAt PWait p req a \<Rightarrow> Some (set_thr t SIdle s) | _ \<Rightarrow> None)"

definition act_count :: "nat \<Rightarrow> sys \<Rightarrow> sys option" where
  "act_count t s = (case thr s ! t of
     SAt PAdmitted p req a \<Rightarrow>
       (case sessions (sk s) p of
          None \<Rightarrow> None
        | Some sess \<Rightarrow>
            Some (set_thr t (SAt PCounted p req a) (set_sess p (session_inflight_inc sess) s)))
   | _ \<Rightarrow> None)"

definition act_total :: "nat \<Rightarrow> sys \<Rightarrow> sys option" where
  "act_total t s = (case thr s ! t of
     SAt PCounted p req a \<Rightarrow>
       Some (set_thr t (SAt PTotal p req a) (set_dev (total_inflight_inc (kdev (sk s))) s))
   | _ \<Rightarrow> None)"

definition act_write :: "nat \<Rightarrow> sys \<Rightarrow> sys option" where
  "act_write t s = (case thr s ! t of
     SAt PTotal p req (src, dst, src2) \<Rightarrow>
       Some (set_thr t (SAt PWrote p req (src, dst, src2))
               (set_dev (sq_write_slot (kdev (sk s)) (sub_opcode req) src dst (sub_len req)
                           (sub_cmd_id req) src2 (sub_scalar req)) s))
   | _ \<Rightarrow> None)"

definition act_bell :: "nat \<Rightarrow> sys \<Rightarrow> sys option" where
  "act_bell t s = (case thr s ! t of
     SAt PWrote p req a \<Rightarrow> Some (set_thr t SIdle (set_dev (sq_ring_doorbell (kdev (sk s))) s))
   | _ \<Rightarrow> None)"

text \<open>The interrupt handler's next section.\<close>

fun isr_step :: "ipc \<Rightarrow> sys \<Rightarrow> sys option" where
  "isr_step IIdle s = None"
| "isr_step (ILoop tail) s =
     (let d = kdev (sk s) in
      if cq_head d = tail then Some ((set_dev (dma_accel_write_reg d REG_CQ_HEAD (cq_head d)) s)\<lparr>isr := IIdle\<rparr>)
      else let cpl = cq_buf d ! (unat (cq_head d) mod DMA_ACCEL_QUEUE_DEPTH)
           in case isr_route (comp_cmd_id cpl) d of
                (d', None) \<Rightarrow> Some ((set_dev d' s)\<lparr>isr := INext tail\<rparr>)
              | (d', Some p) \<Rightarrow> Some ((set_dev d' s)\<lparr>isr := IDeliver p cpl tail\<rparr>))"
| "isr_step (IDeliver p cpl tail) s =
     (case sessions (sk s) p of
        None \<Rightarrow> None
      | Some owner \<Rightarrow> Some ((set_sess p (isr_deliver cpl owner) s)\<lparr>isr := IDec p tail\<rparr>))"
| "isr_step (IDec p tail) s =
     (case sessions (sk s) p of
        None \<Rightarrow> None
      | Some owner \<Rightarrow> Some ((set_sess p (session_inflight_dec owner) s)\<lparr>isr := ITotal p tail\<rparr>))"
| "isr_step (ITotal p tail) s =
     Some ((set_dev (total_inflight_dec (kdev (sk s))) s)\<lparr>isr := IWake p tail\<rparr>)"
| "isr_step (IWake p tail) s =
     (case sessions (sk s) p of
        None \<Rightarrow> None
      | Some owner \<Rightarrow> Some (s\<lparr>isr := INext tail\<rparr>))"
| "isr_step (INext tail) s = Some (s\<lparr>sk := cq_head_inc (sk s), isr := ILoop tail\<rparr>)"

fun sys_act :: "action \<Rightarrow> sys \<Rightarrow> sys option" where
  "sys_act (AOpen p) s =
     (if sessions (sk s) p = None
      then Some (s\<lparr>sk := fst (dma_accel_chr_open (Some p) (sk s)), fds := insert p (fds s)\<rparr>) else None)"
| "sys_act (AAlloc p req fu mem tu) s =
     (case sessions (sk s) p of
        None \<Rightarrow> None
      | Some sess \<Rightarrow>
          if p \<in> fds s
          then Some (s\<lparr>sk := put_session (sk s) p
                               (fst (dma_accel_ioc_buffer_alloc fu mem tu p req (kdev (sk s), sess)))\<rparr>)
          else None)"
| "sys_act (ARead p tu n) s =
     (case sessions (sk s) p of
        None \<Rightarrow> None
      | Some sess \<Rightarrow> if p \<in> fds s then Some (set_sess p (fst (dma_accel_chr_read tu n 0 sess)) s) else None)"
| "sys_act (ASubmit t p req) s =
     (if t < length (thr s) \<and> thr s ! t = SIdle \<and> p \<in> fds s
      then case submit_validate p req (kdev (sk s)) of
             Inl e \<Rightarrow> None
           | Inr a \<Rightarrow> Some (set_thr t (SAt PValid p req a) s)
      else None)"
| "sys_act (AIrq status tail) s =
     (if isr s = IIdle \<and> status \<noteq> 0 \<and> uapi_active (kdev (sk s))
      then Some ((set_dev (dma_accel_write_reg (kdev (sk s)) REG_IRQ_STATUS status) s)\<lparr>isr := ILoop tail\<rparr>)
      else None)"
| "sys_act AIsr s = isr_step (isr s) s"
| "sys_act (ADma xs) s =
     (if length xs = DMA_ACCEL_QUEUE_DEPTH then Some (set_dev ((kdev (sk s))\<lparr>cq_buf := xs\<rparr>) s) else None)"
| "sys_act (ARelBegin p) s =
     (if p \<in> fds s \<and> (\<forall>pc \<in> set (thr s). \<not> at_session p pc)
      then Some (s\<lparr>sk := release_begin (sk s), fds := fds s - {p}\<rparr>) else None)"
| "sys_act (ARelFinish p) s =
     (case sessions (sk s) p of
        None \<Rightarrow> None
      | Some sess \<Rightarrow> if p \<notin> fds s \<and> inflight sess \<le> 0
                     then Some (s\<lparr>sk := fst (release_finish p sess (sk s)), issued := forget p (issued s)\<rparr>)
                     else None)"
| "sys_act (AId t) s = (if t < length (thr s) then act_id t s else None)"
| "sys_act (AQuota t) s = (if t < length (thr s) then act_quota t s else None)"
| "sys_act (AAdmit t) s = (if t < length (thr s) then act_admit t s else None)"
| "sys_act (AWake t) s = (if t < length (thr s) then act_wake t s else None)"
| "sys_act (ASignal t) s = (if t < length (thr s) then act_signal t s else None)"
| "sys_act (ACount t) s = (if t < length (thr s) then act_count t s else None)"
| "sys_act (ATotal t) s = (if t < length (thr s) then act_total t s else None)"
| "sys_act (AWrite t) s = (if t < length (thr s) then act_write t s else None)"
| "sys_act (ABell t) s = (if t < length (thr s) then act_bell t s else None)"

fun sys_run :: "action list \<Rightarrow> sys \<Rightarrow> sys option" where
  "sys_run [] s = Some s"
| "sys_run (a # as) s = Option.bind (sys_act a s) (sys_run as)"

text \<open>
  The state after a successful \<^verbatim>\<open>probe()\<close>, with room for \<open>n\<close> submitting threads: the rings are
  allocated and the character device is active.
\<close>

definition boot :: "nat \<Rightarrow> sys" where
  "boot n = \<lparr>sk = \<lparr>kdev = init_dev\<lparr>sq_buf := replicate DMA_ACCEL_QUEUE_DEPTH zero_cmd,
                            cq_buf := replicate DMA_ACCEL_QUEUE_DEPTH zero_completion,
                            uapi_active := True\<rparr>,
                     sessions = Map.empty\<rparr>,
              fds = {}, thr = replicate n SIdle, isr = IIdle, issued = []\<rparr>"

section \<open>The step relation\<close>

text \<open>
  The same steps as a relation, one rule for each section on each of its branches. Proofs are by
  rule induction on it; \<open>sys_act\<close> computes it.
\<close>

inductive sys_step :: "sys \<Rightarrow> sys \<Rightarrow> bool" where
  opened: "sessions (sk s) p = None \<Longrightarrow>
     sys_step s (s\<lparr>sk := fst (dma_accel_chr_open (Some p) (sk s)), fds := insert p (fds s)\<rparr>)"
| alloc: "sessions (sk s) p = Some x \<Longrightarrow> p \<in> fds s \<Longrightarrow>
     dma_accel_ioc_buffer_alloc fu mem tu p req (kdev (sk s), x) = (ds, r) \<Longrightarrow>
     sys_step s (s\<lparr>sk := put_session (sk s) p ds\<rparr>)"
| read: "sessions (sk s) p = Some x \<Longrightarrow> p \<in> fds s \<Longrightarrow> dma_accel_chr_read tu n 0 x = (x', r) \<Longrightarrow>
     sys_step s (set_sess p x' s)"
| validated: "t < length (thr s) \<Longrightarrow> thr s ! t = SIdle \<Longrightarrow> p \<in> fds s \<Longrightarrow>
     submit_validate p req (kdev (sk s)) = Inr a \<Longrightarrow> sys_step s (set_thr t (SAt PValid p req a) s)"
| numbered: "t < length (thr s) \<Longrightarrow> thr s ! t = SAt PValid p req a \<Longrightarrow>
     next_cmd_id (kdev (sk s)) \<noteq> - 1 \<Longrightarrow> next_id (kdev (sk s)) = (dev, c) \<Longrightarrow>
     sys_step s (set_thr t (SAt PReady p (req\<lparr>sub_cmd_id := c\<rparr>) a) (set_dev dev s))"
| quota: "t < length (thr s) \<Longrightarrow> thr s ! t = SAt PReady p req a \<Longrightarrow>
     q = admission_quota (active_sessions (kdev (sk s))) \<Longrightarrow>
     sys_step s (set_thr t (SAt (PQuota q) p req a) s)"
| admitted: "t < length (thr s) \<Longrightarrow> thr s ! t = SAt (PQuota q) p req a \<Longrightarrow> sessions (sk s) p = Some x \<Longrightarrow>
     submit_admit p (sub_cmd_id req) q (kdev (sk s), x) = Some dev \<Longrightarrow>
     sys_step s ((set_thr t (SAt PAdmitted p req a) (set_dev dev s))
                   \<lparr>issued := issued s @ [(sub_cmd_id req, p)]\<rparr>)"
| refused: "t < length (thr s) \<Longrightarrow> thr s ! t = SAt (PQuota q) p req a \<Longrightarrow> sessions (sk s) p = Some x \<Longrightarrow>
     submit_admit p (sub_cmd_id req) q (kdev (sk s), x) = None \<Longrightarrow>
     sys_step s (set_thr t (SAt PWait p req a) s)"
| woken: "t < length (thr s) \<Longrightarrow> thr s ! t = SAt PWait p req a \<Longrightarrow> sessions (sk s) p = Some x \<Longrightarrow>
     dma_accel_admission_likely_ok (kdev (sk s), x) \<Longrightarrow> sys_step s (set_thr t (SAt PReady p req a) s)"
| signalled: "t < length (thr s) \<Longrightarrow> thr s ! t = SAt PWait p req a \<Longrightarrow> sys_step s (set_thr t SIdle s)"
| counted: "t < length (thr s) \<Longrightarrow> thr s ! t = SAt PAdmitted p req a \<Longrightarrow> sessions (sk s) p = Some x \<Longrightarrow>
     sys_step s (set_thr t (SAt PCounted p req a) (set_sess p (session_inflight_inc x) s))"
| totalled: "t < length (thr s) \<Longrightarrow> thr s ! t = SAt PCounted p req a \<Longrightarrow>
     sys_step s (set_thr t (SAt PTotal p req a) (set_dev (total_inflight_inc (kdev (sk s))) s))"
| wrote: "t < length (thr s) \<Longrightarrow> thr s ! t = SAt PTotal p req (src, dst, src2) \<Longrightarrow>
     sys_step s (set_thr t (SAt PWrote p req (src, dst, src2))
       (set_dev (sq_write_slot (kdev (sk s)) (sub_opcode req) src dst (sub_len req) (sub_cmd_id req)
                   src2 (sub_scalar req)) s))"
| bell: "t < length (thr s) \<Longrightarrow> thr s ! t = SAt PWrote p req a \<Longrightarrow>
     sys_step s (set_thr t SIdle (set_dev (sq_ring_doorbell (kdev (sk s))) s))"
| irq: "isr s = IIdle \<Longrightarrow> status \<noteq> 0 \<Longrightarrow> uapi_active (kdev (sk s)) \<Longrightarrow>
     sys_step s ((set_dev (dma_accel_write_reg (kdev (sk s)) REG_IRQ_STATUS status) s)\<lparr>isr := ILoop tail\<rparr>)"
| drained: "isr s = ILoop tail \<Longrightarrow> cq_head (kdev (sk s)) = tail \<Longrightarrow>
     sys_step s ((set_dev (dma_accel_write_reg (kdev (sk s)) REG_CQ_HEAD (cq_head (kdev (sk s)))) s)
                   \<lparr>isr := IIdle\<rparr>)"
| routed: "isr s = ILoop tail \<Longrightarrow> cq_head (kdev (sk s)) \<noteq> tail \<Longrightarrow>
     cpl = cq_buf (kdev (sk s)) ! (unat (cq_head (kdev (sk s))) mod DMA_ACCEL_QUEUE_DEPTH) \<Longrightarrow>
     isr_route (comp_cmd_id cpl) (kdev (sk s)) = (d, Some p) \<Longrightarrow>
     sys_step s ((set_dev d s)\<lparr>isr := IDeliver p cpl tail\<rparr>)"
| unknown: "isr s = ILoop tail \<Longrightarrow> cq_head (kdev (sk s)) \<noteq> tail \<Longrightarrow>
     cpl = cq_buf (kdev (sk s)) ! (unat (cq_head (kdev (sk s))) mod DMA_ACCEL_QUEUE_DEPTH) \<Longrightarrow>
     isr_route (comp_cmd_id cpl) (kdev (sk s)) = (d, None) \<Longrightarrow>
     sys_step s ((set_dev d s)\<lparr>isr := INext tail\<rparr>)"
| delivered: "isr s = IDeliver p cpl tail \<Longrightarrow> sessions (sk s) p = Some x \<Longrightarrow>
     sys_step s ((set_sess p (isr_deliver cpl x) s)\<lparr>isr := IDec p tail\<rparr>)"
| decremented: "isr s = IDec p tail \<Longrightarrow> sessions (sk s) p = Some x \<Longrightarrow>
     sys_step s ((set_sess p (session_inflight_dec x) s)\<lparr>isr := ITotal p tail\<rparr>)"
| untotalled: "isr s = ITotal p tail \<Longrightarrow>
     sys_step s ((set_dev (total_inflight_dec (kdev (sk s))) s)\<lparr>isr := IWake p tail\<rparr>)"
| notified: "isr s = IWake p tail \<Longrightarrow> sessions (sk s) p = Some x \<Longrightarrow> sys_step s (s\<lparr>isr := INext tail\<rparr>)"
| advanced: "isr s = INext tail \<Longrightarrow> sys_step s (s\<lparr>sk := cq_head_inc (sk s), isr := ILoop tail\<rparr>)"
| dma: "length xs = DMA_ACCEL_QUEUE_DEPTH \<Longrightarrow> sys_step s (set_dev ((kdev (sk s))\<lparr>cq_buf := xs\<rparr>) s)"
| closing: "p \<in> fds s \<Longrightarrow> \<forall>pc \<in> set (thr s). \<not> at_session p pc \<Longrightarrow>
     sys_step s (s\<lparr>sk := release_begin (sk s), fds := fds s - {p}\<rparr>)"
| freed: "sessions (sk s) p = Some x \<Longrightarrow> p \<notin> fds s \<Longrightarrow> inflight x \<le> 0 \<Longrightarrow>
     sys_step s (s\<lparr>sk := fst (release_finish p x (sk s)), issued := forget p (issued s)\<rparr>)"

lemmas act_defs = act_id_def act_quota_def act_admit_def act_wake_def act_signal_def act_count_def
  act_total_def act_write_def act_bell_def

lemma isr_step_sound: "isr_step (isr s) s = Some s' \<Longrightarrow> sys_step s s'"
  by (cases "isr s") (auto simp: Let_def split: if_splits option.splits prod.splits
      intro: sys_step.intros)

lemma alloc_sound:
  "sessions (sk s) p = Some x \<Longrightarrow> p \<in> fds s \<Longrightarrow>
   sys_step s (s\<lparr>sk := put_session (sk s) p
     (fst (dma_accel_ioc_buffer_alloc fu mem tu p req (kdev (sk s), x)))\<rparr>)"
  by (rule sys_step.alloc [where r = "snd (dma_accel_ioc_buffer_alloc fu mem tu p req (kdev (sk s), x))"])
     (assumption+, simp)

lemma read_sound:
  "sessions (sk s) p = Some x \<Longrightarrow> p \<in> fds s \<Longrightarrow>
   sys_step s (set_sess p (fst (dma_accel_chr_read tu n 0 x)) s)"
  by (rule sys_step.read [where r = "snd (dma_accel_chr_read tu n 0 x)"]) (assumption+, simp)

lemma sys_act_sound: "sys_act a s = Some s' \<Longrightarrow> sys_step s s'"
proof (cases a)
  case AIsr
  assume "sys_act a s = Some s'"
  with AIsr show ?thesis by (simp add: isr_step_sound)
qed (auto simp: act_defs Let_def split: if_splits option.splits spc.splits sphase.splits prod.splits sum.splits
      intro: sys_step.intros alloc_sound read_sound)

inductive reachable :: "nat \<Rightarrow> sys \<Rightarrow> bool" for n where
  reach_boot: "reachable n (boot n)"
| reach_step: "reachable n s \<Longrightarrow> sys_step s s' \<Longrightarrow> reachable n s'"

lemma reachable_run: "reachable n s \<Longrightarrow> sys_run as s = Some s' \<Longrightarrow> reachable n s'"
proof (induction "as" arbitrary: s)
  case (Cons a "as")
  then obtain x where "sys_act a s = Some x" "sys_run as x = Some s'"
    by (auto split: Option.bind_splits)
  with Cons show ?case by (blast intro: reach_step [OF _ sys_act_sound])
qed simp

section \<open>Memory: every session keeps to its own buffers and quota\<close>

definition mem_inv :: "kstate \<Rightarrow> bool" where
  "mem_inv k \<longleftrightarrow> wf_kstate k \<and> own_inv k \<and> quota_inv k"

text \<open>Steps that leave the buffer table and the bitmaps alone.\<close>

lemma mem_inv_frame:
  assumes "mem_inv k" and "buffers (kdev k') = buffers (kdev k)" and "wf_dev (kdev k')"
    and old: "\<And>p x'. sessions k' p = Some x' \<Longrightarrow>
      wf_session x' \<and> (\<exists>x. sessions k p = Some x \<and> owned_buffers x' = owned_buffers x)"
    and dom: "dom (sessions k) \<subseteq> dom (sessions k')"
  shows "mem_inv k'"
proof -
  have own: "own_inv k" and quota: "quota_inv k" using assms(1) by (simp_all add: mem_inv_def)
  have "own_inv k'"
  proof (rule own_invI)
    fix i assume i: "i < MAX_BUFFERS"
    show "be_in_use (buffers (kdev k') ! i) \<longleftrightarrow> be_owner (buffers (kdev k') ! i) \<noteq> None"
      using own_invD(1) [OF own i] assms(2) by simp
    show "p \<in> dom (sessions k')" if "be_owner (buffers (kdev k') ! i) = Some p" for p
      using that own_invD(2) [OF own i, of p] assms(2) dom by auto
    show "owned_buffers x' ! i \<longleftrightarrow> be_owner (buffers (kdev k') ! i) = Some p"
      if "sessions k' p = Some x'" for p x'
      using old [OF that] own_invD(3) [OF own i] assms(2) by auto
  qed
  moreover have "quota_inv k'"
    using old quota by (fastforce simp: quota_inv_def)
  moreover have "wf_kstate k'"
    using assms(3) old by (auto simp: wf_kstate_def)
  ultimately show ?thesis by (simp add: mem_inv_def)
qed

lemma mem_inv_wf: "mem_inv k \<Longrightarrow> wf_dev (kdev k)" "mem_inv k \<Longrightarrow> sessions k p = Some x \<Longrightarrow> wf_session x"
  by (auto simp: mem_inv_def wf_kstate_def)

lemma mem_inv_dev:
  assumes "mem_inv k" and "buffers d = buffers (kdev k)"
    and "length (cmd_table d) = length (cmd_table (kdev k))"
    and "length (sq_buf d) = length (sq_buf (kdev k))" and "length (cq_buf d) = length (cq_buf (kdev k))"
  shows "mem_inv (k\<lparr>kdev := d\<rparr>)"
  using assms mem_inv_wf [OF assms(1)] by (intro mem_inv_frame [OF assms(1)]) (auto simp: wf_dev_def)

lemma mem_inv_sess:
  assumes "mem_inv k" and "sessions k p = Some x"
    and "wf_session x'" and "owned_buffers x' = owned_buffers x"
  shows "mem_inv (k\<lparr>sessions := (sessions k)(p \<mapsto> x')\<rparr>)"
  using assms mem_inv_wf [OF assms(1)]
  by (intro mem_inv_frame [OF assms(1)]) (auto split: if_splits)

lemma mem_inv_open:
  assumes inv: "mem_inv k" and fresh: "sessions k p = None"
  shows "mem_inv (fst (dma_accel_chr_open (Some p) k))"
proof -
  have own: "own_inv k" using inv by (simp add: mem_inv_def)
  have none: "be_owner (buffers (kdev k) ! i) \<noteq> Some p" if "i < MAX_BUFFERS" for i
    using own_invD(2) [OF own that, of p] fresh by auto
  have "own_inv (fst (dma_accel_chr_open (Some p) k))"
    using none own_invD [OF own]
    by (intro own_invI) (auto simp: dma_accel_chr_open_def init_session_def split: if_splits)
  moreover have "wf_kstate (fst (dma_accel_chr_open (Some p) k))"
    using inv wf_init_session
    by (auto simp: mem_inv_def wf_kstate_def wf_dev_def dma_accel_chr_open_def)
  moreover have "quota_inv (fst (dma_accel_chr_open (Some p) k))"
    using inv by (auto simp: mem_inv_def quota_inv_def dma_accel_chr_open_def init_session_def
        bitmap_weight_def count_if_def)
  ultimately show ?thesis by (simp add: mem_inv_def)
qed

lemma mem_inv_alloc:
  assumes inv: "mem_inv k" and p: "sessions k p = Some x"
    and run: "dma_accel_ioc_buffer_alloc fu mem tu p req (kdev k, x) = (ds, r)"
  shows "mem_inv (put_session k p ds)"
proof -
  obtain d x' where ds: "ds = (d, x')" by (cases ds)
  note run = run [unfolded ds]
  note fr = buffer_alloc_frame [OF run]
  have "own_inv (put_session k p (d, x'))"
    using inv p run by (intro buffer_alloc_own_inv) (auto simp: mem_inv_def)
  moreover have "quota_inv (put_session k p (d, x'))"
    using inv p buffer_alloc_quota [OF _ run] by (auto simp: mem_inv_def quota_inv_def)
  moreover have "wf_kstate (put_session k p (d, x'))"
  proof -
    have "wf_dev d" using mem_inv_wf(1) [OF inv] by (simp add: wf_dev_def fr)
    moreover have "wf_session x'" using mem_inv_wf(2) [OF inv p] by (simp add: wf_session_def fr)
    ultimately show ?thesis using mem_inv_wf(2) [OF inv] by (auto simp: wf_kstate_def)
  qed
  ultimately show ?thesis by (simp add: ds mem_inv_def)
qed

lemma mem_inv_release:
  assumes inv: "mem_inv k" and p: "sessions k p = Some x"
  shows "mem_inv (fst (release_finish p x k))"
  using assms release_finish_own_inv [of k p x] release_finish_wf [of k p x]
  by (auto simp: mem_inv_def quota_inv_def split: if_splits)

lemma chr_read_loop_session:
  assumes "wf_session x" and "chr_read_loop tu c n x = (x', outs, f)"
  shows "wf_session x' \<and> (\<exists>h. x' = x\<lparr>comp_head := h\<rparr>) \<and> set (unread x') \<subseteq> set (unread x)"
  using assms
proof (induction n arbitrary: x c outs f)
  have id: "\<exists>h. y = y\<lparr>comp_head := h\<rparr>" for y :: dma_accel_session
    by (rule exI [of _ "comp_head y"]) simp
  case 0
  with id [of x] show ?case by auto
next
  have id: "\<exists>h. y = y\<lparr>comp_head := h\<rparr>" for y :: dma_accel_session
    by (rule exI [of _ "comp_head y"]) simp
  case (Suc n)
  show ?case
  proof (cases "comp_head x = comp_tail x")
    case True
    with Suc.prems id [of x] show ?thesis by auto
  next
    case False
    let ?x = "x\<lparr>comp_head := comp_head x + 1\<rparr>"
    have wf: "wf_session ?x" using Suc.prems(1) counter_gap_pop [OF False] by (simp add: wf_session_def)
    have sub: "set (unread ?x) \<subseteq> set (unread x)"
      using ring_list_pop [OF comp_ring_fits [OF Suc.prems(1)] False] by (auto simp: unread_def)
    show ?thesis
    proof (cases "tu c")
      case True
      with False Suc.prems(2) obtain outs' where
        rec: "chr_read_loop tu (Suc c) n ?x = (x', outs', f)"
        by (auto simp: Let_def split: prod.splits)
      have "wf_session x' \<and> (\<exists>h. x' = ?x\<lparr>comp_head := h\<rparr>) \<and> set (unread x') \<subseteq> set (unread ?x)"
        by (rule Suc.IH [OF wf rec])
      with sub show ?thesis by auto
    next
      assume "\<not> tu c"
      with False Suc.prems(2) have "x' = ?x" by (simp add: Let_def)
      with wf sub show ?thesis by auto
    qed
  qed
qed

lemma chr_read_session:
  assumes "wf_session x" and "dma_accel_chr_read tu n pos x = (x', r)"
  shows "wf_session x'" and "owned_buffers x' = owned_buffers x" and "inflight x' = inflight x"
    and "set (unread x') \<subseteq> set (unread x)"
proof -
  have "wf_session x' \<and> (\<exists>h. x' = x\<lparr>comp_head := h\<rparr>) \<and> set (unread x') \<subseteq> set (unread x)"
    using assms exI [of "\<lambda>h. x = x\<lparr>comp_head := h\<rparr>" "comp_head x"]
    by (auto simp: dma_accel_chr_read_def Let_def split: if_splits prod.splits
        dest: chr_read_loop_session [OF assms(1)])
  then show "wf_session x'" "owned_buffers x' = owned_buffers x" "inflight x' = inflight x"
    "set (unread x') \<subseteq> set (unread x)" by auto
qed

end
