(* ===== verification/Driver_Invariants.thy ===== *)
theory Driver_Invariants
  imports Driver_System
begin

text \<open>
  The invariants of the driver under concurrency, each proved for every step of \<open>sys_step\<close>:
  \<^item> \<open>mem_inv\<close>: structure sizes, buffer ownership in both directions, buffer quota;
  \<^item> \<open>live_inv\<close>: every session pointer the driver holds in the command table, in a submitting
    thread or in the interrupt handler before its decrement points to a live session;
  \<^item> \<open>acct_inv\<close>: the in-flight counters agree with the command table, up to the increments and
    decrements that are under way;
  \<^item> \<open>route_inv\<close>: completions are delivered to the session that issued the command.
\<close>

section \<open>Buffer ownership\<close>

lemma sk_set [simp]:
  "sk (set_dev d s) = (sk s)\<lparr>kdev := d\<rparr>"
  "sk (set_sess p x s) = (sk s)\<lparr>sessions := (sessions (sk s))(p \<mapsto> x)\<rparr>"
  by (simp_all add: set_dev_def set_sess_def)

lemma sys_step_mem_inv: "sys_step s s' \<Longrightarrow> mem_inv (sk s) \<Longrightarrow> mem_inv (sk s')"
proof (induction rule: sys_step.induct)
  case (opened s p)
  then show ?case by (simp add: mem_inv_open)
next
  case (alloc s p x fu mem tu req ds r)
  then show ?case by (simp add: mem_inv_alloc)
next
  case (read s p x tu n x' r)
  then have "wf_session x" by (blast dest: mem_inv_wf(2))
  from chr_read_session [OF this read.hyps(3)] read show ?case by (simp add: mem_inv_sess)
next
  case (numbered t s p req a dev c)
  then show ?case by (auto simp: next_id_def intro!: mem_inv_dev)
next
  case (admitted t s q p req a x dev)
  then show ?case by (auto elim!: submit_admit_Some intro!: mem_inv_dev)
next
  case (counted t s p req a x)
  then show ?case
    by (auto simp: session_inflight_inc_def wf_session_def intro!: mem_inv_sess dest: mem_inv_wf(2))
next
  case (routed s tail cpl d p)
  then show ?case by (auto simp: isr_route_frame intro!: mem_inv_dev)
next
  case (unknown s tail cpl d)
  then show ?case by (auto simp: isr_route_frame intro!: mem_inv_dev)
next
  case (delivered s p cpl tail x)
  then show ?case by (auto intro!: mem_inv_sess isr_deliver_wf dest: mem_inv_wf(2))
next
  case (decremented s p tail x)
  then show ?case by (auto intro!: mem_inv_sess dest: mem_inv_wf(2))
next
  case (advanced s tail)
  then show ?case by (auto simp: cq_head_inc_def intro!: mem_inv_dev)
next
  case (dma xs s)
  then show ?case using mem_inv_wf(1) [of "sk s"] by (auto simp: wf_dev_def intro!: mem_inv_dev)
next
  case (closing p s)
  then show ?case by (auto simp: release_begin_def intro!: mem_inv_dev)
next
  case (freed s p x)
  then show ?case by (simp add: mem_inv_release)
qed (auto simp: total_inflight_inc_def total_inflight_dec_def intro!: mem_inv_dev)

lemma mem_inv_boot: "mem_inv (sk (boot n))"
  by (simp add: mem_inv_def wf_kstate_def wf_dev_def own_inv_def quota_inv_def boot_def init_dev_def
      free_buf_def accel_simps)

lemma reachable_mem_inv: "reachable n s \<Longrightarrow> mem_inv (sk s)"
  by (induction rule: reachable.induct) (auto intro: mem_inv_boot sys_step_mem_inv)

section \<open>Live pointers and accounting\<close>

definition valid_of :: "sess_ptr \<Rightarrow> dma_accel_cmd_ctx \<Rightarrow> bool" where
  "valid_of p c \<longleftrightarrow> cc_valid c \<and> cc_sess c = Some p"

text \<open>Threads that are in the table but not yet in the session's counter, or not in the total.\<close>

fun uncounted :: "sess_ptr \<Rightarrow> spc \<Rightarrow> bool" where
  "uncounted p (SAt PAdmitted q req a) = (q = p)"
| "uncounted p pc = False"

fun untotalled_pc :: "spc \<Rightarrow> bool" where
  "untotalled_pc (SAt PAdmitted q req a) = True"
| "untotalled_pc (SAt PCounted q req a) = True"
| "untotalled_pc pc = False"

text \<open>Decrements the interrupt handler still owes for the entry it has cleared.\<close>

fun isr_owes :: "sess_ptr \<Rightarrow> ipc \<Rightarrow> nat" where
  "isr_owes p (IDeliver q cpl tail) = (if q = p then 1 else 0)"
| "isr_owes p (IDec q tail) = (if q = p then 1 else 0)"
| "isr_owes p i = 0"

fun isr_owes_total :: "ipc \<Rightarrow> nat" where
  "isr_owes_total (IDeliver q cpl tail) = 1"
| "isr_owes_total (IDec q tail) = 1"
| "isr_owes_total (ITotal q tail) = 1"
| "isr_owes_total i = 0"

definition live_inv :: "sys \<Rightarrow> bool" where
  "live_inv s \<longleftrightarrow>
     (\<forall>c \<in> set (cmd_table (kdev (sk s))). cc_valid c \<longrightarrow>
        (\<exists>p. cc_sess c = Some p \<and> p \<in> dom (sessions (sk s))))
     \<and> (\<forall>p. isr_owes p (isr s) \<noteq> 0 \<longrightarrow> p \<in> dom (sessions (sk s)))
     \<and> (\<forall>pc \<in> set (thr s). \<forall>p. at_session p pc \<longrightarrow> p \<in> fds s)
     \<and> fds s \<subseteq> dom (sessions (sk s))"

definition sess_acct :: "sys \<Rightarrow> bool" where
  "sess_acct s \<longleftrightarrow> (\<forall>p x. sessions (sk s) p = Some x \<longrightarrow>
     int (count_if (valid_of p) (cmd_table (kdev (sk s)))) + int (isr_owes p (isr s))
     = inflight x + int (count_if (uncounted p) (thr s)))"

definition total_acct :: "sys \<Rightarrow> bool" where
  "total_acct s \<longleftrightarrow>
     int (count_if cc_valid (cmd_table (kdev (sk s)))) + int (isr_owes_total (isr s))
     = total_inflight (kdev (sk s)) + int (count_if untotalled_pc (thr s))"

text \<open>The table after an admission and after a completion has been routed.\<close>

lemma admit_table:
  assumes "submit_admit p c q (d, x) = Some d'"
  shows "count_if cc_valid (cmd_table d') = Suc (count_if cc_valid (cmd_table d))"
    and "count_if (valid_of r) (cmd_table d')
         = count_if (valid_of r) (cmd_table d) + (if r = p then 1 else 0)"
    and "set (cmd_table d') \<subseteq> insert \<lparr>cc_valid = True, cc_cmd_id = c, cc_sess = Some p\<rparr> (set (cmd_table d))"
    and "total_inflight d' = total_inflight d"
proof -
  from assms obtain slot where slot:
    "first_index (\<lambda>c. \<not> cc_valid c) (cmd_table d) = Some slot"
    "d' = d\<lparr>cmd_table := (cmd_table d)[slot := \<lparr>cc_valid = True, cc_cmd_id = c, cc_sess = Some p\<rparr>]\<rparr>"
    by (rule submit_admit_Some)
  note i = first_index_SomeD [OF slot(1)]
  show "count_if cc_valid (cmd_table d') = Suc (count_if cc_valid (cmd_table d))"
    using i slot(2) by (simp add: count_if_update_add)
  show "count_if (valid_of r) (cmd_table d')
        = count_if (valid_of r) (cmd_table d) + (if r = p then 1 else 0)"
    using i slot(2) count_if_update [OF i(1), of "valid_of r"] by (simp add: valid_of_def)
  show "set (cmd_table d')
        \<subseteq> insert \<lparr>cc_valid = True, cc_cmd_id = c, cc_sess = Some p\<rparr> (set (cmd_table d))"
    using slot(2) set_update_subset_insert [of "cmd_table d" slot] by simp
  show "total_inflight d' = total_inflight d" using slot(2) by simp
qed

lemma route_cases:
  assumes "isr_route c d = (d', r)"
  obtains (none) "d' = d" "r = None"
  | (entry) i where "i < length (cmd_table d)" "cc_valid (cmd_table d ! i)"
      "cc_cmd_id (cmd_table d ! i) = c" "r = cc_sess (cmd_table d ! i)"
      "d' = d\<lparr>cmd_table := (cmd_table d)[i := (cmd_table d ! i)\<lparr>cc_valid := False\<rparr>]\<rparr>"
proof (cases "first_index (\<lambda>e. cc_valid e \<and> cc_cmd_id e = c) (cmd_table d)")
  case None
  with assms show ?thesis by (intro none) (simp_all add: isr_route_def)
next
  case (Some i)
  note i = first_index_SomeD [OF Some]
  from Some assms i show ?thesis by (intro entry [of i]) (simp_all add: isr_route_def)
qed

lemma route_sub:
  assumes "isr_route c d = (d', r)" and "e \<in> set (cmd_table d')" and "cc_valid e"
  shows "e \<in> set (cmd_table d)"
  using assms(1)
proof (cases rule: route_cases)
  case (entry i)
  with assms(2,3) set_update_subset_insert [of "cmd_table d" i "(cmd_table d ! i)\<lparr>cc_valid := False\<rparr>"]
  show ?thesis by auto
qed (use assms in simp)

lemma route_Some:
  assumes "isr_route c d = (d', Some p)"
  shows "Suc (count_if cc_valid (cmd_table d')) = count_if cc_valid (cmd_table d)"
    and "count_if (valid_of q) (cmd_table d') + (if q = p then 1 else 0)
         = count_if (valid_of q) (cmd_table d)"
    and "\<exists>e \<in> set (cmd_table d). valid_of p e \<and> cc_cmd_id e = c"
proof -
  from assms obtain i where i: "i < length (cmd_table d)" "cc_valid (cmd_table d ! i)"
      "cc_cmd_id (cmd_table d ! i) = c" "cc_sess (cmd_table d ! i) = Some p"
      "d' = d\<lparr>cmd_table := (cmd_table d)[i := (cmd_table d ! i)\<lparr>cc_valid := False\<rparr>]\<rparr>"
    by (cases rule: route_cases) auto
  show "Suc (count_if cc_valid (cmd_table d')) = count_if cc_valid (cmd_table d)"
    using i by (simp add: count_if_update_remove)
  show "count_if (valid_of q) (cmd_table d') + (if q = p then 1 else 0)
        = count_if (valid_of q) (cmd_table d)"
    using i count_if_update [OF i(1), of "valid_of q" "(cmd_table d ! i)\<lparr>cc_valid := False\<rparr>"]
    by (auto simp: valid_of_def)
  show "\<exists>e \<in> set (cmd_table d). valid_of p e \<and> cc_cmd_id e = c"
    using i nth_mem [OF i(1)] by (auto simp: valid_of_def)
qed

lemma route_None:
  assumes "isr_route c d = (d', None)"
    and "\<forall>e \<in> set (cmd_table d). cc_valid e \<longrightarrow> (\<exists>p. cc_sess e = Some p \<and> P p)"
  shows "d' = d"
  using assms(1)
proof (cases rule: route_cases)
  case (entry i)
  with assms(2) nth_mem [OF entry(1)] show ?thesis by fastforce
qed

subsection \<open>Pointers\<close>

lemma live_invD:
  assumes "live_inv s"
  shows "c \<in> set (cmd_table (kdev (sk s))) \<Longrightarrow> cc_valid c \<Longrightarrow>
      \<exists>p. cc_sess c = Some p \<and> p \<in> dom (sessions (sk s))"
    and "0 < isr_owes p (isr s) \<Longrightarrow> p \<in> dom (sessions (sk s))"
    and "pc \<in> set (thr s) \<Longrightarrow> at_session p pc \<Longrightarrow> p \<in> fds s"
    and "p \<in> fds s \<Longrightarrow> p \<in> dom (sessions (sk s))"
  using assms unfolding live_inv_def by blast+

lemma uncounted_at_session: "uncounted p pc \<Longrightarrow> at_session p pc"
  by (cases "(p, pc)" rule: uncounted.cases) auto

text \<open>A session that has drained has no table entry and nothing pending in the interrupt handler.\<close>

lemma drained_session:
  assumes "live_inv s" and "sess_acct s" and "sessions (sk s) p = Some x"
    and "p \<notin> fds s" and "inflight x \<le> 0"
  shows "count_if (valid_of p) (cmd_table (kdev (sk s))) = 0" and "isr_owes p (isr s) = 0"
proof -
  have "count_if (uncounted p) (thr s) = 0"
    using live_invD(3) [OF assms(1)] assms(4) uncounted_at_session by (fastforce simp: count_if_zero_iff)
  with assms(2,3,5) have
    "int (count_if (valid_of p) (cmd_table (kdev (sk s)))) + int (isr_owes p (isr s)) \<le> 0"
    by (simp add: sess_acct_def)
  then show "count_if (valid_of p) (cmd_table (kdev (sk s))) = 0" and "isr_owes p (isr s) = 0"
    by linarith+
qed

lemma thr_update_live:
  assumes "\<forall>pc \<in> set xs. \<forall>p. at_session p pc \<longrightarrow> p \<in> F" and "\<forall>p. at_session p pc' \<longrightarrow> p \<in> F"
  shows "\<forall>pc \<in> set (xs[t := pc']). \<forall>p. at_session p pc \<longrightarrow> p \<in> F"
  using assms set_update_subset_insert [of xs t pc'] by blast

text \<open>Steps that move one thread within its session and leave table, sessions and files alone.\<close>

lemma live_inv_thr:
  assumes "live_inv s" and "thr s' = (thr s)[t := pc']" and "\<forall>p. at_session p pc' \<longrightarrow> p \<in> fds s"
    and "cmd_table (kdev (sk s')) = cmd_table (kdev (sk s))"
    and "dom (sessions (sk s')) = dom (sessions (sk s))"
    and "fds s' = fds s" and "isr s' = isr s"
  shows "live_inv s'"
  using assms thr_update_live [of "thr s" "fds s" pc' t] unfolding live_inv_def by auto

lemma live_inv_frame:
  assumes "live_inv s" and "thr s' = thr s"
    and "\<And>c. c \<in> set (cmd_table (kdev (sk s'))) \<Longrightarrow> cc_valid c \<Longrightarrow> c \<in> set (cmd_table (kdev (sk s)))"
    and "dom (sessions (sk s')) = dom (sessions (sk s))"
    and "fds s' \<subseteq> fds s"
    and "\<And>p. isr_owes p (isr s') \<noteq> 0 \<Longrightarrow> p \<in> dom (sessions (sk s))"
    and "\<And>pc p. pc \<in> set (thr s) \<Longrightarrow> at_session p pc \<Longrightarrow> p \<in> fds s'"
  shows "live_inv s'"
  using assms unfolding live_inv_def by (auto dest: subsetD)

lemma at_thr: "t < length (thr s) \<Longrightarrow> thr s ! t = SAt ph p req a \<Longrightarrow> SAt ph p req a \<in> set (thr s)"
  by (metis nth_mem)

lemma at_live:
  assumes "live_inv s" and "t < length (thr s)" and "thr s ! t = SAt ph p req a"
  shows "p \<in> fds s" and "p \<in> dom (sessions (sk s))"
  using live_invD(3,4) [OF assms(1)] at_thr [OF assms(2,3)] by auto

lemma thr_same: "t < length (thr s) \<Longrightarrow> P (thr s ! t) = P pc \<Longrightarrow> count_if P ((thr s)[t := pc]) = count_if P (thr s)"
  by (rule count_if_update_same) simp_all

lemma open_frame [simp]:
  "sessions (fst (dma_accel_chr_open (Some p) k)) = (sessions k)(p \<mapsto> init_session)"
  "cmd_table (kdev (fst (dma_accel_chr_open (Some p) k))) = cmd_table (kdev k)"
  "total_inflight (kdev (fst (dma_accel_chr_open (Some p) k))) = total_inflight (kdev k)"
  "next_cmd_id (kdev (fst (dma_accel_chr_open (Some p) k))) = next_cmd_id (kdev k)"
  "active_sessions (kdev (fst (dma_accel_chr_open (Some p) k))) = active_sessions (kdev k) + 1"
  by (simp_all add: dma_accel_chr_open_def)

lemma step_frames [simp]:
  "cmd_table (kdev (release_begin k)) = cmd_table (kdev k)"
  "total_inflight (kdev (release_begin k)) = total_inflight (kdev k)"
  "next_cmd_id (kdev (release_begin k)) = next_cmd_id (kdev k)"
  "sessions (release_begin k) = sessions k"
  "cmd_table (kdev (cq_head_inc k)) = cmd_table (kdev k)"
  "total_inflight (kdev (cq_head_inc k)) = total_inflight (kdev k)"
  "next_cmd_id (kdev (cq_head_inc k)) = next_cmd_id (kdev k)"
  "active_sessions (kdev (cq_head_inc k)) = active_sessions (kdev k)"
  "sessions (cq_head_inc k) = sessions k"
  "cmd_table (total_inflight_inc d) = cmd_table d"
  "total_inflight (total_inflight_inc d) = total_inflight d + 1"
  "next_cmd_id (total_inflight_inc d) = next_cmd_id d"
  "active_sessions (total_inflight_inc d) = active_sessions d"
  "cmd_table (total_inflight_dec d) = cmd_table d"
  "total_inflight (total_inflight_dec d) = total_inflight d - 1"
  "next_cmd_id (total_inflight_dec d) = next_cmd_id d"
  "active_sessions (total_inflight_dec d) = active_sessions d"
  "inflight (session_inflight_inc x) = inflight x + 1"
  "inflight (session_inflight_dec x) = inflight x - 1"
  "inflight (isr_deliver cpl x) = inflight x"
  "inflight init_session = 0"
  by (simp_all add: release_begin_def cq_head_inc_def total_inflight_inc_def total_inflight_dec_def
      session_inflight_inc_def session_inflight_dec_def isr_deliver_def init_session_def Let_def)

text \<open>A pointer that is not a session yet is nowhere in the driver.\<close>

lemma fresh_pointer:
  assumes "live_inv s" and "sessions (sk s) p = None"
  shows "count_if (valid_of p) (cmd_table (kdev (sk s))) = 0" and "count_if (uncounted p) (thr s) = 0"
    and "isr_owes p (isr s) = 0"
proof -
  show "count_if (valid_of p) (cmd_table (kdev (sk s))) = 0"
    using assms(2) live_invD(1) [OF assms(1)] by (fastforce simp: count_if_zero_iff valid_of_def)
  show "count_if (uncounted p) (thr s) = 0"
    using assms(2) live_invD(3,4) [OF assms(1)] uncounted_at_session by (fastforce simp: count_if_zero_iff)
  show "isr_owes p (isr s) = 0" using assms(2) live_invD(2) [OF assms(1)] by fastforce
qed

lemma sys_step_sess_acct:
  assumes "sys_step s s'" and "mem_inv (sk s)" and "live_inv s" and "sess_acct s"
  shows "sess_acct s'"
  using assms
proof (induction rule: sys_step.induct)
  case (opened s p)
  then show ?case using fresh_pointer [OF opened(3,1)] by (auto simp: sess_acct_def)
next
  case (alloc s p x fu mem tu req ds r)
  then show ?case by (cases ds) (auto simp: sess_acct_def buffer_alloc_frame)
next
  case (read s p x tu n x' r)
  then have "inflight x' = inflight x" using chr_read_session(3) mem_inv_wf(2) by blast
  with read show ?case by (auto simp: sess_acct_def)
next
  case (numbered t s p req a dev c)
  then show ?case by (auto simp: sess_acct_def next_id_def thr_same)
next
  case (admitted t s q p req a x dev)
  note adm = admit_table(2) [OF admitted(4)]
  have "count_if (uncounted r) ((thr s)[t := SAt PAdmitted p req a])
        = count_if (uncounted r) (thr s) + (if r = p then 1 else 0)" for r
    using count_if_update [OF admitted(1), of "uncounted r" "SAt PAdmitted p req a"] admitted(2) by auto
  with admitted adm show ?case by (auto simp: sess_acct_def)
next
  case (counted t s p req a x)
  have "count_if (uncounted r) (thr s)
        = count_if (uncounted r) ((thr s)[t := SAt PCounted p req a]) + (if r = p then 1 else 0)" for r
    using count_if_update [OF counted(1), of "uncounted r" "SAt PCounted p req a"] counted(2) by auto
  with counted show ?case by (auto simp: sess_acct_def)
next
  case (routed s tail cpl d p)
  have "count_if (valid_of q) (cmd_table (kdev (sk s)))
        = count_if (valid_of q) (cmd_table d) + (if q = p then 1 else 0)" for q
    using route_Some(2) [OF routed(4), of q] by simp
  with routed show ?case by (fastforce simp: sess_acct_def)
next
  case (unknown s tail cpl d)
  then have "d = kdev (sk s)"
    using route_None [OF unknown(4), of "\<lambda>_. True"] live_invD(1) [OF unknown(6)] by blast
  with unknown show ?case by (auto simp: sess_acct_def)
next
  case (delivered s p cpl tail x)
  then show ?case by (fastforce simp: sess_acct_def)
next
  case (decremented s p tail x)
  then show ?case by (fastforce simp: sess_acct_def)
qed (auto simp: sess_acct_def thr_same)

lemma sys_step_total_acct:
  assumes "sys_step s s'" and "live_inv s" and "total_acct s"
  shows "total_acct s'"
  using assms
proof (induction rule: sys_step.induct)
  case (alloc s p x fu mem tu req ds r)
  then show ?case by (cases ds) (auto simp: total_acct_def buffer_alloc_frame)
next
  case (numbered t s p req a dev c)
  then show ?case by (auto simp: total_acct_def next_id_def thr_same)
next
  case (admitted t s q p req a x dev)
  note adm = admit_table(1,4) [OF admitted(4)]
  have "count_if untotalled_pc ((thr s)[t := SAt PAdmitted p req a]) = Suc (count_if untotalled_pc (thr s))"
    using admitted(1,2) by (simp add: count_if_update_add)
  with admitted(6) adm show ?case by (simp add: total_acct_def)
next
  case (totalled t s p req a)
  have "Suc (count_if untotalled_pc ((thr s)[t := SAt PTotal p req a])) = count_if untotalled_pc (thr s)"
    using totalled(1,2) by (simp add: count_if_update_remove)
  with totalled(4) show ?case by (simp add: total_acct_def)
next
  case (routed s tail cpl d p)
  with route_Some(1) [OF routed(4)] isr_route_frame [OF routed(4)] show ?case
    by (simp add: total_acct_def)
next
  case (unknown s tail cpl d)
  then have "d = kdev (sk s)"
    using route_None [OF unknown(4), of "\<lambda>_. True"] live_invD(1) [OF unknown(5)] by blast
  with unknown show ?case by (simp add: total_acct_def)
qed (simp_all add: total_acct_def thr_same)

text \<open>Only opening and freeing change which sessions are live; the rest keeps the pointers.\<close>

text \<open>Admission puts a pointer in the table that the submitting thread holds a file for.\<close>

lemma live_inv_admitted:
  assumes "live_inv s" and "t < length (thr s)" and "thr s ! t = SAt ph p req a"
    and "submit_admit p c q (kdev (sk s), x) = Some dev"
  shows "live_inv ((set_thr t (SAt PAdmitted p req a) (set_dev dev s))\<lparr>issued := l\<rparr>)"
proof -
  note p = at_live [OF assms(1-3)]
  have "\<exists>r. cc_sess e = Some r \<and> r \<in> dom (sessions (sk s))"
    if "e \<in> set (cmd_table dev)" "cc_valid e" for e
    using that admit_table(3) [OF assms(4)] live_invD(1) [OF assms(1), of e] p(2) by force
  moreover have "\<forall>pc \<in> set ((thr s)[t := SAt PAdmitted p req a]). \<forall>p. at_session p pc \<longrightarrow> p \<in> fds s"
    using p(1) assms(1) by (intro thr_update_live) (auto simp: live_inv_def)
  ultimately show ?thesis using assms(1) by (simp add: live_inv_def)
qed

text \<open>A session that has drained can be freed: nothing points at it any more.\<close>

lemma live_inv_freed:
  assumes "live_inv s" and "sess_acct s" and "sessions (sk s) p = Some x"
    and "p \<notin> fds s" and "inflight x \<le> 0"
  shows "live_inv (s\<lparr>sk := fst (release_finish p x (sk s)), issued := l\<rparr>)"
proof -
  note dr = drained_session [OF assms]
  have "cc_sess c \<noteq> Some p" if "c \<in> set (cmd_table (kdev (sk s)))" "cc_valid c" for c
    using dr(1) that by (auto simp: count_if_zero_iff valid_of_def)
  moreover have "isr_owes q (isr s) \<noteq> 0 \<longrightarrow> q \<noteq> p" for q using dr(2) by auto
  ultimately show ?thesis using assms(1,4) by (simp add: live_inv_def) blast
qed

text \<open>The pointer the interrupt handler takes out of the table was live there.\<close>

lemma routed_live:
  assumes "live_inv s" and "isr_route c (kdev (sk s)) = (d, Some p)"
  shows "p \<in> dom (sessions (sk s))"
  using route_Some(3) [OF assms(2)] live_invD(1) [OF assms(1)] by (fastforce simp: valid_of_def)

lemma sys_step_live_inv:
  assumes "sys_step s s'" and "live_inv s" and "sess_acct s"
  shows "live_inv s'"
  using assms
proof (induction rule: sys_step.induct)
  case (opened s p)
  then show ?case unfolding live_inv_def by fastforce
next
  case (alloc s p x fu mem tu req ds r)
  then show ?case
    by (cases ds, intro live_inv_frame [OF alloc(4)])
       (auto simp: buffer_alloc_frame dest: live_invD [OF alloc(4)])
next
  case (admitted t s q p req a x dev)
  then show ?case by (blast intro: live_inv_admitted)
next
  case (freed s p x)
  then show ?case by (blast intro: live_inv_freed)
next
  case (routed s tail cpl d p)
  then show ?case using routed_live [OF routed(5)]
    by (intro live_inv_frame [OF routed(5)]) (auto split: if_splits dest: route_sub live_invD [OF routed(5)])
next
  case (unknown s tail cpl d)
  then show ?case
    by (intro live_inv_frame [OF unknown(5)]) (auto dest: route_sub live_invD [OF unknown(5)])
qed ((rule live_inv_frame, assumption, (simp; fail), (auto split: if_splits dest: live_invD)[5])
   | (rule live_inv_thr, assumption, (simp; fail), (auto simp: next_id_def dest: at_live)[5]))+

end
