(* ===== verification/Driver_Routing.thy ===== *)
theory Driver_Routing
  imports Driver_Invariants
begin

text \<open>
  What the invariants give: the bound on commands in flight, the number of active sessions, the
  uniqueness of command identifiers and the routing of completions.
\<close>

section \<open>Reachable states\<close>

definition core_inv :: "nat \<Rightarrow> sys \<Rightarrow> bool" where
  "core_inv n s \<longleftrightarrow> mem_inv (sk s) \<and> live_inv s \<and> sess_acct s \<and> total_acct s \<and> length (thr s) = n"

lemma step_thr_length: "sys_step s s' \<Longrightarrow> length (thr s') = length (thr s)"
  by (induction rule: sys_step.induct) simp_all

lemma boot_simps [simp]:
  "thr (boot n) = replicate n SIdle" "isr (boot n) = IIdle" "fds (boot n) = {}" "issued (boot n) = []"
  "sessions (sk (boot n)) = Map.empty" "total_inflight (kdev (sk (boot n))) = 0"
  "active_sessions (kdev (sk (boot n))) = 0"
  "count_if cc_valid (cmd_table (kdev (sk (boot n)))) = 0"
  by (simp_all add: boot_def init_dev_def free_ctx_def count_if_zero_iff)

lemma core_inv_boot: "core_inv n (boot n)"
  using count_if_zero_iff [of cc_valid "cmd_table (kdev (sk (boot n)))"]
  by (auto simp: core_inv_def mem_inv_boot live_inv_def sess_acct_def total_acct_def count_if_zero_iff)

lemma core_inv_step: "sys_step s s' \<Longrightarrow> core_inv n s \<Longrightarrow> core_inv n s'"
  using sys_step_mem_inv sys_step_live_inv sys_step_sess_acct sys_step_total_acct step_thr_length
  unfolding core_inv_def by metis

lemma reachable_core_inv: "reachable n s \<Longrightarrow> core_inv n s"
  by (induction rule: reachable.induct) (auto intro: core_inv_boot core_inv_step)

lemma core_invD:
  assumes "core_inv n s"
  shows "mem_inv (sk s)" and "live_inv s" and "sess_acct s" and "total_acct s" and "length (thr s) = n"
  using assms by (simp_all add: core_inv_def)

text \<open>Induction over reachable states with the core invariants at hand.\<close>

lemma reachable_core_induct [consumes 1, case_names boot step]:
  assumes "reachable n s" and "P (boot n)"
    and "\<And>s s'. core_inv n s \<Longrightarrow> P s \<Longrightarrow> sys_step s s' \<Longrightarrow> P s'"
  shows "P s"
  using assms(1) by (induction rule: reachable.induct) (auto intro: assms(2,3) reachable_core_inv)

section \<open>Sessions counted\<close>

definition active_inv :: "sys \<Rightarrow> bool" where
  "active_inv s \<longleftrightarrow> finite (fds s) \<and> active_sessions (kdev (sk s)) = int (card (fds s))"

lemma active_inv_step:
  assumes "sys_step s s'" and "live_inv s" and "active_inv s"
  shows "active_inv s'"
  using assms
proof (induction rule: sys_step.induct)
  case (opened s p)
  then have "p \<notin> fds s" using live_invD(4) [OF opened(2), of p] by auto
  with opened show ?case by (simp add: active_inv_def)
next
  case (alloc s p x fu mem tu req ds r)
  then show ?case by (cases ds) (simp add: active_inv_def buffer_alloc_frame)
next
  case (numbered t s p req a dev c)
  then show ?case by (auto simp: active_inv_def next_id_def)
next
  case (admitted t s q p req a x dev)
  then show ?case by (auto simp: active_inv_def elim!: submit_admit_Some)
next
  case (routed s tail cpl d p)
  then show ?case by (simp add: active_inv_def isr_route_frame)
next
  case (unknown s tail cpl d)
  then show ?case by (simp add: active_inv_def isr_route_frame)
next
  case (closing p s)
  then have "0 < card (fds s)" by (auto simp: active_inv_def card_gt_0_iff)
  with closing show ?case by (simp add: active_inv_def release_begin_def of_nat_diff)
qed (simp_all add: active_inv_def)

lemma reachable_active: "reachable n s \<Longrightarrow> active_inv s"
  by (induction rule: reachable_core_induct)
     (auto simp: active_inv_def [of "boot n"] intro: active_inv_step dest: core_invD)

section \<open>The cap on commands in flight\<close>

definition cap_inv :: "nat \<Rightarrow> sys \<Rightarrow> bool" where
  "cap_inv n s \<longleftrightarrow> total_inflight (kdev (sk s)) + int (count_if untotalled_pc (thr s)) < int (16 + n)"

lemma cap_inv_step:
  assumes "sys_step s s'" and "core_inv n s" and "cap_inv n s"
  shows "cap_inv n s'"
proof -
  have n: "length (thr s) = n" using assms(2) by (rule core_invD)
  show ?thesis using assms(1,3) n
  proof (induction rule: sys_step.induct)
    case (alloc s p x fu mem tu req ds r)
    then show ?case by (cases ds) (simp add: cap_inv_def buffer_alloc_frame)
  next
    case (numbered t s p req a dev c)
    then show ?case by (auto simp: cap_inv_def next_id_def thr_same)
  next
    case (admitted t s q p req a x dev)
    let ?thr = "(thr s)[t := SAt PAdmitted p req a]"
    have "count_if untotalled_pc ?thr \<le> n"
      using count_if_le_length [of untotalled_pc ?thr] admitted(6) by simp
    moreover have "total_inflight (kdev (sk s)) < 16" "total_inflight dev = total_inflight (kdev (sk s))"
      using admitted(4) by (auto elim!: submit_admit_Some simp: DMA_ACCEL_QUEUE_DEPTH_def)
    ultimately show ?case by (simp add: cap_inv_def)
  next
    case (totalled t s p req a)
    have "Suc (count_if untotalled_pc ((thr s)[t := SAt PTotal p req a])) = count_if untotalled_pc (thr s)"
      using totalled(1,2) by (simp add: count_if_update_remove)
    with totalled(3) show ?case by (simp add: cap_inv_def)
  next
    case (routed s tail cpl d p)
    then show ?case by (simp add: cap_inv_def isr_route_frame)
  next
    case (unknown s tail cpl d)
    then show ?case by (simp add: cap_inv_def isr_route_frame)
  qed (simp_all add: cap_inv_def thr_same)
qed

lemma reachable_cap: "reachable n s \<Longrightarrow> cap_inv n s"
proof (induction rule: reachable_core_induct)
  case boot
  have "count_if untotalled_pc (replicate n SIdle) = 0" by (simp add: count_if_zero_iff)
  then show ?case by (simp add: cap_inv_def)
qed (rule cap_inv_step)

section \<open>Command identifiers\<close>

text \<open>The identifier of a command that has its number but is not in the table yet.\<close>

fun pending_id :: "spc \<Rightarrow> u64 option" where
  "pending_id (SAt PReady p req a) = Some (sub_cmd_id req)"
| "pending_id (SAt (PQuota q) p req a) = Some (sub_cmd_id req)"
| "pending_id (SAt PWait p req a) = Some (sub_cmd_id req)"
| "pending_id pc = None"

definition id_inv :: "sys \<Rightarrow> bool" where
  "id_inv s \<longleftrightarrow>
     distinct (map fst (issued s))
     \<and> (\<forall>c \<in> fst ` set (issued s). c \<le> next_cmd_id (kdev (sk s)))
     \<and> (\<forall>t < length (thr s). \<forall>c. pending_id (thr s ! t) = Some c \<longrightarrow>
          c \<le> next_cmd_id (kdev (sk s)) \<and> c \<notin> fst ` set (issued s)
          \<and> (\<forall>u < length (thr s). u \<noteq> t \<longrightarrow> pending_id (thr s ! u) \<noteq> Some c))"

lemma id_invD:
  assumes "id_inv s"
  shows "distinct (map fst (issued s))"
    and "(c, p) \<in> set (issued s) \<Longrightarrow> c \<le> next_cmd_id (kdev (sk s))"
    and "t < length (thr s) \<Longrightarrow> pending_id (thr s ! t) = Some c \<Longrightarrow> c \<le> next_cmd_id (kdev (sk s))"
    and "t < length (thr s) \<Longrightarrow> pending_id (thr s ! t) = Some c \<Longrightarrow> (c, p) \<notin> set (issued s)"
    and "t < length (thr s) \<Longrightarrow> pending_id (thr s ! t) = Some c \<Longrightarrow> u < length (thr s) \<Longrightarrow>
         pending_id (thr s ! u) = Some c \<Longrightarrow> u = t"
proof -
  show "distinct (map fst (issued s))" using assms by (simp add: id_inv_def)
  show "(c, p) \<in> set (issued s) \<Longrightarrow> c \<le> next_cmd_id (kdev (sk s))"
    using assms by (force simp: id_inv_def)
  assume t: "t < length (thr s)" "pending_id (thr s ! t) = Some c"
  with assms have "c \<le> next_cmd_id (kdev (sk s)) \<and> c \<notin> fst ` set (issued s)
      \<and> (\<forall>u < length (thr s). u \<noteq> t \<longrightarrow> pending_id (thr s ! u) \<noteq> Some c)"
    unfolding id_inv_def by blast
  then show "c \<le> next_cmd_id (kdev (sk s))" "(c, p) \<notin> set (issued s)"
    "u < length (thr s) \<Longrightarrow> pending_id (thr s ! u) = Some c \<Longrightarrow> u = t"
    by force+
qed

lemma id_invI:
  assumes "distinct (map fst (issued s))"
    and "\<And>c p. (c, p) \<in> set (issued s) \<Longrightarrow> c \<le> next_cmd_id (kdev (sk s))"
    and "\<And>t c. t < length (thr s) \<Longrightarrow> pending_id (thr s ! t) = Some c \<Longrightarrow> c \<le> next_cmd_id (kdev (sk s))"
    and "\<And>t c p. t < length (thr s) \<Longrightarrow> pending_id (thr s ! t) = Some c \<Longrightarrow> (c, p) \<notin> set (issued s)"
    and "\<And>t u c. t < length (thr s) \<Longrightarrow> pending_id (thr s ! t) = Some c \<Longrightarrow> u < length (thr s) \<Longrightarrow>
         pending_id (thr s ! u) = Some c \<Longrightarrow> u = t"
  shows "id_inv s"
  unfolding id_inv_def using assms by auto

text \<open>Threads that keep or drop their number, everything else unchanged.\<close>

lemma id_inv_sub:
  assumes inv: "id_inv s" and len: "length (thr s') = length (thr s)"
    and pend: "\<And>u c. u < length (thr s) \<Longrightarrow> pending_id (thr s' ! u) = Some c \<Longrightarrow> pending_id (thr s ! u) = Some c"
    and iss: "distinct (map fst (issued s'))" "set (issued s') \<subseteq> set (issued s)"
    and nxt: "next_cmd_id (kdev (sk s')) = next_cmd_id (kdev (sk s))"
  shows "id_inv s'"
proof (rule id_invI)
  fix t u c p
  assume t: "t < length (thr s')" "pending_id (thr s' ! t) = Some c"
  then have t': "t < length (thr s)" "pending_id (thr s ! t) = Some c" using len pend by auto
  show "c \<le> next_cmd_id (kdev (sk s'))" using id_invD(3) [OF inv t'] nxt by simp
  show "(c, p) \<notin> set (issued s')" using id_invD(4) [OF inv t'] iss by auto
  show "u = t" if "u < length (thr s')" "pending_id (thr s' ! u) = Some c"
    using id_invD(5) [OF inv t'] that len pend by auto
qed (use iss nxt id_invD(2) [OF inv] in auto)

lemma id_inv_thr:
  assumes inv: "id_inv s" and t: "t < length (thr s)"
    and pc: "pending_id pc = pending_id (thr s ! t) \<or> pending_id pc = None"
    and s': "thr s' = (thr s)[t := pc]" "issued s' = issued s"
      "next_cmd_id (kdev (sk s')) = next_cmd_id (kdev (sk s))"
  shows "id_inv s'"
  using s' pc t id_invD(1) [OF inv]
  by (intro id_inv_sub [OF inv]) (auto simp: nth_list_update split: if_splits)

lemma id_inv_frame:
  assumes inv: "id_inv s" and "thr s' = thr s"
    and "distinct (map fst (issued s'))" and "set (issued s') \<subseteq> set (issued s)"
    and "next_cmd_id (kdev (sk s')) = next_cmd_id (kdev (sk s))"
  shows "id_inv s'"
  using assms(2-) by (intro id_inv_sub [OF inv]) auto

lemma id_inv_same:
  assumes "id_inv s" and "thr s' = thr s" and "issued s' = issued s"
    and "next_cmd_id (kdev (sk s')) = next_cmd_id (kdev (sk s))"
  shows "id_inv s'"
  using assms id_invD(1) [OF assms(1)] by (intro id_inv_frame [OF assms(1)]) auto

lemma forget_sub: "set (forget p xs) \<subseteq> set xs"
  and forget_distinct: "distinct (map fst xs) \<Longrightarrow> distinct (map fst (forget p xs))"
  by (auto simp: forget_def distinct_map_filter)

lemma id_inv_numbered:
  assumes inv: "id_inv s" and t: "t < length (thr s)"
    and wrap: "next_cmd_id (kdev (sk s)) \<noteq> - 1" and nid: "next_id (kdev (sk s)) = (dev, c)"
  shows "id_inv (set_thr t (SAt PReady p (req\<lparr>sub_cmd_id := c\<rparr>) a) (set_dev dev s))"
    (is "id_inv ?s")
proof -
  let ?n = "next_cmd_id (kdev (sk s))"
  have c: "c = ?n + 1" "next_cmd_id dev = ?n + 1" using nid by (auto simp: next_id_def)
  have "1 + ?n \<noteq> 0" using wrap by (metis add_eq_0_iff minus_minus)
  then have lt: "?n < ?n + 1" by (simp add: word_less_nat_alt unatSuc add.commute [of _ 1])
  have pend: "(u = t \<and> d = ?n + 1) \<or> (u \<noteq> t \<and> pending_id (thr s ! u) = Some d)"
    if "u < length (thr s)" "pending_id (thr ?s ! u) = Some d" for u d
    using that c t by (auto simp: nth_list_update split: if_splits)
  have new: "d \<noteq> ?n + 1" "d \<le> ?n + 1" if "d \<le> ?n" for d using that lt by auto
  show ?thesis
  proof (rule id_invI)
    fix u v d
    assume "u < length (thr ?s)" "pending_id (thr ?s ! u) = Some d"
      "v < length (thr ?s)" "pending_id (thr ?s ! v) = Some d"
    with pend [of u d] pend [of v d] id_invD(3) [OF inv, of _ d] id_invD(5) [OF inv, of u d v] new
    show "v = u" by fastforce
  next
    fix u d q
    assume "u < length (thr ?s)" "pending_id (thr ?s ! u) = Some d"
    with pend [of u d] id_invD(2) [OF inv, of d q] id_invD(4) [OF inv, of u d q] new
    show "(d, q) \<notin> set (issued ?s)" by auto
  next
    fix u d
    assume "u < length (thr ?s)" "pending_id (thr ?s ! u) = Some d"
    with pend [of u d] id_invD(3) [OF inv, of u d] new show "d \<le> next_cmd_id (kdev (sk ?s))"
      by (auto simp: c)
  qed (use id_invD(1,2) [OF inv] new in \<open>auto simp: c\<close>)
qed

lemma id_inv_admitted:
  assumes inv: "id_inv s" and t: "t < length (thr s)" and pc: "thr s ! t = SAt (PQuota q) p req a"
    and nxt: "next_cmd_id dev = next_cmd_id (kdev (sk s))"
  shows "id_inv ((set_thr t (SAt PAdmitted p req a) (set_dev dev s))
                   \<lparr>issued := issued s @ [(sub_cmd_id req, p)]\<rparr>)" (is "id_inv ?s")
proof -
  have own: "pending_id (thr s ! t) = Some (sub_cmd_id req)" using pc by simp
  have pend: "u \<noteq> t \<and> pending_id (thr s ! u) = Some d"
    if "u < length (thr s)" "pending_id (thr ?s ! u) = Some d" for u d
    using that t by (auto simp: nth_list_update split: if_splits)
  show ?thesis
  proof (rule id_invI)
    show "distinct (map fst (issued ?s))" using id_invD(1) [OF inv] id_invD(4) [OF inv t own] by force
    show "c \<le> next_cmd_id (kdev (sk ?s))" if "(c, r) \<in> set (issued ?s)" for c r
      using that id_invD(2) [OF inv, of c r] id_invD(3) [OF inv t own] nxt by auto
    fix u v c r
    assume u: "u < length (thr ?s)" "pending_id (thr ?s ! u) = Some c"
    then have u': "u < length (thr s)" "pending_id (thr s ! u) = Some c" "u \<noteq> t" using pend by auto
    show "c \<le> next_cmd_id (kdev (sk ?s))" using id_invD(3) [OF inv u'(1,2)] nxt by simp
    show "(c, r) \<notin> set (issued ?s)"
      using id_invD(4) [OF inv u'(1,2)] id_invD(5) [OF inv t own u'(1)] u'(2,3) by auto
    show "v = u" if "v < length (thr ?s)" "pending_id (thr ?s ! v) = Some c"
      using that id_invD(5) [OF inv u'(1,2), of v] pend [of v c] by simp
  qed
qed

lemma id_inv_step:
  assumes "sys_step s s'" and "id_inv s"
  shows "id_inv s'"
  using assms
proof (induction rule: sys_step.induct)
  case (alloc s p x fu mem tu req ds r)
  then show ?case by (cases ds, intro id_inv_same [OF alloc(4)]) (auto simp: buffer_alloc_frame)
next
  case (numbered t s p req a dev c)
  then show ?case by (intro id_inv_numbered)
next
  case (admitted t s q p req a x dev)
  then show ?case by (intro id_inv_admitted) (auto elim!: submit_admit_Some)
next
  case (routed s tail cpl d p)
  then show ?case by (intro id_inv_same [OF routed(5)]) (auto simp: isr_route_frame)
next
  case (unknown s tail cpl d)
  then show ?case by (intro id_inv_same [OF unknown(5)]) (auto simp: isr_route_frame)
next
  case (freed s p x)
  then show ?case
    by (intro id_inv_frame [OF freed(4)]) (use forget_sub in \<open>auto simp: id_invD(1) forget_distinct\<close>)
next
  case (validated t s p req a)
  then show ?case by (intro id_inv_thr [OF validated(5,1), of "SAt PValid p req a"]) auto
next
  case (quota t s p req a q)
  then show ?case by (intro id_inv_thr [OF quota(4,1), of "SAt (PQuota q) p req a"]) auto
next
  case (refused t s q p req a x)
  then show ?case by (intro id_inv_thr [OF refused(5,1), of "SAt PWait p req a"]) auto
next
  case (woken t s p req a x)
  then show ?case by (intro id_inv_thr [OF woken(5,1), of "SAt PReady p req a"]) auto
next
  case (signalled t s p req a)
  then show ?case by (intro id_inv_thr [OF signalled(3,1), of SIdle]) auto
next
  case (counted t s p req a x)
  then show ?case by (intro id_inv_thr [OF counted(4,1), of "SAt PCounted p req a"]) auto
next
  case (totalled t s p req a)
  then show ?case by (intro id_inv_thr [OF totalled(3,1), of "SAt PTotal p req a"]) auto
next
  case (wrote t s p req src dst src2)
  then show ?case by (intro id_inv_thr [OF wrote(3,1), of "SAt PWrote p req (src, dst, src2)"]) auto
next
  case (bell t s p req a)
  then show ?case by (intro id_inv_thr [OF bell(3,1), of SIdle]) auto
qed (erule id_inv_same; simp)+

lemma id_inv_boot: "id_inv (boot n)"
  by (rule id_invI) auto

lemma reachable_id_inv: "reachable n s \<Longrightarrow> id_inv s"
  by (induction rule: reachable.induct) (auto intro: id_inv_boot id_inv_step)

section \<open>Routing\<close>

definition route_inv :: "sys \<Rightarrow> bool" where
  "route_inv s \<longleftrightarrow>
     (\<forall>p x c. sessions (sk s) p = Some x \<longrightarrow> c \<in> set (unread x) \<longrightarrow> (comp_cmd_id c, p) \<in> set (issued s))
     \<and> (\<forall>e \<in> set (cmd_table (kdev (sk s))). \<forall>p. valid_of p e \<longrightarrow> (cc_cmd_id e, p) \<in> set (issued s))
     \<and> (\<forall>p cpl tail. isr s = IDeliver p cpl tail \<longrightarrow> (comp_cmd_id cpl, p) \<in> set (issued s))"

lemma route_invD:
  assumes "route_inv s"
  shows "sessions (sk s) p = Some x \<Longrightarrow> c \<in> set (unread x) \<Longrightarrow> (comp_cmd_id c, p) \<in> set (issued s)"
    and "e \<in> set (cmd_table (kdev (sk s))) \<Longrightarrow> valid_of p e \<Longrightarrow> (cc_cmd_id e, p) \<in> set (issued s)"
    and "isr s = IDeliver p cpl tail \<Longrightarrow> (comp_cmd_id cpl, p) \<in> set (issued s)"
  using assms unfolding route_inv_def by blast+

lemma route_invI:
  assumes "\<And>p x c. sessions (sk s) p = Some x \<Longrightarrow> c \<in> set (unread x) \<Longrightarrow> (comp_cmd_id c, p) \<in> set (issued s)"
    and "\<And>e p. e \<in> set (cmd_table (kdev (sk s))) \<Longrightarrow> valid_of p e \<Longrightarrow> (cc_cmd_id e, p) \<in> set (issued s)"
    and "\<And>p cpl tail. isr s = IDeliver p cpl tail \<Longrightarrow> (comp_cmd_id cpl, p) \<in> set (issued s)"
  shows "route_inv s"
  unfolding route_inv_def using assms by blast

text \<open>Steps that do not add completions, valid entries or a delivery.\<close>

lemma route_inv_frame:
  assumes inv: "route_inv s"
    and "\<And>p x. sessions (sk s') p = Some x \<Longrightarrow>
           unread x = [] \<or> (\<exists>y. sessions (sk s) p = Some y \<and> set (unread x) \<subseteq> set (unread y))"
    and "\<And>e p. e \<in> set (cmd_table (kdev (sk s'))) \<Longrightarrow> valid_of p e \<Longrightarrow> e \<in> set (cmd_table (kdev (sk s)))"
    and "\<And>p cpl tail. isr s' = IDeliver p cpl tail \<Longrightarrow> isr s = IDeliver p cpl tail"
    and "issued s' = issued s"
  shows "route_inv s'"
proof (rule route_invI)
  fix p x c
  assume "sessions (sk s') p = Some x" "c \<in> set (unread x)"
  with assms(2) [of p x] obtain y where "sessions (sk s) p = Some y" "c \<in> set (unread y)" by force
  then show "(comp_cmd_id c, p) \<in> set (issued s')" using route_invD(1) [OF inv] assms(5) by simp
qed (use assms(3,4,5) route_invD(2,3) [OF inv] in auto)

lemma unread_cong: "comp_ring x = comp_ring y \<Longrightarrow> comp_head x = comp_head y \<Longrightarrow> comp_tail x = comp_tail y \<Longrightarrow>
   unread x = unread y"
  by (simp add: unread_def)

lemma unread_inflight [simp]:
  "unread (session_inflight_inc x) = unread x" "unread (session_inflight_dec x) = unread x"
  by (simp_all add: unread_def session_inflight_inc_def session_inflight_dec_def)

lemma deliver_unread_sub: "wf_session x \<Longrightarrow> set (unread (isr_deliver cpl x)) \<subseteq> insert cpl (set (unread x))"
  using set_drop_subset [of 1 "unread x"] by (auto simp: isr_deliver_unread drop_Suc split: if_splits)

lemma route_inv_delivered:
  assumes inv: "route_inv s" and isr: "isr s = IDeliver p cpl tail"
    and x: "sessions (sk s) p = Some x" and wf: "wf_session x"
  shows "route_inv ((set_sess p (isr_deliver cpl x) s)\<lparr>isr := IDec p tail\<rparr>)"
proof (rule route_invI)
  fix q y c
  assume y: "sessions (sk ((set_sess p (isr_deliver cpl x) s)\<lparr>isr := IDec p tail\<rparr>)) q = Some y" "c \<in> set (unread y)"
  show "(comp_cmd_id c, q) \<in> set (issued ((set_sess p (isr_deliver cpl x) s)\<lparr>isr := IDec p tail\<rparr>))"
  proof (cases "q = p")
    case True
    with y deliver_unread_sub [OF wf, of cpl] have "c = cpl \<or> c \<in> set (unread x)" by auto
    with True route_invD(1) [OF inv x] route_invD(3) [OF inv isr] show ?thesis by auto
  next
    case False
    with y route_invD(1) [OF inv, of q y] show ?thesis by simp
  qed
qed (use route_invD(2) [OF inv] in auto)

lemma route_inv_routed:
  assumes inv: "route_inv s" and rt: "isr_route (comp_cmd_id cpl) (kdev (sk s)) = (d, Some p)"
  shows "route_inv ((set_dev d s)\<lparr>isr := IDeliver p cpl tail\<rparr>)"
proof -
  from route_Some(3) [OF rt] obtain e where
    "e \<in> set (cmd_table (kdev (sk s)))" "valid_of p e" "cc_cmd_id e = comp_cmd_id cpl" by blast
  with route_invD(2) [OF inv] have "(comp_cmd_id cpl, p) \<in> set (issued s)" by metis
  with route_invD(1,2) [OF inv] route_sub [OF rt] show ?thesis
    by (intro route_invI) (auto simp: valid_of_def)
qed

lemma route_inv_freed:
  assumes inv: "route_inv s" and dr: "count_if (valid_of p) (cmd_table (kdev (sk s))) = 0"
    "isr_owes p (isr s) = 0"
  shows "route_inv (s\<lparr>sk := fst (release_finish p x (sk s)), issued := forget p (issued s)\<rparr>)"
proof (rule route_invI, goal_cases)
  case (1 q y c)
  with route_invD(1) [OF inv, of q y c] show ?case by (auto simp: forget_def split: if_splits)
next
  case (2 e q)
  then have "q \<noteq> p" using dr(1) by (auto simp: count_if_zero_iff)
  with 2 route_invD(2) [OF inv, of e q] show ?case by (auto simp: forget_def)
next
  case (3 q cpl tail)
  then have "q \<noteq> p" using dr(2) by auto
  with 3 route_invD(3) [OF inv, of q cpl tail] show ?case by (auto simp: forget_def)
qed

lemma route_inv_admitted:
  assumes inv: "route_inv s" and ad: "submit_admit p c q (kdev (sk s), x) = Some dev"
  shows "route_inv ((set_thr t pc (set_dev dev s))\<lparr>issued := issued s @ [(c, p)]\<rparr>)"
proof (rule route_invI, goal_cases)
  case (2 e r)
  then consider "e \<in> set (cmd_table (kdev (sk s)))" | "e = \<lparr>cc_valid = True, cc_cmd_id = c, cc_sess = Some p\<rparr>"
    using admit_table(3) [OF ad] by auto
  then show ?case using 2 route_invD(2) [OF inv, of e r] by cases (auto simp: valid_of_def)
qed (use route_invD(1,3) [OF inv] in auto)

lemma route_inv_step:
  assumes "sys_step s s'" and "core_inv n s" and "route_inv s"
  shows "route_inv s'"
proof -
  from assms(2) have "mem_inv (sk s)" "live_inv s" "sess_acct s" by (auto dest: core_invD)
  with assms(1,3) show ?thesis
  proof (induction rule: sys_step.induct)
    case (alloc s p x fu mem tu req ds r)
    obtain d y where ds: "ds = (d, y)" by (cases ds)
    have "unread y = unread x" using alloc(3) by (intro unread_cong) (auto simp: ds buffer_alloc_frame)
    with alloc show ?case
      by (intro route_inv_frame [OF alloc(4)]) (auto simp: ds buffer_alloc_frame split: if_splits)
  next
    case (read s p x tu n x' r)
    then have "set (unread x') \<subseteq> set (unread x)" using chr_read_session(4) mem_inv_wf(2) by blast
    with read show ?case by (intro route_inv_frame [OF read(4)]) (auto split: if_splits)
  next
    case (numbered t s p req a dev c)
    then show ?case by (intro route_inv_frame [OF numbered(5)]) (auto simp: next_id_def)
  next
    case (admitted t s q p req a x dev)
    then show ?case by (intro route_inv_admitted)
  next
    case (routed s tail cpl d p)
    then show ?case by (intro route_inv_routed)
  next
    case (unknown s tail cpl d)
    then show ?case
      by (intro route_inv_frame [OF unknown(5)]) (auto simp: valid_of_def dest: route_sub)
  next
    case (delivered s p cpl tail x)
    then show ?case by (intro route_inv_delivered) (auto dest: mem_inv_wf(2))
  next
    case (freed s p x)
    then show ?case using drained_session [OF freed(6,7,1,2,3)] by (intro route_inv_freed)
  qed (erule route_inv_frame; auto split: if_splits)+
qed

lemma route_inv_boot: "route_inv (boot n)"
  using count_if_zero_iff [of cc_valid "cmd_table (kdev (sk (boot n)))"]
  by (intro route_invI) (auto simp: valid_of_def)

lemma reachable_route_inv: "reachable n s \<Longrightarrow> route_inv s"
  by (induction rule: reachable_core_induct) (auto intro: route_inv_boot route_inv_step)

end
