(* ===== verification/Driver_Operands.thy ===== *)
theory Driver_Operands
  imports Driver_Routing
begin

text \<open>
  The bus addresses a thread carries through \<^verbatim>\<open>dma_accel_ioc_submit\<close> are computed under
  \<^verbatim>\<open>buf_mutex\<close> and used after it has been dropped, possibly after a long sleep on \<^verbatim>\<open>quota_wq\<close>. They
  stay inside buffers of the submitting session: an allocation only takes free slots, and only
  the release of the same session frees them.
\<close>

fun addrs_ok :: "dma_accel_dev \<Rightarrow> sess_ptr \<Rightarrow> dma_accel_submit \<Rightarrow> dma_operands \<Rightarrow> bool" where
  "addrs_ok dev p req (src, dst, src2) \<longleftrightarrow>
     operand_ok dev p (sub_src_buffer_id req) (sub_src_offset req) (sub_len req) src
     \<and> operand_ok dev p (sub_dst_buffer_id req) (sub_dst_offset req) (sub_len req) dst
     \<and> (if dma_accel_opcode_needs_src2 (sub_opcode req)
        then operand_ok dev p (sub_src2_buffer_id req) (sub_src2_offset req) (sub_len req) src2
        else src2 = 0)"

fun pc_ok :: "dma_accel_dev \<Rightarrow> spc \<Rightarrow> bool" where
  "pc_ok dev SIdle = True"
| "pc_ok dev (SAt ph p req a) = addrs_ok dev p req a"

definition operands_inv :: "sys \<Rightarrow> bool" where
  "operands_inv s \<longleftrightarrow> (\<forall>pc \<in> set (thr s). pc_ok (kdev (sk s)) pc)"

text \<open>\<open>d'\<close> keeps every slot that session \<open>p\<close> uses in \<open>d\<close>.\<close>

definition keeps_slots :: "dma_accel_dev \<Rightarrow> dma_accel_dev \<Rightarrow> sess_ptr \<Rightarrow> bool" where
  "keeps_slots d d' p \<longleftrightarrow> (\<forall>i < MAX_BUFFERS.
     be_in_use (buffers d ! i) \<and> be_owner (buffers d ! i) = Some p \<longrightarrow> buffers d' ! i = buffers d ! i)"

lemma operand_ok_keeps: "keeps_slots d d' p \<Longrightarrow> operand_ok d p b off len a \<Longrightarrow> operand_ok d' p b off len a"
  by (auto simp: operand_ok_def keeps_slots_def Let_def)

lemma addrs_ok_keeps: "keeps_slots d d' p \<Longrightarrow> addrs_ok d p req a \<Longrightarrow> addrs_ok d' p req a"
  by (cases a) (auto dest: operand_ok_keeps split: if_splits)

lemma addrs_ok_validated: "submit_validate p req d = Inr a \<Longrightarrow> addrs_ok d p req a"
  by (cases a) (auto dest: submit_validate_ok)

lemma operands_inv_keeps:
  assumes "operands_inv s" and "thr s' = thr s"
    and "\<And>pc p. pc \<in> set (thr s) \<Longrightarrow> at_session p pc \<Longrightarrow> keeps_slots (kdev (sk s)) (kdev (sk s')) p"
  shows "operands_inv s'"
  unfolding operands_inv_def assms(2)
proof
  fix pc assume pc: "pc \<in> set (thr s)"
  with assms(1) have "pc_ok (kdev (sk s)) pc" by (simp add: operands_inv_def)
  with assms(3) [OF pc] show "pc_ok (kdev (sk s')) pc"
    by (cases pc) (auto intro: addrs_ok_keeps)
qed

lemma operands_inv_same:
  assumes "operands_inv s" and "thr s' = thr s" and "buffers (kdev (sk s')) = buffers (kdev (sk s))"
  shows "operands_inv s'"
  using assms(3) by (intro operands_inv_keeps [OF assms(1,2)]) (simp add: keeps_slots_def)

text \<open>A thread moves on with the request and addresses it has.\<close>

lemma operands_inv_thr:
  assumes "operands_inv s" and "thr s' = (thr s)[t := pc]"
    and "buffers (kdev (sk s')) = buffers (kdev (sk s))" and "pc_ok (kdev (sk s)) pc"
  shows "operands_inv s'"
proof -
  have same: "pc_ok (kdev (sk s)) q \<longleftrightarrow> pc_ok (kdev (sk s')) q" for q
    using assms(3) by (cases "(kdev (sk s), q)" rule: pc_ok.cases) (auto simp: operand_ok_def split: prod.splits)
  have "set (thr s') \<subseteq> insert pc (set (thr s))"
    using assms(2) by (simp add: set_update_subset_insert)
  with assms(1,4) show ?thesis unfolding operands_inv_def by (auto simp: same)
qed

lemma addrs_ok_cmd_id [simp]: "addrs_ok d p (req\<lparr>sub_cmd_id := c\<rparr>) a = addrs_ok d p req a"
  by (cases a) simp

lemma alloc_keeps_slots:
  assumes wf: "wf_dev d" and run: "dma_accel_ioc_buffer_alloc fu mem tu p req (d, x) = ((d', x'), r)"
  shows "keeps_slots d d' q"
proof -
  have "d' = d \<or> (\<exists>slot e. first_index (\<lambda>b. \<not> be_in_use b) (buffers d) = Some slot
      \<and> d' = d\<lparr>buffers := (buffers d)[slot := e]\<rparr>)"
    using run buffer_alloc_Inl [of fu mem tu p req d x d' x'] by (cases r) (auto elim: buffer_alloc_Inr)
  then show ?thesis using free_slot_range [OF wf]
    by (auto simp: keeps_slots_def intro!: nth_list_update_neq)
qed

lemma release_keeps_slots:
  assumes "mem_inv k" and "sessions k p = Some x" and "q \<noteq> p"
  shows "keeps_slots (kdev k) (kdev (fst (release_finish p x k))) q"
proof -
  have own: "own_inv k" and wf: "wf_dev (kdev k)" using assms(1) by (auto simp: mem_inv_def wf_kstate_def)
  show ?thesis
    unfolding keeps_slots_def
    using release_finish_buffers [OF wf] own_invD(3) [OF own _ assms(2)] assms(3) by auto
qed

lemma pc_ok_nth: "operands_inv s \<Longrightarrow> t < length (thr s) \<Longrightarrow> thr s ! t = SAt ph p req a \<Longrightarrow>
   addrs_ok (kdev (sk s)) p req a"
  using nth_mem [of t "thr s"] by (fastforce simp: operands_inv_def)

lemma operands_inv_step:
  assumes "sys_step s s'" and "core_inv n s" and "operands_inv s"
  shows "operands_inv s'"
proof -
  from assms(2) have "mem_inv (sk s)" "live_inv s" by (auto dest: core_invD)
  with assms(1,3) show ?thesis
  proof (induction rule: sys_step.induct)
    case (opened s p)
    then show ?case by (intro operands_inv_same [OF opened(2)]) (simp_all add: dma_accel_chr_open_def)
  next
    case (alloc s p x fu mem tu req ds r)
    then show ?case
      by (cases ds, intro operands_inv_keeps [OF alloc(4)]) (auto intro: alloc_keeps_slots mem_inv_wf)
  next
    case (validated t s p req a)
    then show ?case
      by (intro operands_inv_thr [OF validated(5), where t = t]) (auto simp: addrs_ok_validated)
  next
    case (numbered t s p req a dev c)
    then show ?case
      by (intro operands_inv_thr [OF numbered(5), where t = t])
         (auto simp: next_id_def dest: pc_ok_nth [OF numbered(5)])
  next
    case (admitted t s q p req a x dev)
    with pc_ok_nth [OF admitted(5,1,2)] show ?case
      by (intro operands_inv_thr [OF admitted(5), where t = t]) (auto elim!: submit_admit_Some)
  next
    case (freed s p x)
    then have "q \<noteq> p" if "pc \<in> set (thr s)" "at_session q pc" for q pc
      using live_invD(3) [OF freed(6) that] by auto
    with freed show ?case by (intro operands_inv_keeps [OF freed(4)]) (auto intro: release_keeps_slots)
  next
    case (routed s tail cpl d p)
    then show ?case by (intro operands_inv_same [OF routed(5)]) (simp_all add: isr_route_frame)
  next
    case (unknown s tail cpl d)
    then show ?case by (intro operands_inv_same [OF unknown(5)]) (simp_all add: isr_route_frame)
  qed ((rule operands_inv_same, assumption,
          (simp; fail), (simp add: total_inflight_dec_def cq_head_inc_def release_begin_def))
     | (rule operands_inv_thr, assumption,
          (simp; fail), (simp add: total_inflight_inc_def), (auto dest: pc_ok_nth)[1]))+
qed

lemma reachable_operands: "reachable n s \<Longrightarrow> operands_inv s"
  by (induction rule: reachable_core_induct)
     (auto simp: operands_inv_def [of "boot n"] intro: operands_inv_step)

end
