(* ===== verification/Driver_Correct.thy ===== *)
theory Driver_Correct
  imports Driver_Operands
begin

unbundle bit_operations_syntax

text \<open>
  The properties of the kernel driver. The first group is about every reachable state of the
  interleaved system; the second about each handler on its own; the last about behaviours that the
  comments of the source exclude and the code allows, each shown by a run of the system.
\<close>

section \<open>Runs used as witnesses\<close>

definition alloc_req :: dma_accel_buffer_alloc where
  "alloc_req = \<lparr>ba_size = 4096, ba_buffer_id = 0, ba_mmap_offset = 0\<rparr>"

definition copy_req :: dma_accel_submit where
  "copy_req = \<lparr>sub_opcode = OPCODE_COPY, sub_len = 64, sub_src_buffer_id = 0, sub_src_offset = 0,
     sub_dst_buffer_id = 0, sub_dst_offset = 64, sub_cmd_id = 0, sub_src2_buffer_id = 0,
     sub_src2_offset = 0, sub_scalar = 0\<rparr>"

text \<open>Session 1 with one buffer; a whole submission by thread \<open>t\<close>; one completion for the first command.\<close>

definition run_setup :: "action list" where
  "run_setup = [AOpen 1, AAlloc 1 alloc_req True (Some (0x1000, 0x2000)) True]"

definition run_submit :: "nat \<Rightarrow> action list" where
  "run_submit t = [ASubmit t 1 copy_req, AId t, AQuota t, AAdmit t, ACount t, ATotal t, AWrite t, ABell t]"

definition run_irq :: "action list" where
  "run_irq = [ADma (replicate DMA_ACCEL_QUEUE_DEPTH \<lparr>comp_cmd_id = 2, comp_status = 0, comp_reserved = 0\<rparr>),
     AIrq 1 1, AIsr, AIsr]"

definition after :: "nat \<Rightarrow> action list \<Rightarrow> sys" where
  "after n as = (case sys_run as (boot n) of Some s \<Rightarrow> s | None \<Rightarrow> boot n)"

lemma reachable_after: "reachable n (after n as)"
  by (auto simp: after_def intro: reach_boot reachable_run split: option.split)

lemma is_some_the: "\<not> Option.is_none x \<Longrightarrow> x = Some (the x)"
  by (cases x) simp_all

section \<open>Reachable states\<close>





text \<open>
  C5: ownership of the buffer table. In every reachable state a slot is in use exactly when it has
  an owner, the owner is a live session, the bitmap of each session marks exactly the slots it
  owns, and no session holds more than its quota.
\<close>

theorem buffer_ownership:
  assumes "reachable n s" and "i < MAX_BUFFERS" and "sessions (sk s) p = Some x"
  shows "(be_in_use (buffers (kdev (sk s)) ! i) \<longleftrightarrow> be_owner (buffers (kdev (sk s)) ! i) \<noteq> None)
     \<and> set_option (be_owner (buffers (kdev (sk s)) ! i)) \<subseteq> dom (sessions (sk s))
     \<and> (owned_buffers x ! i \<longleftrightarrow> be_owner (buffers (kdev (sk s)) ! i) = Some p)
     \<and> bitmap_weight (owned_buffers x) \<le> DEFAULT_BUFFER_QUOTA"
proof -
  have inv: "own_inv (sk s)" "quota_inv (sk s)"
    using reachable_mem_inv [OF assms(1)] by (simp_all add: mem_inv_def)
  have "set_option (be_owner (buffers (kdev (sk s)) ! i)) \<subseteq> dom (sessions (sk s))"
    using own_invD(2) [OF inv(1) assms(2)] by (auto simp: elem_set)
  with own_invD(1,3) [OF inv(1) assms(2)] inv(2) assms(3) show ?thesis by (auto simp: quota_inv_def)
qed

theorem buffer_ownership_witness:
  "let s = after 1 run_setup in
   owned_buffers (the (sessions (sk s) 1)) ! 0 \<and> be_owner (buffers (kdev (sk s)) ! 0) = Some 1"
proof -
  have "sessions (sk (after 1 run_setup)) 1 = Some (the (sessions (sk (after 1 run_setup)) 1))"
    by (rule is_some_the) code_simp
  moreover have "owned_buffers (the (sessions (sk (after 1 run_setup)) 1)) ! 0" by code_simp
  ultimately show ?thesis
    using buffer_ownership [OF reachable_after, of 0 1 run_setup] by (simp add: Let_def accel_simps)
qed

text \<open>
  C6: the interrupt handler never touches a freed session up to its last decrement. In every
  reachable state in which the handler is running, its next section can be executed; the only
  exception is the final wake-up of \<^verbatim>\<open>owner->comp_wq\<close>.
\<close>

theorem isr_sessions_live:
  assumes "reachable n s" and "isr s \<noteq> IIdle"
    and "\<And>p tail. isr s = IWake p tail \<Longrightarrow> p \<in> dom (sessions (sk s))"
  shows "\<exists>s'. sys_act AIsr s = Some s'"
proof (cases "isr s")
  have live: "live_inv s" using core_invD(2) [OF reachable_core_inv [OF assms(1)]] .
  {
    case (IDeliver p cpl tail)
    with live_invD(2) [OF live, of p] show ?thesis by auto
  next
    case (IDec p tail)
    with live_invD(2) [OF live, of p] show ?thesis by auto
  next
    case (IWake p tail)
    with assms(3) show ?thesis by auto
  next
    case (ILoop tail)
    then show ?thesis by (auto simp: Let_def split: prod.split option.split)
  }
qed (use assms(2) in auto)

theorem isr_sessions_live_witness:
  "\<exists>s'. sys_act AIsr (after 1 (run_setup @ run_submit 0 @ take 3 run_irq)) = Some s'"
proof -
  let ?s = "after 1 (run_setup @ run_submit 0 @ take 3 run_irq)"
  have "isr ?s = IDeliver 1 \<lparr>comp_cmd_id = 2, comp_status = 0, comp_reserved = 0\<rparr> 1" by code_simp
  with isr_sessions_live [OF reachable_after, of 1 "run_setup @ run_submit 0 @ take 3 run_irq"]
  show ?thesis by simp
qed

text \<open>
  C7: the in-flight counters account for the command table. In every reachable state the session's
  counter is the number of its table entries, plus the completion the interrupt handler has taken
  out but not yet subtracted, minus the commands entered but not yet added; and likewise for the
  device-wide counter.
\<close>

theorem inflight_accounting:
  assumes "reachable n s" and "sessions (sk s) p = Some x"
  shows "inflight x = int (count_if (valid_of p) (cmd_table (kdev (sk s)))) + int (isr_owes p (isr s))
           - int (count_if (uncounted p) (thr s))
     \<and> total_inflight (kdev (sk s))
         = int (count_if cc_valid (cmd_table (kdev (sk s)))) + int (isr_owes_total (isr s))
           - int (count_if untotalled_pc (thr s))"
  using core_invD(3,4) [OF reachable_core_inv [OF assms(1)]] assms(2)
  by (fastforce simp: sess_acct_def total_acct_def)

theorem inflight_accounting_witness:
  "let s = after 1 (run_setup @ run_submit 0) in
   inflight (the (sessions (sk s) 1)) = int (count_if (valid_of 1) (cmd_table (kdev (sk s))))"
proof -
  let ?s = "after 1 (run_setup @ run_submit 0)"
  have "sessions (sk ?s) 1 = Some (the (sessions (sk ?s) 1))" by (rule is_some_the) code_simp
  moreover have "isr ?s = IIdle" "thr ?s = [SIdle]" by code_simp+
  ultimately show ?thesis
    using inflight_accounting [OF reachable_after, of 1 "run_setup @ run_submit 0" 1] by (simp add: Let_def)
qed

text \<open>
  C8: the ring cap. With \<open>n\<close> threads submitting, \<^verbatim>\<open>total_inflight\<close> never exceeds
  \<^verbatim>\<open>DMA_ACCEL_QUEUE_DEPTH - 1 + n\<close>; a single submitter respects the depth of the ring.
\<close>

theorem inflight_cap:
  assumes "reachable n s"
  shows "total_inflight (kdev (sk s)) \<le> int DMA_ACCEL_QUEUE_DEPTH - 1 + int n
     \<and> (n = 1 \<longrightarrow> total_inflight (kdev (sk s)) \<le> int DMA_ACCEL_QUEUE_DEPTH)"
  using reachable_cap [OF assms] by (auto simp: cap_inv_def accel_simps)

theorem inflight_cap_witness:
  "total_inflight (kdev (sk (after 1 (run_setup @ concat (replicate 16 (run_submit 0)))))) = 16
   \<and> total_inflight (kdev (sk (after 1 (run_setup @ concat (replicate 16 (run_submit 0)))))) \<le> 16"
proof
  show "total_inflight (kdev (sk (after 1 (run_setup @ concat (replicate 16 (run_submit 0)))))) = 16"
    by code_simp
  show "total_inflight (kdev (sk (after 1 (run_setup @ concat (replicate 16 (run_submit 0)))))) \<le> 16"
    using inflight_cap [OF reachable_after, of 1 "run_setup @ concat (replicate 16 (run_submit 0))"]
    by (simp add: accel_simps)
qed

text \<open>
  C10: the command table never runs out for an admissible command. With up to 48 threads submitting,
  in every reachable state where the ring cap and the session's quota allow the command, the
  locked section finds a free entry and admits it.
\<close>

theorem admission_finds_entry:
  assumes "reachable n s" and "n \<le> 48" and "dma_accel_admission_likely_ok (kdev (sk s), x)"
  shows "\<exists>dev. submit_admit p c (admission_quota (active_sessions (kdev (sk s)))) (kdev (sk s), x) = Some dev"
proof -
  note core = reachable_core_inv [OF assms(1)]
  let ?t = "cmd_table (kdev (sk s))"
  have "count_if untotalled_pc (thr s) \<le> n"
    using count_if_le_length [of untotalled_pc "thr s"] core_invD(5) [OF core] by simp
  moreover have "total_inflight (kdev (sk s)) < 16"
    using assms(3) by (simp add: dma_accel_admission_likely_ok_def Let_def accel_simps)
  moreover have "length ?t = 64"
    using mem_inv_wf(1) [OF core_invD(1) [OF core]] by (simp add: wf_dev_def accel_simps)
  ultimately have "count_if cc_valid ?t < length ?t"
    using core_invD(4) [OF core] assms(2) by (simp add: total_acct_def)
  then obtain slot where "first_index (\<lambda>c. \<not> cc_valid c) ?t = Some slot" by (rule count_if_lt_lengthE)
  with submit_admit_likely [OF assms(3)] show ?thesis by blast
qed

theorem admission_finds_entry_witness:
  "\<exists>dev. submit_admit 1 7 (admission_quota 1) (kdev (sk (after 1 run_setup)), init_session) = Some dev"
proof -
  have "dma_accel_admission_likely_ok (kdev (sk (after 1 run_setup)), init_session)"
    and "active_sessions (kdev (sk (after 1 run_setup))) = 1" by code_simp+
  with admission_finds_entry [OF reachable_after, of 1 run_setup init_session 1 7] show ?thesis by simp
qed

text \<open>
  C11: \<^verbatim>\<open>active_sessions\<close> counts the open files, so the quota each submitter computes is
  \<open>\<lceil>16 / k\<rceil>\<close> for \<open>k\<close> open sessions: the quotas cover the ring and no smaller equal share does, and a
  lone session gets the whole ring.
\<close>

theorem fair_quota:
  assumes "reachable n s"
  shows "active_sessions (kdev (sk s)) = int (card (fds s))
     \<and> 0 < admission_quota (active_sessions (kdev (sk s)))
     \<and> (fds s \<noteq> {} \<longrightarrow>
          int DMA_ACCEL_QUEUE_DEPTH \<le> admission_quota (active_sessions (kdev (sk s))) * int (card (fds s))
          \<and> (admission_quota (active_sessions (kdev (sk s))) - 1) * int (card (fds s)) < int DMA_ACCEL_QUEUE_DEPTH)
     \<and> (card (fds s) = 1 \<longrightarrow> admission_quota (active_sessions (kdev (sk s))) = int DMA_ACCEL_QUEUE_DEPTH)"
proof -
  have act: "finite (fds s)" "active_sessions (kdev (sk s)) = int (card (fds s))"
    using reachable_active [OF assms] by (simp_all add: active_inv_def)
  have "int DMA_ACCEL_QUEUE_DEPTH \<le> admission_quota (int (card (fds s))) * int (card (fds s))
      \<and> (admission_quota (int (card (fds s))) - 1) * int (card (fds s)) < int DMA_ACCEL_QUEUE_DEPTH"
    if "fds s \<noteq> {}"
  proof -
    let ?k = "card (fds s)" and ?q = "div_round_up DMA_ACCEL_QUEUE_DEPTH (card (fds s))"
    have k: "0 < ?k" using that act(1) by (simp add: card_gt_0_iff)
    have q: "admission_quota (int ?k) = int ?q" using k by (simp add: admission_quota_def)
    have "DMA_ACCEL_QUEUE_DEPTH \<le> ?q * ?k" using div_round_up_covers [OF k] by (simp add: mult.commute)
    moreover have "0 < ?q" using div_round_up_pos [OF k, of DMA_ACCEL_QUEUE_DEPTH] by (simp add: accel_simps)
    then have "int ((?q - 1) * ?k) = (int ?q - 1) * int ?k" by (simp add: of_nat_diff)
    moreover have "(?q - 1) * ?k < DMA_ACCEL_QUEUE_DEPTH"
      using div_round_up_tight [OF k, of DMA_ACCEL_QUEUE_DEPTH] by (simp add: accel_simps mult.commute)
    ultimately show ?thesis unfolding q by (metis of_nat_le_iff of_nat_less_iff of_nat_mult)
  qed
  with act admission_quota_pos admission_quota_single show ?thesis by auto
qed

theorem fair_quota_witness:
  "active_sessions (kdev (sk (after 1 [AOpen 1, AOpen 2, AOpen 3]))) = 3 \<and> 16 \<le> admission_quota 3 * 3"
proof -
  have "card (fds (after 1 [AOpen 1, AOpen 2, AOpen 3])) = 3" by code_simp
  moreover have "fds (after 1 [AOpen 1, AOpen 2, AOpen 3]) \<noteq> {}" by code_simp
  ultimately show ?thesis
    using fair_quota [OF reachable_after, of 1 "[AOpen 1, AOpen 2, AOpen 3]"] by (auto simp: accel_simps)
qed

section \<open>Handlers\<close>

text \<open>The completion ring consumed as a list: the entries from the head to the device's tail, in order.\<close>

fun complete_all :: "dma_accel_completion list \<Rightarrow> kstate \<Rightarrow> kstate option" where
  "complete_all [] k = Some k"
| "complete_all (c # cs) k = Option.bind (isr_completion c k) (complete_all cs)"

definition set_cq_head :: "u32 \<Rightarrow> kstate \<Rightarrow> kstate" where
  "set_cq_head h k = k\<lparr>kdev := (kdev k)\<lparr>cq_head := h\<rparr>\<rparr>"

lemma isr_completion_cq_head:
  "isr_completion c (set_cq_head h k) = map_option (set_cq_head h) (isr_completion c k)"
  by (auto simp: isr_completion_def set_cq_head_def isr_route_def total_inflight_dec_def
      split: option.split)

lemma complete_all_cq_head:
  "complete_all cs (set_cq_head h k) = map_option (set_cq_head h) (complete_all cs k)"
proof (induction cs arbitrary: k)
  case (Cons c cs)
  then show ?case by (cases "isr_completion c k") (simp_all add: isr_completion_cq_head)
qed simp

lemma set_cq_head_twice [simp]: "set_cq_head h (set_cq_head g k) = set_cq_head h k"
  by (simp add: set_cq_head_def)

lemma isr_drain_list:
  assumes "length (cq_buf (kdev k)) = DMA_ACCEL_QUEUE_DEPTH"
  shows "isr_drain t k
    = map_option (set_cq_head t) (complete_all (ring_list (cq_buf (kdev k)) (cq_head (kdev k)) t) k)"
  using assms
proof (induction t k rule: isr_drain.induct)
  case (1 t k)
  let ?h = "cq_head (kdev k)"
  have fits: "ring_fits TYPE(32) (cq_buf (kdev k))" using "1.prems" by (simp add: ring_fits_def accel_simps)
  show ?case
  proof (cases "?h = t")
    case True
    then show ?thesis by (subst isr_drain.simps) (simp add: set_cq_head_def)
  next
    case False
    let ?c = "cq_buf (kdev k) ! (unat ?h mod DMA_ACCEL_QUEUE_DEPTH)"
    note pop = ring_list_pop [OF fits False]
    show ?thesis
    proof (cases "isr_completion ?c k")
      case None
      with False pop "1.prems" show ?thesis by (subst isr_drain.simps) simp
    next
      case (Some k')
      note fr = isr_completion_frame(1,2) [OF Some]
      have inc: "cq_head_inc k' = set_cq_head (?h + 1) k'" by (simp add: cq_head_inc_def set_cq_head_def fr)
      from "1.IH" [OF False Some] "1.prems" fr have
        "isr_drain t (cq_head_inc k')
         = map_option (set_cq_head t) (complete_all (ring_list (cq_buf (kdev k)) (?h + 1) t) (cq_head_inc k'))"
        by simp
      also have "\<dots> = map_option (set_cq_head t) (complete_all (ring_list (cq_buf (kdev k)) (?h + 1) t) k')"
        unfolding inc complete_all_cq_head by (simp add: option.map_comp comp_def)
      finally show ?thesis using False Some pop "1.prems" by (subst isr_drain.simps) simp
    qed
  qed
qed

text \<open>
  C13: the interrupt handler as a whole. With the character device active and its interrupt pending,
  the handler acknowledges exactly the status it read, processes in order the entries of the
  completion ring from \<^verbatim>\<open>cq_head\<close> up to the device's tail (across the wrap-around of the 32-bit
  counters), and publishes the new head to the device; for a spurious interrupt it does nothing.
\<close>

theorem irq_handler_drains:
  assumes "length (cq_buf (kdev k)) = DMA_ACCEL_QUEUE_DEPTH"
  shows "dma_accel_irq_handler st tail k =
     (if st = 0 then Some (k, IRQ_NONE)
      else let k1 = k\<lparr>kdev := dma_accel_write_reg (kdev k) REG_IRQ_STATUS st\<rparr> in
        if \<not> uapi_active (kdev k) then Some (k1\<lparr>kdev := (kdev k1)\<lparr>irq_done := irq_done (kdev k) + 1\<rparr>\<rparr>, IRQ_HANDLED)
        else map_option (\<lambda>k2. (k2\<lparr>kdev := dma_accel_write_reg ((kdev k2)\<lparr>cq_head := tail\<rparr>) REG_CQ_HEAD tail\<rparr>, IRQ_HANDLED))
               (complete_all (ring_list (cq_buf (kdev k)) (cq_head (kdev k)) tail) k1))"
  using assms
  by (auto simp: dma_accel_irq_handler_def Let_def isr_drain_list set_cq_head_def split: option.split)

theorem irq_handler_drains_witness:
  "let k = sk (after 1 (run_setup @ run_submit 0 @ take 1 run_irq)) in
   map_option snd (dma_accel_irq_handler 1 1 k) = Some IRQ_HANDLED
   \<and> dma_accel_irq_handler 0 1 k = Some (k, IRQ_NONE)"
proof -
  let ?k = "sk (after 1 (run_setup @ run_submit 0 @ take 1 run_irq))"
  have len: "length (cq_buf (kdev ?k)) = DMA_ACCEL_QUEUE_DEPTH" by code_simp
  have "map_option snd (dma_accel_irq_handler 1 1 ?k) = Some IRQ_HANDLED" by code_simp
  with irq_handler_drains [OF len, of 0 1] show ?thesis by (simp add: Let_def)
qed

text \<open>
  C10: delivery refines a bounded queue that forgets its oldest entry. For a well-formed session the
  completion is appended to the unread ones, the oldest being dropped when
  \<^verbatim>\<open>COMP_RING_SIZE\<close> are unread, and the session stays well formed.
\<close>

theorem deliver_refines_queue:
  assumes "wf_session x"
  shows "unread (isr_deliver c x) = drop (Suc (length (unread x)) - COMP_RING_SIZE) (unread x) @ [c]
     \<and> wf_session (isr_deliver c x) \<and> length (unread (isr_deliver c x)) \<le> COMP_RING_SIZE"
proof -
  have "length (unread x) \<le> COMP_RING_SIZE" using assms by (simp add: unread_def wf_session_def)
  moreover from this
  have "Suc (length (unread x)) - COMP_RING_SIZE = (if length (unread x) < COMP_RING_SIZE then 0 else 1)"
    by auto
  moreover have "0 < COMP_RING_SIZE" by (simp add: accel_simps)
  ultimately show ?thesis
    using isr_deliver_unread [OF assms, of c] isr_deliver_wf [OF assms, of c]
    by (auto simp: drop_Suc)
qed

theorem deliver_refines_queue_witness:
  "unread (isr_deliver zero_completion init_session) = [zero_completion]"
  using deliver_refines_queue [OF wf_init_session, of zero_completion] by simp

lemma chr_read_empty: "unread x = [] \<Longrightarrow> dma_accel_chr_read tu n pos x = (x, pos, Inl EAGAIN)"
  by (simp add: dma_accel_chr_read_def unread_def ring_list_empty_iff)

lemma chr_read_takes:
  assumes wf: "wf_session x" and ne: "unread x \<noteq> []" and n: "sizeof_completion_uapi \<le> n"
  shows "\<exists>x'. let m = min (length (unread x)) (n div sizeof_completion_uapi) in
     dma_accel_chr_read (\<lambda>_. True) n pos x
     = (x', pos + int (m * sizeof_completion_uapi), Inr (map to_uapi (take m (unread x))))
     \<and> unread x' = drop m (unread x) \<and> wf_session x' \<and> x' = x\<lparr>comp_head := comp_head x'\<rparr>"
proof -
  let ?m = "min (length (unread x)) (n div sizeof_completion_uapi)"
  have len: "unat (comp_tail x - comp_head x) = length (unread x)" by (simp add: unread_def)
  have w: "n div sizeof_completion_uapi \<noteq> 0" using n by (simp add: sizeof_completion_uapi_def)
  obtain x' where x': "chr_read_loop (\<lambda>_. True) 0 ?m x = (x', map to_uapi (take ?m (unread x)), False)"
    "unread x' = drop ?m (unread x)" "wf_session x'" "x' = x\<lparr>comp_head := comp_head x'\<rparr>"
    using chr_read_loop_all [OF wf, of 0 ?m] by blast
  have "(if length (unread x) < n div sizeof_completion_uapi then length (unread x)
         else n div sizeof_completion_uapi) = ?m" by auto
  with ne w x' show ?thesis
    by (intro exI [of _ x']) (simp add: dma_accel_chr_read_def len Let_def)
qed

text \<open>
  C14: \<^verbatim>\<open>read()\<close>. With nothing unread it fails with \<^verbatim>\<open>EAGAIN\<close>, with a buffer too small for one entry
  with \<^verbatim>\<open>EINVAL\<close>; otherwise, when the user copies succeed, it returns the oldest unread
  completions in order, as many as fit, removes exactly those, and advances the file position by
  their size.
\<close>

theorem read_fifo:
  assumes "wf_session x"
  shows "(unread x = [] \<longrightarrow> dma_accel_chr_read tu n pos x = (x, pos, Inl EAGAIN))
     \<and> (unread x \<noteq> [] \<and> n < sizeof_completion_uapi \<longrightarrow> dma_accel_chr_read tu n pos x = (x, pos, Inl EINVAL))
     \<and> (unread x \<noteq> [] \<and> sizeof_completion_uapi \<le> n \<longrightarrow>
          (\<exists>x'. let m = min (length (unread x)) (n div sizeof_completion_uapi) in
             dma_accel_chr_read (\<lambda>_. True) n pos x
             = (x', pos + int (m * sizeof_completion_uapi), Inr (map to_uapi (take m (unread x))))
             \<and> unread x' = drop m (unread x) \<and> wf_session x' \<and> x' = x\<lparr>comp_head := comp_head x'\<rparr>))"
proof -
  have "unat (comp_tail x - comp_head x) = length (unread x)" by (simp add: unread_def)
  then have "dma_accel_chr_read tu n pos x = (x, pos, Inl EINVAL)" if "unread x \<noteq> []" "n < sizeof_completion_uapi"
    using that by (simp add: dma_accel_chr_read_def Let_def sizeof_completion_uapi_def)
  then show ?thesis using chr_read_empty chr_read_takes [OF assms] by blast
qed

theorem read_fifo_witness:
  "dma_accel_chr_read (\<lambda>_. True) 64 0 init_session = (init_session, 0, Inl EAGAIN)
   \<and> (\<exists>x'. dma_accel_chr_read (\<lambda>_. True) 64 0 (isr_deliver zero_completion init_session)
        = (x', 16, Inr [to_uapi zero_completion]) \<and> unread x' = [])"
proof -
  let ?x = "isr_deliver zero_completion init_session"
  have u: "unread ?x = [zero_completion]" by (simp add: isr_deliver_unread wf_init_session accel_simps)
  have s: "sizeof_completion_uapi = 16" by (simp add: sizeof_completion_uapi_def)
  from read_fifo [OF isr_deliver_wf [OF wf_init_session], of zero_completion "\<lambda>_. True" 64 0]
    read_fifo [OF wf_init_session, of "\<lambda>_. True" 64 0]
  show ?thesis by (auto simp: u s Let_def)
qed

text \<open>
  C15: allocation and mapping agree. After a successful \<^verbatim>\<open>BUFFER_ALLOC\<close> the returned offset maps, for
  the same session and any length up to the allocation, exactly the memory that was allocated; the
  allocation is the requested size rounded up to whole pages; a longer mapping is refused with
  \<^verbatim>\<open>EINVAL\<close> and another session with \<^verbatim>\<open>EPERM\<close>.
\<close>

theorem alloc_mmap_roundtrip:
  assumes "wf_dev d"
    and "dma_accel_ioc_buffer_alloc True (Some (kaddr, dma)) True p req (d, x) = ((d', x'), Inr req')"
  shows "let pg = drop_bit PAGE_SHIFT (ba_mmap_offset req'); size = ucast (page_align (ba_size req)) :: u64 in
     (\<forall>len. dma_accel_chr_mmap None p pg len d'
        = (if len \<le> size then Inr (kaddr, dma, size) else Inl EINVAL))
     \<and> (\<forall>q len. q \<noteq> p \<and> len \<le> size \<longrightarrow> dma_accel_chr_mmap None q pg len d' = Inl EPERM)
     \<and> unat (ba_size req) \<le> unat size \<and> unat size < unat (ba_size req) + 4096 \<and> 4096 dvd unat size"
proof -
  from assms(2) obtain slot where slot: "first_index (\<lambda>b. \<not> be_in_use b) (buffers d) = Some slot"
    and sz: "ba_size req \<le> DMA_ACCEL_BUFFER_ALLOC_MAX"
    and d': "d' = d\<lparr>buffers := (buffers d)[slot := alloc_entry kaddr dma p (ba_size req)]\<rparr>"
    and off: "ba_mmap_offset req' = push_bit PAGE_SHIFT (of_nat slot)"
    by (auto elim: buffer_alloc_Inr)
  have lt: "slot < MAX_BUFFERS" using free_slot_range(1) [OF assms(1) slot] .
  have pg: "unat (drop_bit PAGE_SHIFT (ba_mmap_offset req')) = slot"
    unfolding off by (rule mmap_offset_decodes [OF lt])
  have b: "buffers d' ! slot = alloc_entry kaddr dma p (ba_size req)"
    using lt assms(1) by (simp add: d' wf_dev_def)
  have "unat (page_align (ba_size req)) < 2 ^ 32"
    using unsigned_less [of "page_align (ba_size req)", where 'a = nat] by simp
  then have u: "unat (ucast (page_align (ba_size req)) :: u64) = unat (page_align (ba_size req))"
    by (simp add: unsigned_ucast_eq take_bit_eq_mod)
  show ?thesis
    using lt page_align_bounds [OF sz]
    by (auto simp: Let_def dma_accel_chr_mmap_def pg b u alloc_entry_def not_le)
qed

theorem alloc_mmap_roundtrip_witness:
  "let r = dma_accel_ioc_buffer_alloc True (Some (0x1000, 0x2000)) True 1 alloc_req
             (kdev (sk (boot 1)), init_session);
       req' = projr (snd r)
   in dma_accel_chr_mmap None 1 (drop_bit PAGE_SHIFT (ba_mmap_offset req')) 4096 (fst (fst r))
      = Inr (0x1000, 0x2000, 4096)"
proof -
  let ?r = "dma_accel_ioc_buffer_alloc True (Some (0x1000, 0x2000)) True 1 alloc_req
              (kdev (sk (boot 1)), init_session)"
  have inr: "snd ?r = Inr (projr (snd ?r))" by code_simp
  then have run: "?r = ((fst (fst ?r), snd (fst ?r)), Inr (projr (snd ?r)))" by (metis prod.collapse)
  have sz: "ucast (page_align (ba_size alloc_req)) = (4096 :: u64)" by code_simp
  from alloc_mmap_roundtrip [OF mem_inv_wf(1) [OF mem_inv_boot] run] show ?thesis
    unfolding Let_def sz by simp
qed

text \<open>
  C16: \<^verbatim>\<open>release()\<close> frees exactly what the session owns. When the session has drained, every slot it
  owned is free afterwards and its memory was handed to \<^verbatim>\<open>dma_free_coherent\<close>, every other slot is
  untouched, the number of blocks freed is the number of buffers owned, and the session is gone.
\<close>

theorem release_frees_exactly_own:
  assumes "mem_inv k" and "sessions k p = Some x" and "inflight x \<le> 0"
  shows "\<exists>k' freed. dma_accel_chr_release naps p k = Some (k', freed)
     \<and> sessions k' = (sessions k)(p := None)
     \<and> active_sessions (kdev k') = active_sessions (kdev k) - 1
     \<and> (\<forall>i < MAX_BUFFERS. let b = buffers (kdev k) ! i; b' = buffers (kdev k') ! i in
          if be_owner b = Some p
          then \<not> be_in_use b' \<and> be_owner b' = None \<and> (be_size b, be_kaddr b, be_dma_addr b) \<in> set freed
          else b' = b)
     \<and> length freed = bitmap_weight (owned_buffers x)"
proof -
  let ?k = "release_begin k"
  have run: "dma_accel_chr_release naps p k = Some (release_finish p x ?k)"
    using assms(2,3) by (simp add: dma_accel_chr_release_def)
  have wf: "wf_dev (kdev ?k)" and own: "own_inv k" and len: "length (owned_buffers x) = MAX_BUFFERS"
    using assms(1,2) by (auto simp: mem_inv_def wf_kstate_def release_begin_def wf_dev_def wf_session_def)
  have bufs: "buffers (kdev ?k) = buffers (kdev k)" by (simp add: release_begin_def)
  have slot: "let b = buffers (kdev k) ! i; b' = buffers (kdev (fst (release_finish p x ?k))) ! i in
          if be_owner b = Some p
          then \<not> be_in_use b' \<and> be_owner b' = None
               \<and> (be_size b, be_kaddr b, be_dma_addr b) \<in> set (snd (release_finish p x ?k))
          else b' = b" if "i < MAX_BUFFERS" for i
    using that release_finish_buffers [OF wf that, of p x] own_invD(3) [OF own that assms(2)]
    by (auto simp: Let_def bufs release_finish_def)
  have "length (filter (\<lambda>i. owned_buffers x ! i) [0..<MAX_BUFFERS]) = length (filter (\<lambda>b. b) (owned_buffers x))"
    using filter_map [of "\<lambda>b. b" "(!) (owned_buffers x)" "[0..<MAX_BUFFERS]"] map_nth [of "owned_buffers x"]
    by (simp add: len comp_def)
  then have "length (snd (release_finish p x ?k)) = bitmap_weight (owned_buffers x)"
    by (simp add: release_finish_def Let_def bitmap_weight_def count_if_def)
  with run slot show ?thesis
    by (intro exI [of _ "fst (release_finish p x ?k)"] exI [of _ "snd (release_finish p x ?k)"])
       (simp add: release_begin_def)
qed

theorem release_frees_exactly_own_witness:
  "map_option (length \<circ> snd) (dma_accel_chr_release [] 1 (sk (after 1 run_setup))) = Some 1"
proof -
  let ?k = "sk (after 1 run_setup)"
  have x: "sessions ?k 1 = Some (the (sessions ?k 1))" by (rule is_some_the) code_simp
  have "inflight (the (sessions ?k 1)) \<le> 0" "bitmap_weight (owned_buffers (the (sessions ?k 1))) = 1"
    by code_simp+
  with release_frees_exactly_own [OF reachable_mem_inv [OF reachable_after] x, of "[]"]
  show ?thesis by auto
qed

lemma ioc_submit_runs:
  assumes wf: "wf_dev d" and v: "submit_validate p req d = Inr (src, dst, src2)"
    and ok: "dma_accel_admission_likely_ok (d, x)"
    and free: "first_index (\<lambda>c. \<not> cc_valid c) (cmd_table d) = Some slot"
    and room: "unat (sq_tail d - head) < DMA_ACCEL_QUEUE_DEPTH"
  shows "let c = next_cmd_id d + 1 in
     \<exists>d'. dma_accel_ioc_submit True tu ws p req (d, x)
          = Some ((d', x\<lparr>inflight := inflight x + 1\<rparr>), if tu then Inr (req\<lparr>sub_cmd_id := c\<rparr>) else Inl EFAULT)
       \<and> next_cmd_id d' = c \<and> total_inflight d' = total_inflight d + 1
       \<and> cmd_table d' = (cmd_table d)[slot := \<lparr>cc_valid = True, cc_cmd_id = c, cc_sess = Some p\<rparr>]
       \<and> buffers d' = buffers d \<and> active_sessions d' = active_sessions d \<and> wf_dev d'
       \<and> sq_pending d' head = sq_pending d head @
           [\<lparr>cmd_opcode = sub_opcode req, cmd_len = sub_len req, cmd_src_addr = src,
             cmd_dst_addr = dst, cmd_cmd_id = c, cmd_src2_addr = src2,
             cmd_scalar = sub_scalar req, cmd_reserved = 0\<rparr>]"
proof -
  define c where "c = next_cmd_id d + 1"
  define d1 where "d1 = d\<lparr>next_cmd_id := c, cmd_table := (cmd_table d)[slot :=
      \<lparr>cc_valid = True, cc_cmd_id = c, cc_sess = Some p\<rparr>]\<rparr>"
  have adm: "submit_loop p c ws (d\<lparr>next_cmd_id := c\<rparr>, x) = Some ((d1, x), Inr ())"
    using ok free by (subst submit_loop.simps)
      (simp add: submit_admit_def dma_accel_admission_likely_ok_def d1_def)
  define d2 where "d2 = dma_accel_queue_submit_ext (total_inflight_inc d1) (sub_opcode req) src dst
      (sub_len req) c src2 (sub_scalar req)"
  have run: "dma_accel_ioc_submit True tu ws p req (d, x)
      = Some ((d2, x\<lparr>inflight := inflight x + 1\<rparr>), if tu then Inr (req\<lparr>sub_cmd_id := c\<rparr>) else Inl EFAULT)"
    using v adm by (simp add: dma_accel_ioc_submit_def next_id_def c_def [symmetric] d2_def
        session_inflight_inc_def Let_def)
  have "sq_pending d2 head = sq_pending (total_inflight_inc d1) head @
      [\<lparr>cmd_opcode = sub_opcode req, cmd_len = sub_len req, cmd_src_addr = src, cmd_dst_addr = dst,
        cmd_cmd_id = c, cmd_src2_addr = src2, cmd_scalar = sub_scalar req, cmd_reserved = 0\<rparr>]"
    unfolding d2_def using wf room
    by (intro queue_submit_ext_appends) (simp_all add: wf_dev_def d1_def total_inflight_inc_def)
  moreover have "sq_pending (total_inflight_inc d1) head = sq_pending d head"
    by (simp add: sq_pending_def d1_def total_inflight_inc_def)
  ultimately show ?thesis
    unfolding Let_def c_def [symmetric] using run
    by (intro exI [of _ d2]) (use wf in \<open>simp add: d2_def d1_def total_inflight_inc_def wf_dev_def\<close>)
qed

text \<open>
  C17: \<^verbatim>\<open>ioctl(SUBMIT)\<close> as a whole, when it need not wait. A rejected request changes nothing and
  reports the validation's error. An admissible one gets the next identifier, one entry of the
  command table for its session, one count in both counters, and its descriptor, with the addresses
  the validation computed, is what the device fetches next after those already pending.
\<close>

theorem submit_effect:
  assumes "wf_dev d"
  shows "(\<forall>e. submit_validate p req d = Inl e \<longrightarrow>
            dma_accel_ioc_submit True tu ws p req (d, x) = Some ((d, x), Inl e))
     \<and> (\<forall>src dst src2 slot head.
          submit_validate p req d = Inr (src, dst, src2) \<and> dma_accel_admission_likely_ok (d, x)
          \<and> first_index (\<lambda>c. \<not> cc_valid c) (cmd_table d) = Some slot
          \<and> unat (sq_tail d - head) < DMA_ACCEL_QUEUE_DEPTH \<longrightarrow>
          (let c = next_cmd_id d + 1 in
           \<exists>d'. dma_accel_ioc_submit True tu ws p req (d, x)
                = Some ((d', x\<lparr>inflight := inflight x + 1\<rparr>),
                        if tu then Inr (req\<lparr>sub_cmd_id := c\<rparr>) else Inl EFAULT)
             \<and> next_cmd_id d' = c \<and> total_inflight d' = total_inflight d + 1
             \<and> cmd_table d' = (cmd_table d)[slot := \<lparr>cc_valid = True, cc_cmd_id = c, cc_sess = Some p\<rparr>]
             \<and> buffers d' = buffers d \<and> active_sessions d' = active_sessions d \<and> wf_dev d'
             \<and> sq_pending d' head = sq_pending d head @
                 [\<lparr>cmd_opcode = sub_opcode req, cmd_len = sub_len req, cmd_src_addr = src,
                   cmd_dst_addr = dst, cmd_cmd_id = c, cmd_src2_addr = src2,
                   cmd_scalar = sub_scalar req, cmd_reserved = 0\<rparr>]))"
  using ioc_submit_runs [OF assms] by (auto simp: dma_accel_ioc_submit_def)

theorem submit_effect_witness:
  "\<exists>d'. dma_accel_ioc_submit True True [] 1 copy_req (kdev (sk (after 1 run_setup)), init_session)
        = Some ((d', init_session\<lparr>inflight := 1\<rparr>), Inr (copy_req\<lparr>sub_cmd_id := 2\<rparr>))"
proof -
  let ?d = "kdev (sk (after 1 run_setup))"
  have wf: "wf_dev ?d" using mem_inv_wf(1) [OF reachable_mem_inv [OF reachable_after]] .
  have v: "submit_validate 1 copy_req ?d = Inr (0x2000, 0x2040, 0)" by code_simp
  have ok: "dma_accel_admission_likely_ok (?d, init_session)" by code_simp
  have free: "first_index (\<lambda>c. \<not> cc_valid c) (cmd_table ?d) = Some 0" by code_simp
  have room: "unat (sq_tail ?d - 0) < DMA_ACCEL_QUEUE_DEPTH" and n: "next_cmd_id ?d = 1" by code_simp+
  have zero: "inflight init_session = 0" by simp
  from submit_effect [OF wf, of 1 copy_req True "[]" init_session, THEN conjunct2,
      rule_format, OF conjI [OF v conjI [OF ok conjI [OF free room]]]]
  show ?thesis unfolding Let_def n zero by (elim ex_forward) simp
qed

text \<open>A submitter that is never woken returns only if it is admitted at once.\<close>

lemma submit_loop_nil:
  assumes "submit_loop p i [] d = Some y"
  shows "\<exists>d'. submit_admit p i (admission_quota (active_sessions (fst d))) d = Some d' \<and> y = ((d', snd d), Inr ())"
proof -
  have "[] = ([] :: wake list) \<longrightarrow>
      (\<exists>d'. submit_admit p i (admission_quota (active_sessions (fst d))) d = Some d' \<and> y = ((d', snd d), Inr ()))"
  proof (rule submit_loop.raw_induct [of "\<lambda>p i ws d y. ws = [] \<longrightarrow>
      (\<exists>d'. submit_admit p i (admission_quota (active_sessions (fst d))) d = Some d' \<and> y = ((d', snd d), Inr ()))", OF _ assms],
      intro impI, goal_cases)
    case (1 rec p i ws d y)
    then have "(\<exists>d'. submit_admit p i (admission_quota (active_sessions (fst d))) d = Some d' \<and> y = ((d', snd d), Inr ()))
        \<or> rec p i [] d = Some y" by (auto split: option.splits if_splits)
    with 1(1) [of p i "[]" d y] show ?case by blast
  qed
  then show ?thesis by simp
qed

lemma wait_admission_skip:
  assumes "\<And>i. i \<le> length fs \<Longrightarrow> \<not> dma_accel_admission_likely_ok (fold (\<lambda>f s. f s) (take i fs) ds)"
  shows "wait_admission (map Some fs @ w # ws) ds
         = (case w of None \<Rightarrow> Some (ws, fold (\<lambda>f s. f s) fs ds, Inl ERESTARTSYS)
            | Some g \<Rightarrow> wait_admission ws (g (fold (\<lambda>f s. f s) fs ds)))"
  using assms
proof (induction fs arbitrary: ds)
  case Nil
  from Nil [of 0] show ?case by (simp split: option.split)
next
  case (Cons f fs)
  from Cons.prems [of 0] have "\<not> dma_accel_admission_likely_ok ds" by simp
  moreover have "\<not> dma_accel_admission_likely_ok (fold (\<lambda>f s. f s) (take i fs) (f ds))" if "i \<le> length fs" for i
    using Cons.prems [of "Suc i"] that by simp
  ultimately show ?case using Cons.IH [of "f ds"] by (simp split: option.split)
qed

text \<open>
  C18: a blocked submitter is admitted once the system lets it. Whatever the rest of the system does
  in the naps before, as long as no signal arrives, the admission loop returns with the command
  entered as soon as a wake-up finds the admission condition and a free entry; and a signal while
  the condition fails ends the call with \<^verbatim>\<open>ERESTARTSYS\<close>.
\<close>

theorem submit_loop_returns:
  assumes "\<And>i. i \<le> length fs \<Longrightarrow> \<not> dma_accel_admission_likely_ok (fold (\<lambda>f s. f s) (take i fs) ds)"
  shows "submit_loop p c (map Some fs @ None # ws) ds = Some (fold (\<lambda>f s. f s) fs ds, Inl ERESTARTSYS)
     \<and> (\<forall>d x slot. g (fold (\<lambda>f s. f s) fs ds) = (d, x) \<and> dma_accel_admission_likely_ok (d, x)
          \<and> first_index (\<lambda>c. \<not> cc_valid c) (cmd_table d) = Some slot \<longrightarrow>
          submit_loop p c (map Some fs @ Some g # ws) ds
          = Some ((d\<lparr>cmd_table := (cmd_table d)[slot := \<lparr>cc_valid = True, cc_cmd_id = c, cc_sess = Some p\<rparr>]\<rparr>, x),
                  Inr ()))"
proof -
  obtain d0 x0 where ds: "ds = (d0, x0)" by (cases ds)
  have no: "submit_admit p c (admission_quota (active_sessions (fst ds))) ds = None"
    using assms [of 0] by (auto simp: ds submit_admit_def dma_accel_admission_likely_ok_def Let_def)
  have yes: "submit_loop p c ws (d, x)
        = Some ((d\<lparr>cmd_table := (cmd_table d)[slot := \<lparr>cc_valid = True, cc_cmd_id = c, cc_sess = Some p\<rparr>]\<rparr>, x), Inr ())"
    if "dma_accel_admission_likely_ok (d, x)" "first_index (\<lambda>c. \<not> cc_valid c) (cmd_table d) = Some slot" for d x slot ws
    using that by (subst submit_loop.simps) (simp add: submit_admit_def dma_accel_admission_likely_ok_def)
  have stop: "wait_admission ws (d, x) = Some (ws, (d, x), Inr ())"
    if "dma_accel_admission_likely_ok (d, x)" for d x
    using that by (cases ws) simp_all
  show ?thesis
    using wait_admission_skip [OF assms, of None ws] wait_admission_skip [OF assms, of "Some g" ws] no
    by (auto simp: submit_loop.simps [of p c "map Some fs @ None # ws" ds]
        submit_loop.simps [of p c "map Some fs @ Some g # ws" ds] stop yes)
qed

theorem submit_loop_returns_witness:
  "let full = (kdev (sk (boot 1)))\<lparr>total_inflight := 16\<rparr> in
   map_option snd (submit_loop 1 5 [Some (\<lambda>(d, x). (d\<lparr>total_inflight := 15\<rparr>, x))] (full, init_session))
   = Some (Inr ())"
proof -
  let ?ds = "((kdev (sk (boot 1)))\<lparr>total_inflight := 16\<rparr>, init_session)"
  let ?g = "\<lambda>(d :: dma_accel_dev, x :: dma_accel_session). (d\<lparr>total_inflight := 15\<rparr>, x)"
  have no: "\<not> dma_accel_admission_likely_ok (fold (\<lambda>f s. f s) (take i []) ?ds)" for i
    by (simp add: dma_accel_admission_likely_ok_def accel_simps)
  have ok: "dma_accel_admission_likely_ok (?g ?ds)" by code_simp
  have slot: "first_index (\<lambda>c. \<not> cc_valid c) (cmd_table (fst (?g ?ds))) = Some 0" by code_simp
  from submit_loop_returns [of "[]" ?ds 1 5 "[]" ?g, OF no] ok slot show ?thesis
    by (simp add: Let_def)
qed

end
