(* ===== verification/Driver_Findings.thy ===== *)
theory Driver_Findings
  imports Driver_Correct
begin

text \<open>
  Behaviours of the driver that comments of the source exclude and the code allows. Each is a run
  of the interleaved system, or of one handler, that the kernel checks by evaluation.
\<close>

section \<open>The runs\<close>

definition run_overcommit :: "action list" where
  "run_overcommit = run_setup @ concat (replicate 15 (run_submit 0)) @ take 3 (run_submit 0)
     @ take 3 (run_submit 1) @ [AAdmit 0, AAdmit 1, ACount 0, ACount 1, ATotal 0, ATotal 1]"

definition run_wake_freed :: "action list" where
  "run_wake_freed = run_setup @ run_submit 0 @ take 3 run_irq @ [AIsr, AIsr, ARelBegin 1, ARelFinish 1, AIsr]"

definition run_lost :: "action list" where
  "run_lost = run_setup @ take 6 (run_submit 0) @ take 6 (run_submit 1) @ [AWrite 0, AWrite 1, ABell 0, ABell 1]"

section \<open>Findings\<close>

text \<open>
  C19: three races. The check of the cap reads \<^verbatim>\<open>total_inflight\<close> under \<^verbatim>\<open>cmd_lock\<close>, but the counter is
  incremented after the lock is dropped: with fifteen commands in flight two threads both pass it, and
  seventeen commands share a ring of sixteen slots. The enqueue runs without a lock: two threads
  store into the slot at the same \<^verbatim>\<open>sq_tail\<close>, both ring the doorbell, and the device is told of two
  commands of which the ring holds only one; the other stays in the command table for ever. The
  interrupt handler decrements \<^verbatim>\<open>owner->inflight\<close> before it wakes the session's readers; a \<^verbatim>\<open>release()\<close> that is
  waiting for the counter frees the session in between, and the wake-up touches freed memory.
\<close>

theorem driver_races:
  "(\<exists>s. reachable 2 s \<and> total_inflight (kdev (sk s)) = int DMA_ACCEL_QUEUE_DEPTH + 1)
   \<and> (\<exists>s c p. reachable 2 s \<and> thr s = [SIdle, SIdle] \<and> unat (sq_tail (kdev (sk s))) = 2
     \<and> (\<exists>e \<in> set (cmd_table (kdev (sk s))). valid_of p e \<and> cc_cmd_id e = c)
     \<and> c \<notin> cmd_cmd_id ` set (sq_buf (kdev (sk s))))
   \<and> (\<exists>s p tail. reachable 1 s \<and> isr s = IWake p tail \<and> sessions (sk s) p = None)"
proof (intro conjI)
  have "total_inflight (kdev (sk (after 2 run_overcommit))) = int DMA_ACCEL_QUEUE_DEPTH + 1" by code_simp
  with reachable_after show "\<exists>s. reachable 2 s \<and> total_inflight (kdev (sk s)) = int DMA_ACCEL_QUEUE_DEPTH + 1" by blast
next
  let ?s = "after 2 run_lost"
  have "thr ?s = [SIdle, SIdle]" "unat (sq_tail (kdev (sk ?s))) = 2"
    "\<exists>e \<in> set (cmd_table (kdev (sk ?s))). valid_of 1 e \<and> cc_cmd_id e = 2"
    "2 \<notin> cmd_cmd_id ` set (sq_buf (kdev (sk ?s)))"
    by code_simp+
  with reachable_after show "\<exists>s c p. reachable 2 s \<and> thr s = [SIdle, SIdle] \<and> unat (sq_tail (kdev (sk s))) = 2
     \<and> (\<exists>e \<in> set (cmd_table (kdev (sk s))). valid_of p e \<and> cc_cmd_id e = c)
     \<and> c \<notin> cmd_cmd_id ` set (sq_buf (kdev (sk s)))" by blast
next
  have "isr (after 1 run_wake_freed) = IWake 1 1" "sessions (sk (after 1 run_wake_freed)) 1 = None"
    by code_simp+
  with reachable_after show "\<exists>s p tail. reachable 1 s \<and> isr s = IWake p tail \<and> sessions (sk s) p = None" by blast
qed

text \<open>
  A faulting \<^verbatim>\<open>read()\<close> consumes a completion. The head is advanced before \<^verbatim>\<open>copy_to_user\<close>, so
  when the copy of the first entry fails the call returns \<^verbatim>\<open>EFAULT\<close> and the entry is gone.
\<close>

theorem read_fault_loses_completion:
  assumes "wf_session x" and "unread x \<noteq> []" and "sizeof_completion_uapi \<le> n"
  shows "\<exists>x'. dma_accel_chr_read (\<lambda>_. False) n pos x = (x', pos, Inl EFAULT) \<and> unread x' = tl (unread x)"
proof -
  have ne: "comp_head x \<noteq> comp_tail x" using assms(2) by (simp add: unread_def ring_list_empty_iff)
  have gap: "unat (comp_tail x - comp_head x) \<noteq> 0" using ne by (simp add: unat_eq_zero)
  have w: "n div sizeof_completion_uapi \<noteq> 0" using assms(3) by (simp add: sizeof_completion_uapi_def)
  let ?x = "x\<lparr>comp_head := comp_head x + 1\<rparr>"
  have "chr_read_loop (\<lambda>_. False) 0 m x = (?x, [], True)" if "m \<noteq> 0" for m
    using that ne by (cases m) (simp_all add: Let_def)
  then have "dma_accel_chr_read (\<lambda>_. False) n pos x = (?x, pos, Inl EFAULT)"
    using gap w by (simp add: dma_accel_chr_read_def Let_def)
  moreover have "unread ?x = tl (unread x)"
    using ring_list_hd(2) [OF comp_ring_fits [OF assms(1)] ne] by (simp add: unread_def)
  ultimately show ?thesis by blast
qed

theorem read_fault_loses_completion_witness:
  "\<exists>x'. dma_accel_chr_read (\<lambda>_. False) 16 0 (isr_deliver zero_completion init_session) = (x', 0, Inl EFAULT)
        \<and> unread x' = []"
  using read_fault_loses_completion [OF isr_deliver_wf [OF wf_init_session], of zero_completion 16 0]
  by (simp add: isr_deliver_unread wf_init_session accel_simps sizeof_completion_uapi_def)

end
