(* ===== verification/Driver_Spec.thy ===== *)
theory Driver_Spec
  imports Driver_Routing
begin

text \<open>
  What the driver promises, as an abstract machine. A session is a set of buffer slots, a set of
  commands in flight and a queue of unread completions; there are no tables, rings, counters,
  locks, threads or interrupt contexts. Every step of the interleaved driver is a step of this
  machine or leaves it where it is, so what holds of the machine holds of the driver under every
  interleaving.
\<close>

section \<open>The machine\<close>

record session_spec =
  sp_open :: bool
  sp_owned :: "nat set"
  sp_pending :: "u64 set"
  sp_unread :: "dma_accel_completion list"

type_synonym spec_state = "sess_ptr \<rightharpoonup> session_spec"

definition new_session :: session_spec where
  "new_session = \<lparr>sp_open = True, sp_owned = {}, sp_pending = {}, sp_unread = []\<rparr>"

definition all_owned :: "spec_state \<Rightarrow> nat set" where
  "all_owned \<sigma> = \<Union> (sp_owned ` ran \<sigma>)"

definition all_pending :: "spec_state \<Rightarrow> u64 set" where
  "all_pending \<sigma> = \<Union> (sp_pending ` ran \<sigma>)"

text \<open>The identifiers a session knows of: in flight or reported and not read yet.\<close>

definition sp_ids :: "session_spec \<Rightarrow> u64 set" where
  "sp_ids x = sp_pending x \<union> comp_cmd_id ` set (sp_unread x)"

text \<open>A queue of at most \<^verbatim>\<open>COMP_RING_SIZE\<close> entries that forgets its oldest.\<close>

definition push_bounded :: "dma_accel_completion \<Rightarrow> dma_accel_completion list \<Rightarrow> dma_accel_completion list" where
  "push_bounded c xs = drop (Suc (length xs) - COMP_RING_SIZE) (xs @ [c])"

inductive spec_step :: "spec_state \<Rightarrow> spec_state \<Rightarrow> bool" where
  sp_opens: "\<sigma> p = None \<Longrightarrow> spec_step \<sigma> (\<sigma>(p \<mapsto> new_session))"
| sp_allocs: "\<sigma> p = Some x \<Longrightarrow> sp_open x \<Longrightarrow> i < MAX_BUFFERS \<Longrightarrow> i \<notin> all_owned \<sigma> \<Longrightarrow>
     card (sp_owned x) < DEFAULT_BUFFER_QUOTA \<Longrightarrow>
     spec_step \<sigma> (\<sigma>(p \<mapsto> x\<lparr>sp_owned := insert i (sp_owned x)\<rparr>))"
| sp_admits: "\<sigma> p = Some x \<Longrightarrow> sp_open x \<Longrightarrow> (\<And>q y. \<sigma> q = Some y \<Longrightarrow> c \<notin> sp_ids y) \<Longrightarrow>
     card (all_pending \<sigma>) \<le> MAX_INFLIGHT_CMDS \<Longrightarrow>
     spec_step \<sigma> (\<sigma>(p \<mapsto> x\<lparr>sp_pending := insert c (sp_pending x)\<rparr>))"
| sp_completes: "\<sigma> p = Some x \<Longrightarrow> comp_cmd_id c \<in> sp_pending x \<Longrightarrow>
     spec_step \<sigma> (\<sigma>(p \<mapsto> x\<lparr>sp_pending := sp_pending x - {comp_cmd_id c},
                           sp_unread := push_bounded c (sp_unread x)\<rparr>))"
| sp_reads: "\<sigma> p = Some x \<Longrightarrow> sp_open x \<Longrightarrow>
     spec_step \<sigma> (\<sigma>(p \<mapsto> x\<lparr>sp_unread := drop n (sp_unread x)\<rparr>))"
| sp_closes: "\<sigma> p = Some x \<Longrightarrow> sp_open x \<Longrightarrow> spec_step \<sigma> (\<sigma>(p \<mapsto> x\<lparr>sp_open := False\<rparr>))"
| sp_frees: "\<sigma> p = Some x \<Longrightarrow> \<not> sp_open x \<Longrightarrow> sp_pending x = {} \<Longrightarrow> spec_step \<sigma> (\<sigma>(p := None))"

inductive spec_reach :: "spec_state \<Rightarrow> bool" where
  spec_boot: "spec_reach Map.empty"
| spec_next: "spec_reach \<sigma> \<Longrightarrow> spec_step \<sigma> \<sigma>' \<Longrightarrow> spec_reach \<sigma>'"

section \<open>What the machine guarantees\<close>

text \<open>
  Slots have one owner, an identifier belongs to one session, and within a session it is either in
  flight or reported once.
\<close>

definition spec_ok :: "spec_state \<Rightarrow> bool" where
  "spec_ok \<sigma> \<longleftrightarrow>
     (\<forall>p x. \<sigma> p = Some x \<longrightarrow> distinct (map comp_cmd_id (sp_unread x))
        \<and> sp_pending x \<inter> comp_cmd_id ` set (sp_unread x) = {} \<and> length (sp_unread x) \<le> COMP_RING_SIZE)
     \<and> (\<forall>p q x y. \<sigma> p = Some x \<longrightarrow> \<sigma> q = Some y \<longrightarrow> p \<noteq> q \<longrightarrow>
          sp_ids x \<inter> sp_ids y = {} \<and> sp_owned x \<inter> sp_owned y = {})"

lemma spec_okI:
  assumes "\<And>p x. \<sigma> p = Some x \<Longrightarrow> distinct (map comp_cmd_id (sp_unread x))"
    and "\<And>p x. \<sigma> p = Some x \<Longrightarrow> sp_pending x \<inter> comp_cmd_id ` set (sp_unread x) = {}"
    and "\<And>p x. \<sigma> p = Some x \<Longrightarrow> length (sp_unread x) \<le> COMP_RING_SIZE"
    and "\<And>p q x y. \<sigma> p = Some x \<Longrightarrow> \<sigma> q = Some y \<Longrightarrow> p \<noteq> q \<Longrightarrow> sp_ids x \<inter> sp_ids y = {}"
    and "\<And>p q x y. \<sigma> p = Some x \<Longrightarrow> \<sigma> q = Some y \<Longrightarrow> p \<noteq> q \<Longrightarrow> sp_owned x \<inter> sp_owned y = {}"
  shows "spec_ok \<sigma>"
  unfolding spec_ok_def by (intro conjI allI impI; rule assms; assumption)

lemma spec_okD:
  assumes "spec_ok \<sigma>" and "\<sigma> p = Some x"
  shows "distinct (map comp_cmd_id (sp_unread x))" and "sp_pending x \<inter> comp_cmd_id ` set (sp_unread x) = {}"
    and "length (sp_unread x) \<le> COMP_RING_SIZE"
    and "\<sigma> q = Some y \<Longrightarrow> p \<noteq> q \<Longrightarrow> sp_ids x \<inter> sp_ids y = {}"
    and "\<sigma> q = Some y \<Longrightarrow> p \<noteq> q \<Longrightarrow> sp_owned x \<inter> sp_owned y = {}"
  using assms unfolding spec_ok_def by blast+

text \<open>One session changes: its own condition, and that it takes nothing another session has.\<close>

lemma spec_ok_upd:
  assumes ok: "spec_ok \<sigma>"
    and "distinct (map comp_cmd_id (sp_unread y))" "sp_pending y \<inter> comp_cmd_id ` set (sp_unread y) = {}"
      "length (sp_unread y) \<le> COMP_RING_SIZE"
    and ids: "\<And>q z. \<sigma> q = Some z \<Longrightarrow> q \<noteq> p \<Longrightarrow> sp_ids y \<inter> sp_ids z = {}"
    and own: "\<And>q z. \<sigma> q = Some z \<Longrightarrow> q \<noteq> p \<Longrightarrow> sp_owned y \<inter> sp_owned z = {}"
  shows "spec_ok (\<sigma>(p \<mapsto> y))"
proof (rule spec_okI)
  fix q r u v
  assume u: "(\<sigma>(p \<mapsto> y)) q = Some u"
  show "distinct (map comp_cmd_id (sp_unread u))" "sp_pending u \<inter> comp_cmd_id ` set (sp_unread u) = {}"
    "length (sp_unread u) \<le> COMP_RING_SIZE"
    using u assms(2-4) spec_okD(1-3) [OF ok, of q u] by (auto split: if_splits)
  assume v: "(\<sigma>(p \<mapsto> y)) r = Some v" "q \<noteq> r"
  show "sp_ids u \<inter> sp_ids v = {}"
    using u v ids [of q u] ids [of r v] spec_okD(4) [OF ok, of q u r v] by (auto split: if_splits)
  show "sp_owned u \<inter> sp_owned v = {}"
    using u v own [of q u] own [of r v] spec_okD(5) [OF ok, of q u r v] by (auto split: if_splits)
qed

text \<open>One session gives something up.\<close>

lemma spec_ok_less:
  assumes ok: "spec_ok \<sigma>" and x: "\<sigma> p = Some x" and "sp_ids y \<subseteq> sp_ids x" and "sp_owned y = sp_owned x"
    and "distinct (map comp_cmd_id (sp_unread y))" "sp_pending y \<inter> comp_cmd_id ` set (sp_unread y) = {}"
      "length (sp_unread y) \<le> COMP_RING_SIZE"
  shows "spec_ok (\<sigma>(p \<mapsto> y))"
proof (rule spec_ok_upd [OF ok assms(5-7)])
  fix q z assume z: "\<sigma> q = Some z" "q \<noteq> p"
  show "sp_ids y \<inter> sp_ids z = {}" using spec_okD(4) [OF ok x z(1)] z(2) assms(3) by auto
  show "sp_owned y \<inter> sp_owned z = {}" using spec_okD(5) [OF ok x z(1)] z(2) assms(4) by auto
qed

lemma push_bounded_set: "set (push_bounded c xs) \<subseteq> insert c (set xs)"
  by (auto simp: push_bounded_def dest: in_set_dropD)

text \<open>The steps that give a session something: a slot nobody has, an identifier nobody has.\<close>

lemma spec_ok_allocs:
  assumes ok: "spec_ok \<sigma>" and p: "\<sigma> p = Some x" and free: "i \<notin> all_owned \<sigma>"
  shows "spec_ok (\<sigma>(p \<mapsto> x\<lparr>sp_owned := insert i (sp_owned x)\<rparr>))"
proof (rule spec_ok_upd [OF ok])
  note x = spec_okD [OF ok p]
  fix q z assume z: "\<sigma> q = Some z" "q \<noteq> p"
  have "i \<notin> sp_owned z" using free z(1) by (auto simp: all_owned_def ran_def)
  then show "sp_owned (x\<lparr>sp_owned := insert i (sp_owned x)\<rparr>) \<inter> sp_owned z = {}" using x(5) [OF z(1)] z(2) by auto
  show "sp_ids (x\<lparr>sp_owned := insert i (sp_owned x)\<rparr>) \<inter> sp_ids z = {}" using x(4) [OF z(1)] z(2) by (auto simp: sp_ids_def)
qed (use spec_okD(1-3) [OF ok p] in auto)

lemma spec_ok_admits:
  assumes ok: "spec_ok \<sigma>" and p: "\<sigma> p = Some x" and fresh: "\<And>q y. \<sigma> q = Some y \<Longrightarrow> c \<notin> sp_ids y"
  shows "spec_ok (\<sigma>(p \<mapsto> x\<lparr>sp_pending := insert c (sp_pending x)\<rparr>))"
proof (rule spec_ok_upd [OF ok])
  let ?y = "x\<lparr>sp_pending := insert c (sp_pending x)\<rparr>"
  note x = spec_okD [OF ok p]
  have ids: "sp_ids ?y = insert c (sp_ids x)" by (simp add: sp_ids_def)
  show "sp_ids ?y \<inter> sp_ids z = {}" if "\<sigma> q = Some z" "q \<noteq> p" for q z
    using x(4) [OF that(1)] that fresh [OF that(1)] by (auto simp: ids)
  show "sp_pending ?y \<inter> comp_cmd_id ` set (sp_unread ?y) = {}" using x(2) fresh [OF p] by (auto simp: sp_ids_def)
qed (use spec_okD [OF ok p] in auto)

text \<open>The steps that move an identifier on from in flight to reported and from there to user space.\<close>

lemma spec_ok_completes:
  assumes ok: "spec_ok \<sigma>" and p: "\<sigma> p = Some x" and c: "comp_cmd_id c \<in> sp_pending x"
  shows "spec_ok (\<sigma>(p \<mapsto> x\<lparr>sp_pending := sp_pending x - {comp_cmd_id c}, sp_unread := push_bounded c (sp_unread x)\<rparr>))"
proof -
  note x = spec_okD(1,2) [OF ok p]
  let ?y = "x\<lparr>sp_pending := sp_pending x - {comp_cmd_id c}, sp_unread := push_bounded c (sp_unread x)\<rparr>"
  have new: "comp_cmd_id c \<notin> comp_cmd_id ` set (sp_unread x)" using x(2) c by auto
  have sub: "sp_ids ?y \<subseteq> sp_ids x" using push_bounded_set [of c "sp_unread x"] c by (auto simp: sp_ids_def)
  show ?thesis
  proof (rule spec_ok_less [OF ok p sub])
    show "distinct (map comp_cmd_id (sp_unread ?y))"
      using x(1) new by (simp add: push_bounded_def drop_map [symmetric] distinct_drop del: drop_append)
    show "sp_pending ?y \<inter> comp_cmd_id ` set (sp_unread ?y) = {}"
      using x(2) push_bounded_set [of c "sp_unread x"] by auto
    show "length (sp_unread ?y) \<le> COMP_RING_SIZE" by (simp add: push_bounded_def del: drop_append)
  qed simp
qed

lemma spec_ok_reads:
  assumes ok: "spec_ok \<sigma>" and p: "\<sigma> p = Some x"
  shows "spec_ok (\<sigma>(p \<mapsto> x\<lparr>sp_unread := drop n (sp_unread x)\<rparr>))"
proof (rule spec_ok_less [OF ok p])
  let ?y = "x\<lparr>sp_unread := drop n (sp_unread x)\<rparr>"
  show "sp_ids ?y \<subseteq> sp_ids x" by (auto simp: sp_ids_def dest: in_set_dropD)
  show "sp_pending ?y \<inter> comp_cmd_id ` set (sp_unread ?y) = {}"
    using spec_okD(2) [OF ok p] set_drop_subset [of n "sp_unread x"] by auto
qed (use spec_okD(1-3) [OF ok p] in \<open>simp_all add: drop_map [symmetric] distinct_drop\<close>)

lemma spec_ok_step: "spec_step \<sigma> \<sigma>' \<Longrightarrow> spec_ok \<sigma> \<Longrightarrow> spec_ok \<sigma>'"
proof (induction rule: spec_step.induct)
  case (sp_opens \<sigma> p)
  then show ?case by (intro spec_ok_upd) (auto simp: new_session_def sp_ids_def)
next
  case (sp_closes \<sigma> p x)
  with spec_okD(1-3) [OF sp_closes(3,1)] show ?case by (intro spec_ok_less [OF sp_closes(3,1)]) (simp_all add: sp_ids_def)
next
  case (sp_frees \<sigma> p x)
  note D = spec_okD [OF sp_frees(4)]
  show ?case by (rule spec_okI) (use D in \<open>auto split: if_splits\<close>)
qed (blast intro: spec_ok_allocs spec_ok_admits spec_ok_completes spec_ok_reads)+

lemma spec_reach_ok: "spec_reach \<sigma> \<Longrightarrow> spec_ok \<sigma>"
proof (induction rule: spec_reach.induct)
  case spec_boot
  show ?case by (simp add: spec_ok_def)
qed (rule spec_ok_step)

section \<open>The driver's sessions, abstractly\<close>

text \<open>The command the interrupt handler has taken out of the table and not delivered yet.\<close>

fun held :: "sess_ptr \<Rightarrow> ipc \<Rightarrow> u64 set" where
  "held p (IDeliver q cpl tail) = (if q = p then {comp_cmd_id cpl} else {})"
| "held p i = {}"

definition table_ids :: "sess_ptr \<Rightarrow> dma_accel_cmd_ctx list \<Rightarrow> u64 set" where
  "table_ids p t = {cc_cmd_id e | e. e \<in> set t \<and> valid_of p e}"

definition owned_slots :: "dma_accel_session \<Rightarrow> nat set" where
  "owned_slots x = {i. i < MAX_BUFFERS \<and> owned_buffers x ! i}"

definition sess_abs :: "sys \<Rightarrow> sess_ptr \<Rightarrow> dma_accel_session \<Rightarrow> session_spec" where
  "sess_abs s p x = \<lparr>sp_open = (p \<in> fds s), sp_owned = owned_slots x,
     sp_pending = table_ids p (cmd_table (kdev (sk s))) \<union> held p (isr s), sp_unread = unread x\<rparr>"

definition sys_abs :: "sys \<Rightarrow> spec_state" where
  "sys_abs s p = map_option (sess_abs s p) (sessions (sk s) p)"

text \<open>A command has one entry, and the one in the handler's hands has none.\<close>

definition entry_inv :: "sys \<Rightarrow> bool" where
  "entry_inv s \<longleftrightarrow> (let t = cmd_table (kdev (sk s)) in
     (\<forall>i < length t. \<forall>j < length t. cc_valid (t ! i) \<longrightarrow> cc_valid (t ! j) \<longrightarrow>
        cc_cmd_id (t ! i) = cc_cmd_id (t ! j) \<longrightarrow> i = j)
     \<and> (\<forall>p. \<forall>c \<in> held p (isr s). \<forall>e \<in> set t. cc_valid e \<longrightarrow> cc_cmd_id e \<noteq> c))"

lemma entry_invD:
  assumes "entry_inv s"
  shows "i < length (cmd_table (kdev (sk s))) \<Longrightarrow> j < length (cmd_table (kdev (sk s))) \<Longrightarrow>
      cc_valid (cmd_table (kdev (sk s)) ! i) \<Longrightarrow> cc_valid (cmd_table (kdev (sk s)) ! j) \<Longrightarrow>
      cc_cmd_id (cmd_table (kdev (sk s)) ! i) = cc_cmd_id (cmd_table (kdev (sk s)) ! j) \<Longrightarrow> i = j"
    and "c \<in> held p (isr s) \<Longrightarrow> e \<in> set (cmd_table (kdev (sk s))) \<Longrightarrow> cc_valid e \<Longrightarrow> cc_cmd_id e \<noteq> c"
  using assms unfolding entry_inv_def Let_def by blast+

lemma entry_invI:
  assumes "\<And>i j. i < length (cmd_table (kdev (sk s))) \<Longrightarrow> j < length (cmd_table (kdev (sk s))) \<Longrightarrow>
      cc_valid (cmd_table (kdev (sk s)) ! i) \<Longrightarrow> cc_valid (cmd_table (kdev (sk s)) ! j) \<Longrightarrow>
      cc_cmd_id (cmd_table (kdev (sk s)) ! i) = cc_cmd_id (cmd_table (kdev (sk s)) ! j) \<Longrightarrow> i = j"
    and "\<And>p c e. c \<in> held p (isr s) \<Longrightarrow> e \<in> set (cmd_table (kdev (sk s))) \<Longrightarrow> cc_valid e \<Longrightarrow> cc_cmd_id e \<noteq> c"
  shows "entry_inv s"
  unfolding entry_inv_def Let_def using assms by blast

lemma entry_inv_frame:
  assumes "entry_inv s" and "cmd_table (kdev (sk s')) = cmd_table (kdev (sk s))"
    and "\<And>p. held p (isr s') \<subseteq> held p (isr s)"
  shows "entry_inv s'"
  by (rule entry_invI; unfold assms(2)) (use entry_invD [OF assms(1)] assms(3) in \<open>blast+\<close>)

lemma entry_inv_admitted:
  assumes inv: "entry_inv s" and "submit_admit p c q (kdev (sk s), x) = Some dev"
    and new: "\<And>e. e \<in> set (cmd_table (kdev (sk s))) \<Longrightarrow> cc_valid e \<Longrightarrow> cc_cmd_id e \<noteq> c"
    and held: "\<And>p. c \<notin> held p (isr s)"
    and s': "cmd_table (kdev (sk s')) = cmd_table dev" "isr s' = isr s"
  shows "entry_inv s'"
proof -
  let ?t = "cmd_table (kdev (sk s))"
  from assms(2) obtain slot where t: "cmd_table dev = ?t[slot := \<lparr>cc_valid = True, cc_cmd_id = c, cc_sess = Some p\<rparr>]"
    by (rule submit_admit_Some) simp
  show ?thesis
  proof (rule entry_invI; unfold s' t length_list_update)
    fix i j
    assume "i < length ?t" "j < length ?t"
      "cc_valid (?t[slot := \<lparr>cc_valid = True, cc_cmd_id = c, cc_sess = Some p\<rparr>] ! i)"
      "cc_valid (?t[slot := \<lparr>cc_valid = True, cc_cmd_id = c, cc_sess = Some p\<rparr>] ! j)"
      "cc_cmd_id (?t[slot := \<lparr>cc_valid = True, cc_cmd_id = c, cc_sess = Some p\<rparr>] ! i)
       = cc_cmd_id (?t[slot := \<lparr>cc_valid = True, cc_cmd_id = c, cc_sess = Some p\<rparr>] ! j)"
    then show "i = j"
      using entry_invD(1) [OF inv, of i j] new [of "?t ! i"] new [of "?t ! j"]
      by (auto simp: nth_update_if split: if_splits)
  next
    fix p' c' e
    assume "c' \<in> held p' (isr s)" "e \<in> set (?t[slot := \<lparr>cc_valid = True, cc_cmd_id = c, cc_sess = Some p\<rparr>])" "cc_valid e"
    then show "cc_cmd_id e \<noteq> c'"
      using entry_invD(2) [OF inv] held set_update_subset_insert [of ?t slot] by fastforce
  qed
qed

lemma entry_inv_routed:
  assumes inv: "entry_inv s" and "isr_route c (kdev (sk s)) = (d, r)"
    and s': "cmd_table (kdev (sk s')) = cmd_table d"
    and isr: "\<And>p. held p (isr s') \<subseteq> {c} \<and> (r = None \<longrightarrow> held p (isr s') = {})"
  shows "entry_inv s'"
  using assms(2)
proof (cases rule: route_cases)
  case none
  then show ?thesis using isr s' by (intro entry_inv_frame [OF inv]) auto
next
  case (entry k)
  let ?t = "cmd_table (kdev (sk s))" and ?t' = "(cmd_table (kdev (sk s)))[k := (cmd_table (kdev (sk s)) ! k)\<lparr>cc_valid := False\<rparr>]"
  have t': "cmd_table d = ?t'" using entry(5) by simp
  have other: "i \<noteq> k \<and> cc_valid (?t ! i) \<and> ?t' ! i = ?t ! i" if "i < length ?t" "cc_valid (?t' ! i)" for i
    using that by (auto simp: nth_update_if split: if_splits)
  show ?thesis
  proof (rule entry_invI; unfold s' t' length_list_update)
    fix i j
    assume ij: "i < length ?t" "j < length ?t" "cc_valid (?t' ! i)" "cc_valid (?t' ! j)"
      "cc_cmd_id (?t' ! i) = cc_cmd_id (?t' ! j)"
    with other [OF ij(1,3)] other [OF ij(2,4)] show "i = j" using entry_invD(1) [OF inv ij(1,2)] by simp
  next
    fix p' c' e
    assume e: "c' \<in> held p' (isr s')" "e \<in> set ?t'" "cc_valid e"
    then obtain i where i: "i < length ?t" "e = ?t' ! i" by (auto simp: in_set_conv_nth)
    have "i \<noteq> k" "cc_valid (?t ! i)" "e = ?t ! i" using other [OF i(1)] e(3) i(2) by auto
    then show "cc_cmd_id e \<noteq> c'"
      using entry_invD(1) [OF inv i(1) entry(1)] entry(2,3) isr [of p'] e(1) by auto
  qed
qed

text \<open>An identifier about to be admitted is unknown to every session.\<close>

lemma fresh_id:
  assumes core: "core_inv n s" and id: "id_inv s" and route: "route_inv s"
    and t: "t < length (thr s)" "thr s ! t = SAt (PQuota q) p req a"
  shows "e \<in> set (cmd_table (kdev (sk s))) \<Longrightarrow> cc_valid e \<Longrightarrow> cc_cmd_id e \<noteq> sub_cmd_id req"
    and "sub_cmd_id req \<notin> held r (isr s)"
    and "sessions (sk s) r = Some x \<Longrightarrow> sub_cmd_id req \<notin> comp_cmd_id ` set (unread x)"
proof -
  have no: "(sub_cmd_id req, r) \<notin> set (issued s)" for r
    using id_invD(4) [OF id t(1)] t(2) by simp
  show "cc_cmd_id e \<noteq> sub_cmd_id req" if e: "e \<in> set (cmd_table (kdev (sk s)))" "cc_valid e"
    using live_invD(1) [OF core_invD(2) [OF core] e] route_invD(2) [OF route e(1)] no e(2)
    by (metis valid_of_def)
  show "sub_cmd_id req \<notin> held r (isr s)"
    using route_invD(3) [OF route] no by (cases "isr s") auto
  show "sub_cmd_id req \<notin> comp_cmd_id ` set (unread x)" if "sessions (sk s) r = Some x"
    using route_invD(1) [OF route that] no by force
qed

lemma entry_inv_step:
  assumes "sys_step s s'" and "core_inv n s" and "id_inv s" and "route_inv s" and "entry_inv s"
  shows "entry_inv s'"
  using assms
proof (induction rule: sys_step.induct)
  case (admitted t s q p req a x dev)
  note new = fresh_id [OF admitted(5-7) admitted(1,2)]
  show ?case by (rule entry_inv_admitted [OF admitted(8,4) new(1,2)]) simp_all
next
  case (routed s tail cpl d p)
  show ?case by (rule entry_inv_routed [OF routed(8) routed(4)]) simp_all
next
  case (unknown s tail cpl d)
  show ?case by (rule entry_inv_routed [OF unknown(8) unknown(4)]) simp_all
next
  case (alloc s p x fu mem tu req ds r)
  then show ?case using buffer_alloc_frame(2) by (intro entry_inv_frame [OF alloc(7)]) (cases ds; force)+
next
  case (numbered t s p req a dev c)
  then show ?case by (intro entry_inv_frame [OF numbered(8)]) (auto simp: next_id_def)
next
  case (freed s p x)
  then show ?case by (intro entry_inv_frame [OF freed(7)]) (simp_all add: release_finish_def Let_def)
qed (auto simp: entry_inv_def Let_def next_id_def sq_write_slot_def sq_ring_doorbell_def)

lemma reachable_entry_inv: "reachable n s \<Longrightarrow> entry_inv s"
proof (induction rule: reachable.induct)
  case reach_boot
  have "\<not> cc_valid (cmd_table (kdev (sk (boot n))) ! i)" if "i < length (cmd_table (kdev (sk (boot n))))" for i
    using that by (simp add: boot_def init_dev_def free_ctx_def)
  then show ?case by (simp add: entry_inv_def)
next
  case (reach_step s s')
  with reachable_core_inv reachable_id_inv reachable_route_inv entry_inv_step show ?case by blast
qed

section \<open>Simulation\<close>

lemma sys_abs_Some: "sys_abs s p = Some y \<longleftrightarrow> (\<exists>x. sessions (sk s) p = Some x \<and> y = sess_abs s p x)"
  by (auto simp: sys_abs_def)

lemma sess_abs_simps [simp]:
  "sp_open (sess_abs s p x) \<longleftrightarrow> p \<in> fds s" "sp_owned (sess_abs s p x) = owned_slots x"
  "sp_pending (sess_abs s p x) = table_ids p (cmd_table (kdev (sk s))) \<union> held p (isr s)"
  "sp_unread (sess_abs s p x) = unread x"
  by (simp_all add: sess_abs_def)

text \<open>Steps the machine does not see.\<close>

lemma sys_abs_cong:
  assumes "cmd_table (kdev (sk s')) = cmd_table (kdev (sk s))" and "fds s' = fds s"
    and "\<And>p. held p (isr s') = held p (isr s)"
    and "\<And>p. map_option (\<lambda>x. (owned_buffers x, unread x)) (sessions (sk s') p)
           = map_option (\<lambda>x. (owned_buffers x, unread x)) (sessions (sk s) p)"
  shows "sys_abs s' = sys_abs s"
proof
  fix p
  show "sys_abs s' p = sys_abs s p"
    using assms(4) [of p] by (auto simp: sys_abs_def sess_abs_def owned_slots_def assms(1-3) map_option_case split: option.splits)
qed

text \<open>Steps that change one session.\<close>

lemma sys_abs_upd:
  assumes "sessions (sk s') = (sessions (sk s))(p \<mapsto> x')"
    and "\<And>q. q \<noteq> p \<Longrightarrow> table_ids q (cmd_table (kdev (sk s'))) \<union> held q (isr s')
           = table_ids q (cmd_table (kdev (sk s))) \<union> held q (isr s)"
    and "\<And>q. q \<noteq> p \<Longrightarrow> q \<in> fds s' \<longleftrightarrow> q \<in> fds s"
  shows "sys_abs s' = (sys_abs s)(p \<mapsto> sess_abs s' p x')"
  using assms by (auto simp: sys_abs_def sess_abs_def fun_eq_iff map_option_case split: option.splits)

lemma card_owned_slots: "wf_session x \<Longrightarrow> card (owned_slots x) = bitmap_weight (owned_buffers x)"
  by (simp add: owned_slots_def bitmap_weight_def count_if_def wf_session_def length_filter_conv_card)

lemma sim_alloc:
  assumes inv: "mem_inv (sk s)" and x: "sessions (sk s) p = Some x" and p: "p \<in> fds s"
    and run: "dma_accel_ioc_buffer_alloc fu mem tu p req (kdev (sk s), x) = (ds, r)"
    and s': "s' = s\<lparr>sk := put_session (sk s) p ds\<rparr>"
  shows "sys_abs s' = sys_abs s \<or> spec_step (sys_abs s) (sys_abs s')"
proof -
  obtain d x' where ds: "ds = (d, x')" by (cases ds)
  note run = run [unfolded ds]
  note fr = buffer_alloc_frame [OF run]
  have un: "unread x' = unread x" by (rule unread_cong) (simp_all add: fr)
  have own: "own_inv (sk s)" using inv by (simp add: mem_inv_def)
  note wf = mem_inv_wf(1) [OF inv] mem_inv_wf(2) [OF inv x]
  have upd: "sys_abs s' = (sys_abs s)(p \<mapsto> sess_abs s' p x')"
    by (rule sys_abs_upd) (simp_all add: s' ds fr)
  show ?thesis
  proof (cases r)
    case (Inr req')
    from run [unfolded this] obtain slot where slot: "first_index (\<lambda>b. \<not> be_in_use b) (buffers (kdev (sk s))) = Some slot"
      "bitmap_weight (owned_buffers x) < DEFAULT_BUFFER_QUOTA"
      "x' = x\<lparr>owned_buffers := (owned_buffers x)[slot := True]\<rparr>" by (rule buffer_alloc_Inr) simp
    note free = free_slot_range [OF wf(1) slot(1)]
    have "slot \<notin> all_owned (sys_abs s)"
      using own_invD [OF own free(1)] free(2) by (auto simp: all_owned_def ran_def sys_abs_Some owned_slots_def)
    moreover have "sess_abs s' p x' = (sess_abs s p x)\<lparr>sp_owned := insert slot (owned_slots x)\<rparr>"
      using free(1) wf(2) un by (auto simp: sess_abs_def s' ds fr owned_slots_def slot(3) nth_update_if wf_session_def)
    ultimately show ?thesis
      using sp_allocs [of "sys_abs s" p "sess_abs s p x" slot] free(1) x p slot(2) card_owned_slots [OF wf(2)]
      by (simp add: upd sys_abs_Some)
  next
    case (Inl e)
    from buffer_alloc_Inl [OF run [unfolded this]] have "owned_slots x' = owned_slots x"
    proof
      assume "\<exists>slot entry. first_index (\<lambda>b. \<not> be_in_use b) (buffers (kdev (sk s))) = Some slot \<and> e = EFAULT
         \<and> \<not> be_in_use entry \<and> be_owner entry = None \<and> d = (kdev (sk s))\<lparr>buffers := (buffers (kdev (sk s)))[slot := entry]\<rparr>
         \<and> x' = x\<lparr>owned_buffers := (owned_buffers x)[slot := False]\<rparr>"
      then obtain slot where slot: "first_index (\<lambda>b. \<not> be_in_use b) (buffers (kdev (sk s))) = Some slot"
        "x' = x\<lparr>owned_buffers := (owned_buffers x)[slot := False]\<rparr>" by blast
      note free = free_slot_range [OF wf(1) slot(1)]
      have "\<not> owned_buffers x ! slot" using own_invD [OF own free(1)] free(2) x by auto
      then show ?thesis by (auto simp: owned_slots_def slot(2) nth_update_if split: if_splits)
    qed simp
    then have "sess_abs s' p x' = sess_abs s p x" using un by (simp add: sess_abs_def s' ds fr)
    then have "sys_abs s' = sys_abs s" using upd x by (simp add: sys_abs_def fun_eq_iff)
    then show ?thesis by simp
  qed
qed

lemma chr_read_loop_drop:
  "wf_session x \<Longrightarrow> chr_read_loop tu c n x = (x', outs, f) \<Longrightarrow> \<exists>m. unread x' = drop m (unread x)"
proof (induction n arbitrary: x c outs f)
  case 0
  then show ?case by (auto intro: exI [of _ 0])
next
  case (Suc n)
  show ?case
  proof (cases "comp_head x = comp_tail x")
    case True
    with Suc.prems show ?thesis by (auto intro: exI [of _ 0])
  next
    case False
    let ?x = "x\<lparr>comp_head := comp_head x + 1\<rparr>"
    have wf: "wf_session ?x" using Suc.prems(1) counter_gap_pop [OF False] by (simp add: wf_session_def)
    have tl: "unread ?x = drop 1 (unread x)"
      using ring_list_hd(2) [OF comp_ring_fits [OF Suc.prems(1)] False] by (simp add: unread_def drop_Suc)
    show ?thesis
    proof (cases "tu c")
      case True
      with False Suc.prems(2) obtain outs' where "chr_read_loop tu (Suc c) n ?x = (x', outs', f)"
        by (auto simp: Let_def split: prod.splits)
      from Suc.IH [OF wf this] tl show ?thesis by (auto simp: drop_drop)
    next
      assume "\<not> tu c"
      with False Suc.prems(2) have "x' = ?x" by (simp add: Let_def)
      with tl show ?thesis by blast
    qed
  qed
qed

lemma chr_read_drop:
  assumes "wf_session x" and "dma_accel_chr_read tu n pos x = (x', r)"
  shows "\<exists>m. unread x' = drop m (unread x)"
  using assms(2) exI [of "\<lambda>m. unread x = drop m (unread x)" 0]
  by (auto simp: dma_accel_chr_read_def Let_def split: if_splits prod.splits dest: chr_read_loop_drop [OF assms(1)])

lemma sim_read:
  assumes wf: "wf_session x" and x: "sessions (sk s) p = Some x" and p: "p \<in> fds s"
    and run: "dma_accel_chr_read tu n 0 x = (x', r)"
  shows "spec_step (sys_abs s) (sys_abs (set_sess p x' s))"
proof -
  from chr_read_drop [OF wf run] obtain m where m: "unread x' = drop m (unread x)" ..
  have upd: "sys_abs (set_sess p x' s) = (sys_abs s)(p \<mapsto> sess_abs (set_sess p x' s) p x')" by (rule sys_abs_upd) simp_all
  have "sess_abs (set_sess p x' s) p x' = (sess_abs s p x)\<lparr>sp_unread := drop m (sp_unread (sess_abs s p x))\<rparr>"
    using chr_read_session(2) [OF wf run] m by (simp add: sess_abs_def owned_slots_def)
  then show ?thesis unfolding upd
    using sp_reads [of "sys_abs s" p "sess_abs s p x" m] x p by (simp add: sys_abs_Some)
qed

text \<open>The elements with a property, when an element without it is overwritten.\<close>

lemma set_update_filter:
  assumes "i < length xs" and "\<not> P (xs ! i)"
  shows "{e \<in> set (xs[i := y]). P e} = {e \<in> set xs. P e} \<union> (if P y then {y} else {})"
proof -
  have "set xs = set (take i xs) \<union> {xs ! i} \<union> set (drop (Suc i) xs)"
    using arg_cong [OF id_take_nth_drop [OF assms(1)], of set] by auto
  moreover have "set (xs[i := y]) = set (take i xs) \<union> {y} \<union> set (drop (Suc i) xs)"
    using arg_cong [OF upd_conv_take_nth_drop [OF assms(1), of y], of set] by auto
  ultimately show ?thesis using assms(2) by auto
qed

lemma table_ids_alt: "table_ids p t = cc_cmd_id ` {e \<in> set t. valid_of p e}"
  by (auto simp: table_ids_def)

lemma table_ids_admit:
  assumes "submit_admit p c q (d, x) = Some d'"
  shows "table_ids r (cmd_table d') = table_ids r (cmd_table d) \<union> (if r = p then {c} else {})"
proof -
  let ?new = "\<lparr>cc_valid = True, cc_cmd_id = c, cc_sess = Some p\<rparr>"
  from assms obtain slot where slot: "first_index (\<lambda>c. \<not> cc_valid c) (cmd_table d) = Some slot"
    "d' = d\<lparr>cmd_table := (cmd_table d)[slot := ?new]\<rparr>" by (rule submit_admit_Some)
  note i = first_index_SomeD [OF slot(1)]
  have nv: "\<not> valid_of r (cmd_table d ! slot)" using i(2) by (simp add: valid_of_def)
  show ?thesis unfolding table_ids_alt using set_update_filter [of slot "cmd_table d" "valid_of r" ?new] i(1) nv
    by (simp add: slot(2) valid_of_def)
qed

lemma card_all_pending:
  assumes "wf_dev (kdev (sk s))" and "submit_admit p c q (kdev (sk s), x) = Some d'"
  shows "card (all_pending (sys_abs s)) \<le> MAX_INFLIGHT_CMDS"
proof -
  let ?t = "cmd_table (kdev (sk s))" and ?h = "case isr s of IDeliver q cpl tail \<Rightarrow> {comp_cmd_id cpl} | _ \<Rightarrow> {}"
  let ?ids = "cc_cmd_id ` set (filter cc_valid ?t)"
  have "held r (isr s) \<subseteq> ?h" for r by (cases "isr s") auto
  then have "all_pending (sys_abs s) \<subseteq> ?ids \<union> ?h"
    by (fastforce simp: all_pending_def ran_def sys_abs_Some table_ids_def valid_of_def)
  then have "card (all_pending (sys_abs s)) \<le> card (?ids \<union> ?h)"
    by (rule card_mono [rotated]) (auto split: ipc.splits)
  also have "\<dots> \<le> card ?ids + card ?h" by (rule card_Un_le)
  also have "card ?ids \<le> count_if cc_valid ?t"
    unfolding count_if_def by (rule order_trans [OF card_image_le card_length]) simp
  also have "card ?h \<le> 1" by (cases "isr s") auto
  finally have "card (all_pending (sys_abs s)) \<le> count_if cc_valid ?t + 1" by simp
  moreover have "Suc (count_if cc_valid ?t) \<le> length (cmd_table d')"
    using admit_table(1) [OF assms(2)] count_if_le_length [of cc_valid "cmd_table d'"] by simp
  moreover have "length (cmd_table d') = MAX_INFLIGHT_CMDS"
    using assms(1) submit_admit_Some [OF assms(2)] by (fastforce simp: wf_dev_def)
  ultimately show ?thesis by simp
qed

lemma sim_admit:
  assumes core: "core_inv n s" and id: "id_inv s" and route: "route_inv s"
    and t: "t < length (thr s)" "thr s ! t = SAt (PQuota q) p req a"
    and x: "sessions (sk s) p = Some x" and adm: "submit_admit p (sub_cmd_id req) q (kdev (sk s), x) = Some dev"
    and s': "sk s' = (sk s)\<lparr>kdev := dev\<rparr>" "fds s' = fds s" "isr s' = isr s"
  shows "spec_step (sys_abs s) (sys_abs s')"
proof -
  let ?c = "sub_cmd_id req"
  note new = fresh_id [OF core id route t]
  have p: "p \<in> fds s" using live_invD(3) [OF core_invD(2) [OF core] nth_mem [OF t(1)]] t(2) by simp
  have upd: "sys_abs s' = (sys_abs s)(p \<mapsto> sess_abs s' p x)"
    by (rule sys_abs_upd) (use x in \<open>auto simp: s' table_ids_admit [OF adm]\<close>)
  have "sess_abs s' p x = (sess_abs s p x)\<lparr>sp_pending := insert ?c (sp_pending (sess_abs s p x))\<rparr>"
    by (simp add: sess_abs_def s' table_ids_admit [OF adm])
  moreover have "?c \<notin> sp_ids y" if y: "sys_abs s r = Some y" for r y
  proof -
    obtain z where z: "sessions (sk s) r = Some z" "y = sess_abs s r z" using y by (auto simp: sys_abs_Some)
    have "?c \<notin> table_ids r (cmd_table (kdev (sk s)))" using new(1) by (force simp: table_ids_def valid_of_def)
    with new(2) new(3) [OF z(1)] z(2) show ?thesis by (simp add: sp_ids_def)
  qed
  moreover have "card (all_pending (sys_abs s)) \<le> MAX_INFLIGHT_CMDS"
    by (rule card_all_pending [OF mem_inv_wf(1) [OF core_invD(1) [OF core]] adm])
  ultimately show ?thesis unfolding upd
    using sp_admits [of "sys_abs s" p "sess_abs s p x" ?c] x p by (simp add: sys_abs_Some)
qed

text \<open>Routing moves a command from the table into the handler's hands, which the machine does not see.\<close>

lemma sim_route:
  assumes "isr_route c (kdev (sk s)) = (d, Some p)" and "comp_cmd_id cpl = c" and "\<And>q. held q (isr s) = {}"
    and s': "sk s' = (sk s)\<lparr>kdev := d\<rparr>" "fds s' = fds s" "isr s' = IDeliver p cpl tail"
  shows "sys_abs s' = sys_abs s"
proof -
  let ?t = "cmd_table (kdev (sk s))"
  from assms(1) obtain i where i: "i < length ?t" "cc_valid (?t ! i)" "cc_cmd_id (?t ! i) = c" "cc_sess (?t ! i) = Some p"
      "cmd_table d = ?t[i := (?t ! i)\<lparr>cc_valid := False\<rparr>]" by (cases rule: route_cases) auto
  have ids: "table_ids q (cmd_table d) \<union> held q (IDeliver p cpl tail) = table_ids q ?t" for q
  proof -
    have restore: "(cmd_table d)[i := ?t ! i] = ?t" by (simp add: i(5))
    have "\<not> valid_of q (cmd_table d ! i)" using i(1) by (simp add: i(5) valid_of_def)
    from set_update_filter [of i "cmd_table d" "valid_of q", OF _ this, of "?t ! i"] i(1-4)
    show ?thesis by (auto simp: table_ids_alt restore valid_of_def i(5) assms(2))
  qed
  show ?thesis
    by (simp add: fun_eq_iff sys_abs_def sess_abs_def s' assms(3) ids map_option_case del: held.simps split: option.splits)
qed

lemma sim_deliver:
  assumes entry: "entry_inv s" and isr: "isr s = IDeliver p cpl tail"
    and x: "sessions (sk s) p = Some x" and wf: "wf_session x"
  shows "spec_step (sys_abs s) (sys_abs ((set_sess p (isr_deliver cpl x) s)\<lparr>isr := IDec p tail\<rparr>))"
proof -
  let ?s = "(set_sess p (isr_deliver cpl x) s)\<lparr>isr := IDec p tail\<rparr>" and ?x = "isr_deliver cpl x"
  let ?t = "cmd_table (kdev (sk s))"
  have upd: "sys_abs ?s = (sys_abs s)(p \<mapsto> sess_abs ?s p ?x)" by (rule sys_abs_upd) (simp_all add: isr)
  have len: "length (unread x) \<le> COMP_RING_SIZE" using wf by (simp add: unread_def wf_session_def)
  then have "unread ?x = push_bounded cpl (unread x)"
    using isr_deliver_unread [OF wf, of cpl] by (auto simp: push_bounded_def drop_Suc accel_simps le_Suc_eq split: if_splits)
  moreover have "comp_cmd_id cpl \<notin> table_ids p ?t"
    using entry_invD(2) [OF entry, of "comp_cmd_id cpl" p] isr by (force simp: table_ids_def valid_of_def)
  moreover have "owned_slots ?x = owned_slots x" by (simp add: owned_slots_def isr_deliver_def Let_def)
  ultimately have "sess_abs ?s p ?x = (sess_abs s p x)\<lparr>
      sp_pending := sp_pending (sess_abs s p x) - {comp_cmd_id cpl}, sp_unread := push_bounded cpl (unread x)\<rparr>"
    by (simp add: sess_abs_def isr)
  then show ?thesis unfolding upd
    using sp_completes [of "sys_abs s" p "sess_abs s p x" cpl] x isr by (simp add: sys_abs_Some)
qed

lemma sim_open:
  assumes live: "live_inv s" and new: "sessions (sk s) p = None"
    and s': "s' = s\<lparr>sk := fst (dma_accel_chr_open (Some p) (sk s)), fds := insert p (fds s)\<rparr>"
  shows "spec_step (sys_abs s) (sys_abs s')"
proof -
  have upd: "sys_abs s' = (sys_abs s)(p \<mapsto> sess_abs s' p init_session)" by (rule sys_abs_upd) (simp_all add: s')
  have "table_ids p (cmd_table (kdev (sk s))) = {}"
    using live_invD(1) [OF live] new by (force simp: table_ids_def valid_of_def)
  moreover have "held p (isr s) = {}"
    using live_invD(2) [OF live, of p] new by (cases "isr s") auto
  moreover have "owned_slots init_session = {}" by (auto simp: owned_slots_def init_session_def)
  ultimately have "sess_abs s' p init_session = new_session" by (simp add: sess_abs_def s' new_session_def)
  then show ?thesis unfolding upd using sp_opens [of "sys_abs s" p] new by (simp add: sys_abs_def)
qed

lemma sim_free:
  assumes core: "core_inv n s" and x: "sessions (sk s) p = Some x" "p \<notin> fds s" "inflight x \<le> 0"
    and s': "s' = s\<lparr>sk := fst (release_finish p x (sk s)), issued := xs\<rparr>"
  shows "spec_step (sys_abs s) (sys_abs s')"
proof -
  note dr = drained_session [OF core_invD(2,3) [OF core] x]
  have "table_ids p (cmd_table (kdev (sk s))) = {}" using dr(1) by (auto simp: count_if_zero_iff table_ids_def)
  moreover have "held p (isr s) = {}" using dr(2) by (cases "isr s") (auto split: if_splits)
  moreover have "sys_abs s' = (sys_abs s)(p := None)"
    by (auto simp: fun_eq_iff sys_abs_def sess_abs_def s' release_finish_def Let_def map_option_case split: option.splits)
  ultimately show ?thesis using sp_frees [of "sys_abs s" p "sess_abs s p x"] x by (simp add: sys_abs_Some)
qed

lemma sim_step:
  assumes "sys_step s s'" and "core_inv n s" and "id_inv s" and "route_inv s" and "entry_inv s"
  shows "sys_abs s' = sys_abs s \<or> spec_step (sys_abs s) (sys_abs s')"
  using assms
proof (induction rule: sys_step.induct)
  case (opened s p)
  then show ?case using sim_open core_invD(2) by blast
next
  case (alloc s p x fu mem tu req ds r)
  show ?case by (rule sim_alloc [OF core_invD(1) [OF alloc(4)] alloc(1-3)]) simp
next
  case (read s p x tu n x' r)
  then show ?case using sim_read mem_inv_wf(2) core_invD(1) by blast
next
  case (admitted t s q p req a x dev)
  show ?case by (intro disjI2 sim_admit [OF admitted(5-7,1-4)]) simp_all
next
  case (routed s tail cpl d p)
  show ?case by (intro disjI1 sim_route [OF routed(4) refl]) (simp_all add: routed(1))
next
  case (unknown s tail cpl d)
  have "d = kdev (sk s)"
    using route_None [OF unknown(4), of "\<lambda>p. p \<in> dom (sessions (sk s))"] core_invD(2) [OF unknown(5)]
    by (simp add: live_inv_def)
  then show ?case by (intro disjI1 sys_abs_cong) (simp_all add: unknown(1))
next
  case (delivered s p cpl tail x)
  then show ?case using sim_deliver mem_inv_wf(2) core_invD(1) by blast
next
  case (closing p s)
  let ?s = "s\<lparr>sk := release_begin (sk s), fds := fds s - {p}\<rparr>"
  obtain x where x: "sessions (sk s) p = Some x" using live_invD(4) [OF core_invD(2) [OF closing(3)] closing(1)] by auto
  have upd: "sys_abs ?s = (sys_abs s)(p \<mapsto> sess_abs ?s p x)" by (rule sys_abs_upd) (use x in auto)
  have eq: "sess_abs ?s p x = (sess_abs s p x)\<lparr>sp_open := False\<rparr>" by (simp add: sess_abs_def)
  have "spec_step (sys_abs s) (sys_abs ?s)"
    unfolding upd eq by (rule sp_closes) (use x closing(1) in \<open>simp_all add: sys_abs_Some\<close>)
  then show ?case ..
next
  case (freed s p x)
  show ?case by (rule disjI2, rule sim_free [OF freed(4,1-3)]) simp
next
  case (numbered t s p req a dev c)
  then show ?case by (intro disjI1 sys_abs_cong) (auto simp: next_id_def)
next
  case (counted t s p req a x)
  then show ?case by (intro disjI1 sys_abs_cong) (simp_all add: session_inflight_inc_def unread_def)
next
  case (decremented s p tail x)
  then show ?case by (intro disjI1 sys_abs_cong) (simp_all add: session_inflight_dec_def unread_def)
next
  case (advanced s tail)
  then show ?case by (intro disjI1 sys_abs_cong) simp_all
qed (intro disjI1 sys_abs_cong; simp add: sq_write_slot_def sq_ring_doorbell_def)+

section \<open>Refinement\<close>

text \<open>
  A machine refines another along an abstraction function when each of its steps is a step of the
  other or invisible, as long as an invariant of the first holds.
\<close>

locale refinement =
  fixes step :: "'s \<Rightarrow> 's \<Rightarrow> bool" and ok :: "'s \<Rightarrow> bool"
    and spec :: "'a \<Rightarrow> 'a \<Rightarrow> bool" and abs :: "'s \<Rightarrow> 'a"
  assumes ok_step: "step s s' \<Longrightarrow> ok s \<Longrightarrow> ok s'"
    and simulated: "step s s' \<Longrightarrow> ok s \<Longrightarrow> abs s' = abs s \<or> spec (abs s) (abs s')"
begin

lemma runs_simulated:
  assumes "step\<^sup>*\<^sup>* s s'" and "ok s"
  shows "ok s'" and "spec\<^sup>*\<^sup>* (abs s) (abs s')"
proof -
  from assms have "ok s' \<and> spec\<^sup>*\<^sup>* (abs s) (abs s')"
  proof (induction rule: rtranclp_induct)
    case (step y z)
    then show ?case using ok_step simulated [of y z] by (metis rtranclp.rtrancl_into_rtrancl)
  qed simp
  then show "ok s'" and "spec\<^sup>*\<^sup>* (abs s) (abs s')" by simp_all
qed

lemma invariant_transfer:
  assumes "step\<^sup>*\<^sup>* s s'" and "ok s" and "I (abs s)" and keep: "\<And>\<sigma> \<sigma>'. spec \<sigma> \<sigma>' \<Longrightarrow> I \<sigma> \<Longrightarrow> I \<sigma>'"
  shows "I (abs s')"
  using runs_simulated(2) [OF assms(1,2)] assms(3) by (induction rule: rtranclp_induct) (auto intro: keep)

end

definition drv_inv :: "nat \<Rightarrow> sys \<Rightarrow> bool" where
  "drv_inv n s \<longleftrightarrow> core_inv n s \<and> id_inv s \<and> route_inv s \<and> entry_inv s"

lemma reachable_drv_inv: "reachable n s \<Longrightarrow> drv_inv n s"
  by (simp add: drv_inv_def reachable_core_inv reachable_id_inv reachable_route_inv reachable_entry_inv)

interpretation drv_ref: refinement sys_step "drv_inv n" spec_step sys_abs for n
proof
  fix s s' assume "sys_step s s'" and "drv_inv n s"
  then show "drv_inv n s'"
    unfolding drv_inv_def using core_inv_step id_inv_step route_inv_step entry_inv_step core_invD by blast
next
  fix s s' assume "sys_step s s'" and "drv_inv n s"
  then show "sys_abs s' = sys_abs s \<or> spec_step (sys_abs s) (sys_abs s')"
    using sim_step unfolding drv_inv_def by blast
qed

lemma reachable_rtranclp: "reachable n s \<longleftrightarrow> sys_step\<^sup>*\<^sup>* (boot n) s"
proof
  show "reachable n s \<Longrightarrow> sys_step\<^sup>*\<^sup>* (boot n) s"
    by (induction rule: reachable.induct) (auto intro: rtranclp.rtrancl_into_rtrancl)
  show "sys_step\<^sup>*\<^sup>* (boot n) s \<Longrightarrow> reachable n s"
    by (induction rule: rtranclp_induct) (auto intro: reachable.intros)
qed

lemma sys_abs_boot: "sys_abs (boot n) = Map.empty"
  by (simp add: sys_abs_def fun_eq_iff)

lemma spec_reach_rtranclp: "spec_step\<^sup>*\<^sup>* \<sigma> \<sigma>' \<Longrightarrow> spec_reach \<sigma> \<Longrightarrow> spec_reach \<sigma>'"
  by (induction rule: rtranclp_induct) (auto intro: spec_next)

lemma reachable_spec_reach: "reachable n s \<Longrightarrow> spec_reach (sys_abs s)"
  using drv_ref.runs_simulated(2) [of "boot n" s n] reachable_drv_inv [OF reach_boot]
  by (auto simp: reachable_rtranclp sys_abs_boot intro: spec_reach_rtranclp spec_boot)

lemma reachable_spec_ok:
  assumes "reachable n s"
  shows "spec_ok (sys_abs s)"
proof (rule drv_ref.invariant_transfer [of "boot n" s n spec_ok, OF _ reachable_drv_inv [OF reach_boot]])
  show "sys_step\<^sup>*\<^sup>* (boot n) s" using assms by (simp add: reachable_rtranclp)
  show "spec_ok (sys_abs (boot n))" by (simp add: sys_abs_boot spec_ok_def)
qed (rule spec_ok_step)

end
