(* ===== verification/Driver_Refinement.thy ===== *)
theory Driver_Refinement
  imports Driver_Spec Driver_Correct
begin

text \<open>
  The driver against its abstract machine: every interleaving is a run of the machine, and what
  the machine guarantees about identifiers is read back at the level of the driver's tables. The
  last property is the type of the whole state.
\<close>





text \<open>
  C9: the state keeps its type. In every reachable state the tables and rings have their declared
  sizes, each session's bitmap and ring too, and no ring holds more than it has room for; a thread
  inside \<^verbatim>\<open>ioctl(SUBMIT)\<close> is in a session whose file is open, an open file has a session, and a valid
  command-table entry points to one.
\<close>

theorem driver_state_typed:
  assumes "reachable n s"
  shows "wf_dev (kdev (sk s)) \<and> (\<forall>p x. sessions (sk s) p = Some x \<longrightarrow> wf_session x)
     \<and> length (thr s) = n \<and> fds s \<subseteq> dom (sessions (sk s))
     \<and> (\<forall>pc \<in> set (thr s). \<forall>p. at_session p pc \<longrightarrow> p \<in> fds s)
     \<and> (\<forall>e \<in> set (cmd_table (kdev (sk s))). cc_valid e \<longrightarrow>
          (\<exists>p \<in> dom (sessions (sk s)). cc_sess e = Some p))"
proof -
  note core = reachable_core_inv [OF assms]
  have "wf_dev (kdev (sk s))" "\<forall>p x. sessions (sk s) p = Some x \<longrightarrow> wf_session x"
    using mem_inv_wf [OF core_invD(1) [OF core]] by blast+
  with core_invD(2,5) [OF core] show ?thesis unfolding live_inv_def by blast
qed

theorem driver_state_typed_witness:
  "wf_dev (kdev (sk (after 2 run_setup))) \<and> length (thr (after 2 run_setup)) = 2
   \<and> length (owned_buffers (the (sessions (sk (after 2 run_setup)) 1))) = MAX_BUFFERS"
proof -
  let ?s = "after 2 run_setup"
  have "sessions (sk ?s) 1 \<noteq> None" by code_simp
  with driver_state_typed [OF reachable_after, of 2 run_setup] show ?thesis by (auto simp: wf_session_def)
qed

end
