(* ===== verification/Driver_Atomic.thy ===== *)
theory Driver_Atomic
  imports Driver_Correct
begin

text \<open>
  The two readings of the driver agree. The handlers are functions; the interleaved system cuts them
  into sections. When no other action comes in between, the sections of a call run to the same
  state as the function: the interleaved system adds interference and nothing else.
\<close>

section \<open>The interrupt handler\<close>

lemma sys_run_append: "sys_run (as @ bs) s = Option.bind (sys_run as s) (sys_run bs)"
proof (induction "as" arbitrary: s)
  case (Cons a "as")
  then show ?case by (cases "sys_act a s") simp_all
qed simp

lemma isr_body_run:
  assumes isr: "isr s = ILoop tail" and ne: "cq_head (kdev (sk s)) \<noteq> tail"
    and run: "isr_completion (cq_buf (kdev (sk s)) ! (unat (cq_head (kdev (sk s))) mod DMA_ACCEL_QUEUE_DEPTH)) (sk s) = Some k"
  shows "\<exists>m. sys_run (replicate m AIsr) s = Some (s\<lparr>sk := cq_head_inc k\<rparr>)"
  using run
proof (cases rule: isr_completion_cases)
  case (unknown d)
  then have "sys_run (replicate 2 AIsr) s = Some (s\<lparr>sk := cq_head_inc k\<rparr>)"
    using isr ne by (auto simp: numeral_eq_Suc Let_def set_dev_def intro!: sys.equality)
  then show ?thesis ..
next
  case (routed d p x)
  then have "sys_run (replicate 6 AIsr) s = Some (s\<lparr>sk := cq_head_inc k\<rparr>)"
    using isr ne
    by (auto simp: numeral_eq_Suc Let_def set_dev_def set_sess_def cq_head_inc_def intro!: sys.equality kstate.equality)
  then show ?thesis ..
qed

lemma isr_drain_run:
  "isr_drain tail k = Some k' \<Longrightarrow> isr s = ILoop tail \<Longrightarrow> sk s = k \<Longrightarrow>
   \<exists>m. sys_run (replicate m AIsr) s = Some (s\<lparr>sk := k'\<rparr>)"
proof (induction tail k arbitrary: s rule: isr_drain.induct)
  case (1 tail k)
  show ?case
  proof (cases "cq_head (kdev k) = tail")
    case True
    with 1(2) have "k' = k" by (subst (asm) isr_drain.simps) simp
    with 1(4) show ?thesis by (intro exI [of _ 0]) simp
  next
    case False
    from isr_drain_cases [OF 1(2) False] obtain k1 where k1:
      "isr_completion (cq_buf (kdev k) ! (unat (cq_head (kdev k)) mod DMA_ACCEL_QUEUE_DEPTH)) k = Some k1"
      "isr_drain tail (cq_head_inc k1) = Some k'" .
    obtain m where m: "sys_run (replicate m AIsr) s = Some (s\<lparr>sk := cq_head_inc k1\<rparr>)"
      using isr_body_run [OF 1(3), of k1] False k1(1) 1(4) by auto
    from 1(1) [OF False k1, of "s\<lparr>sk := cq_head_inc k1\<rparr>"] 1(3) obtain m' where
      "sys_run (replicate m' AIsr) (s\<lparr>sk := cq_head_inc k1\<rparr>) = Some (s\<lparr>sk := k'\<rparr>)" by auto
    with m have "sys_run (replicate (m + m') AIsr) s = Some (s\<lparr>sk := k'\<rparr>)"
      by (simp add: replicate_add sys_run_append)
    then show ?thesis ..
  qed
qed

lemma irq_handler_run:
  assumes idle: "isr s = IIdle" and act: "uapi_active (kdev (sk s))" and st: "status \<noteq> 0"
    and run: "dma_accel_irq_handler status tail (sk s) = Some (k, r)"
  shows "\<exists>m. sys_run (AIrq status tail # replicate m AIsr) s = Some (s\<lparr>sk := k\<rparr>)"
proof -
  let ?k0 = "(sk s)\<lparr>kdev := dma_accel_write_reg (kdev (sk s)) REG_IRQ_STATUS status\<rparr>"
  from run act st obtain k' where k': "isr_drain tail ?k0 = Some k'"
    "k = k'\<lparr>kdev := dma_accel_write_reg (kdev k') REG_CQ_HEAD (cq_head (kdev k'))\<rparr>"
    by (auto simp: dma_accel_irq_handler_def Let_def split: option.splits)
  let ?s = "s\<lparr>sk := ?k0, isr := ILoop tail\<rparr>"
  have first: "sys_act (AIrq status tail) s = Some ?s" using idle act st by (simp add: set_dev_def)
  obtain m where m: "sys_run (replicate m AIsr) ?s = Some (?s\<lparr>sk := k'\<rparr>)"
    using isr_drain_run [OF k'(1), of ?s] by auto
  have "sys_run [AIsr] (?s\<lparr>sk := k'\<rparr>) = Some (s\<lparr>sk := k\<rparr>)"
    using isr_drain_head [OF k'(1)] idle by (simp add: k'(2) set_dev_def Let_def)
  with first m have "sys_run (AIrq status tail # replicate m AIsr @ [AIsr]) s = Some (s\<lparr>sk := k\<rparr>)"
    by (simp add: sys_run_append)
  then show ?thesis by (metis replicate_append_same replicate_Suc)
qed

section \<open>A submission\<close>

lemma submit_run:
  assumes t: "t < length (thr s)" "thr s ! t = SIdle" and p: "p \<in> fds s" and x: "sessions (sk s) p = Some x"
    and wrap: "next_cmd_id (kdev (sk s)) \<noteq> - 1"
    and run: "dma_accel_ioc_submit True True [] p req (kdev (sk s), x) = Some (ds, Inr req')"
  shows "sys_run [ASubmit t p req, AId t, AQuota t, AAdmit t, ACount t, ATotal t, AWrite t, ABell t] s
    = Some (s\<lparr>sk := put_session (sk s) p ds, issued := issued s @ [(sub_cmd_id req', p)]\<rparr>)"
proof -
  let ?d = "kdev (sk s)"
  from run obtain src dst src2 where v: "submit_validate p req ?d = Inr (src, dst, src2)"
    by (cases "submit_validate p req ?d") (auto simp: dma_accel_ioc_submit_def)
  let ?c = "next_cmd_id ?d + 1"
  obtain y where y: "submit_loop p ?c [] (?d\<lparr>next_cmd_id := ?c\<rparr>, x) = Some y"
    using run v by (auto simp: dma_accel_ioc_submit_def next_id_def Let_def split: option.splits)
  from submit_loop_nil [OF this] obtain d1 where d1:
    "submit_admit p ?c (admission_quota (active_sessions ?d)) (?d\<lparr>next_cmd_id := ?c\<rparr>, x) = Some d1" "y = ((d1, x), Inr ())"
    by auto
  have ds: "ds = (sq_ring_doorbell (sq_write_slot (total_inflight_inc d1) (sub_opcode req) src dst (sub_len req) ?c src2 (sub_scalar req)),
      session_inflight_inc x)" "req' = req\<lparr>sub_cmd_id := ?c\<rparr>"
    using run v y d1(2) by (simp_all add: dma_accel_ioc_submit_def next_id_def Let_def dma_accel_queue_submit_ext_def)
  have thr: "(thr s)[t := SIdle] = thr s" using t by (metis list_update_id)
  show ?thesis
    using t p x wrap v d1(1) thr
    by (simp add: act_defs next_id_def Let_def set_thr_def set_dev_def set_sess_def ds)
qed



end
