(* ===== verification/Driver_Remove.thy ===== *)
theory Driver_Remove
  imports Driver_Correct
begin

text \<open>
  \<^verbatim>\<open>remove()\<close> against the running system: its three calls, \<^verbatim>\<open>misc_deregister\<close>, \<^verbatim>\<open>dma_accel_queue_fini\<close> and
  \<^verbatim>\<open>free_irq\<close>, interleave with the sessions that are still open and with the interrupt handler. With
  every file closed the removal leaves nothing behind that could run; with a file open it does not,
  and the order of the last two calls leaves the handler a freed completion ring.
\<close>

section \<open>The stages of the removal\<close>

datatype rstage =
    RBound         \<comment> \<open>before \<^verbatim>\<open>remove()\<close>\<close>
  | RUnlisted      \<comment> \<open>\<^verbatim>\<open>misc_deregister\<close> done: no new opens\<close>
  | RQueueFreed    \<comment> \<open>\<^verbatim>\<open>dma_accel_queue_fini\<close> done: both rings are null\<close>
  | RIrqFreed      \<comment> \<open>\<^verbatim>\<open>free_irq\<close> done: no interrupts\<close>

text \<open>
  What the system may still do: no \<^verbatim>\<open>open()\<close> once the device is not listed, no DMA into a ring that is
  freed, no interrupt after \<^verbatim>\<open>free_irq\<close>.
\<close>

fun still_runs :: "rstage \<Rightarrow> sys \<Rightarrow> sys \<Rightarrow> bool" where
  "still_runs RBound s s' = True"
| "still_runs RUnlisted s s' = (fds s' \<subseteq> fds s)"
| "still_runs RQueueFreed s s' = (fds s' \<subseteq> fds s \<and> cq_buf (kdev (sk s')) = cq_buf (kdev (sk s)))"
| "still_runs RIrqFreed s s' =
     (fds s' \<subseteq> fds s \<and> cq_buf (kdev (sk s')) = cq_buf (kdev (sk s)) \<and> isr s' = IIdle)"

text \<open>\<^verbatim>\<open>free_irq\<close> returns only when no handler is running.\<close>

inductive removal_step :: "rstage \<times> sys \<Rightarrow> rstage \<times> sys \<Rightarrow> bool" where
  r_runs: "sys_step s s' \<Longrightarrow> still_runs st s s' \<Longrightarrow> removal_step (st, s) (st, s')"
| r_deregister: "uapi_active (kdev (sk s)) \<Longrightarrow> removal_step (RBound, s) (RUnlisted, s)"
| r_queue_fini: "removal_step (RUnlisted, s) (RQueueFreed, set_dev (dma_accel_queue_fini (kdev (sk s))) s)"
| r_free_irq: "isr s = IIdle \<Longrightarrow> removal_step (RQueueFreed, s) (RIrqFreed, s)"

inductive_simps removal_end: "removal_step (RIrqFreed, s) (st', s')"

lemma queue_fini_frame [simp]:
  "cmd_table (dma_accel_queue_fini d) = cmd_table d" "cq_buf (dma_accel_queue_fini d) = []"
  "cq_head (dma_accel_queue_fini d) = cq_head d" "uapi_active (dma_accel_queue_fini d) = uapi_active d"
  by (simp_all add: dma_accel_queue_fini_def Let_def)

section \<open>With every file closed\<close>

definition quiet :: "sys \<Rightarrow> bool" where
  "quiet s \<longleftrightarrow> sessions (sk s) = Map.empty \<and> fds s = {} \<and> (\<forall>pc \<in> set (thr s). pc = SIdle)"

lemma quietI:
  assumes "reachable n s" and "sessions (sk s) = Map.empty"
  shows "quiet s"
proof -
  note L = live_invD [OF core_invD(2) [OF reachable_core_inv [OF assms(1)]]]
  have "fds s = {}" using L(4) assms(2) by auto
  moreover from this have "pc = SIdle" if "pc \<in> set (thr s)" for pc using L(3) [OF that] by (cases pc) auto
  ultimately show ?thesis using assms(2) by (simp add: quiet_def)
qed

text \<open>A quiet system stays quiet without opens: only the interrupt handler and the device can move.\<close>

lemma quiet_step:
  assumes "sys_step s s'" and "quiet s" and "fds s' \<subseteq> fds s"
  shows "quiet s'"
    and "isr s = IIdle \<Longrightarrow> isr s' = IIdle \<Longrightarrow> cq_buf (kdev (sk s')) = cq_buf (kdev (sk s)) \<Longrightarrow> s' = s"
proof -
  have no: "sessions (sk s) p = None" "p \<notin> fds s" for p using assms(2) by (simp_all add: quiet_def)
  have idle: "thr s ! t = SIdle" if "t < length (thr s)" for t using assms(2) that by (simp add: quiet_def)
  show "quiet s'" using assms(1)
    by cases (use no idle assms(2,3) in \<open>auto simp: quiet_def cq_head_inc_def\<close>)
  show "s' = s" if "isr s = IIdle" "isr s' = IIdle" "cq_buf (kdev (sk s')) = cq_buf (kdev (sk s))"
    using assms(1) by cases (use no idle that assms(3) in \<open>auto intro!: sys.equality kstate.equality\<close>)
qed

lemma still_runs_fds: "still_runs st s s' \<Longrightarrow> st \<noteq> RBound \<Longrightarrow> fds s' \<subseteq> fds s"
  by (cases st) auto

lemma quiet_removal:
  assumes "removal_step (st, s) (st', s')" and "st \<noteq> RBound" and "quiet s"
  shows "quiet s'"
  using assms(1)
proof cases
  case r_runs
  then show ?thesis using quiet_step(1) [OF _ assms(3)] still_runs_fds assms(2) by blast
qed (use assms in \<open>auto simp: quiet_def\<close>)

text \<open>
  Started with every file closed, the removal ends in a state where no code of the driver runs any
  more: no handler, no thread, no session.
\<close>

theorem remove_quiesces:
  assumes "reachable n s" and "sessions (sk s) = Map.empty"
    and "removal_step\<^sup>*\<^sup>* (RUnlisted, s) (RIrqFreed, s')" and "isr s' = IIdle"
  shows "quiet s'" and "removal_step (RIrqFreed, s') (st, t) \<Longrightarrow> (st, t) = (RIrqFreed, s')"
proof -
  have "quiet (snd y) \<and> fst y \<noteq> RBound" if "removal_step\<^sup>*\<^sup>* (RUnlisted, s) y" for y
    using that
  proof induction
    case base
    show ?case using quietI [OF assms(1,2)] by simp
  next
    case (step y z)
    then show ?case using quiet_removal [of "fst y" "snd y" "fst z" "snd z"]
      by (auto elim: removal_step.cases)
  qed
  from this [OF assms(3)] show q: "quiet s'" by simp
  show "(st, t) = (RIrqFreed, s')" if "removal_step (RIrqFreed, s') (st, t)"
    using that quiet_step(2) [OF _ q, of t] assms(4) by (auto simp: removal_end)
qed

section \<open>With a file open\<close>

text \<open>
  After \<^verbatim>\<open>free_irq\<close> nothing decrements \<^verbatim>\<open>sess->inflight\<close>: the loop in \<^verbatim>\<open>release()\<close> that waits for it never ends.
\<close>

lemma chr_read_loop_inflight: "chr_read_loop tu c n x = (x', r) \<Longrightarrow> inflight x' = inflight x"
  by (induction tu c n x arbitrary: x' r rule: chr_read_loop.induct)
     (auto simp: Let_def split: if_splits prod.splits)

lemma chr_read_inflight: "dma_accel_chr_read tu n pos x = (x', r) \<Longrightarrow> inflight x' = inflight x"
  by (auto simp: dma_accel_chr_read_def Let_def split: if_splits prod.splits dest: chr_read_loop_inflight)

lemma inflight_stays:
  assumes "sys_step s s'" and "isr s = IIdle" and "sessions (sk s) p = Some x" and "0 < inflight x"
  shows "\<exists>x'. sessions (sk s') p = Some x' \<and> 0 < inflight x'"
  using assms
proof (induction rule: sys_step.induct)
  case (alloc s q y fu mem tu req ds r)
  then show ?case by (cases ds) (auto simp: buffer_alloc_frame)
next
  case (read s q y tu n y' r)
  then show ?case using chr_read_inflight [OF read(3)] by auto
qed (auto simp: cq_head_inc_def)

theorem remove_strands_release:
  assumes "removal_step\<^sup>*\<^sup>* (RIrqFreed, s) y"
    and "isr s = IIdle" and "sessions (sk s) p = Some x" and "0 < inflight x"
  shows "fst y = RIrqFreed \<and> isr (snd y) = IIdle
    \<and> (\<exists>x'. sessions (sk (snd y)) p = Some x' \<and> 0 < inflight x')"
  using assms(1)
proof induction
  case base
  show ?case using assms(2-4) by simp
next
  case (step y z)
  obtain u st t where yz: "y = (RIrqFreed, u)" "z = (st, t)" using step.IH by (cases y, cases z) auto
  with step.hyps have "sys_step u t" "st = RIrqFreed" "isr t = IIdle" by (simp_all add: removal_end)
  then show ?case using step.IH inflight_stays [of u t p] yz by auto
qed

text \<open>
  \<^verbatim>\<open>dma_accel_queue_fini\<close> runs while the handler is still installed and \<^verbatim>\<open>uapi_active\<close> still set: an interrupt
  that arrives before \<^verbatim>\<open>free_irq\<close> finds a completion to drain and reads it from the null \<^verbatim>\<open>cq_buf\<close>.
\<close>

theorem remove_frees_ring_under_handler:
  "\<exists>s tail. removal_step\<^sup>*\<^sup>* (RBound, boot 1) (RQueueFreed, s)
     \<and> isr s = ILoop tail \<and> cq_head (kdev (sk s)) \<noteq> tail \<and> cq_buf (kdev (sk s)) = []"
proof -
  let ?s = "after 1 (run_setup @ run_submit 0)"
  let ?f = "set_dev (dma_accel_queue_fini (kdev (sk ?s))) ?s"
  let ?t = "(set_dev (dma_accel_write_reg (kdev (sk ?f)) REG_IRQ_STATUS 1) ?f)\<lparr>isr := ILoop 1\<rparr>"
  have runs: "removal_step\<^sup>*\<^sup>* (RBound, boot 1) (RBound, s)" if "reachable 1 s" for s
    using that
  proof induction
    case (reach_step s s')
    then have "removal_step (RBound, s) (RBound, s')" by (simp add: r_runs)
    with reach_step.IH show ?case by (rule rtranclp.rtrancl_into_rtrancl)
  qed simp
  have s: "uapi_active (kdev (sk ?s))" "isr ?s = IIdle" "cq_head (kdev (sk ?s)) = 0" by code_simp+
  have "removal_step (RBound, ?s) (RUnlisted, ?s)" using s(1) by (rule r_deregister)
  moreover have "removal_step (RUnlisted, ?s) (RQueueFreed, ?f)" by (rule r_queue_fini)
  moreover have "sys_step ?f ?t" by (rule sys_step.irq) (use s in simp_all)
  then have "removal_step (RQueueFreed, ?f) (RQueueFreed, ?t)" by (rule r_runs) simp
  ultimately have "removal_step\<^sup>*\<^sup>* (RBound, boot 1) (RQueueFreed, ?t)"
    using runs [OF reachable_after] by (meson rtranclp.rtrancl_into_rtrancl)
  moreover have "cq_head (kdev (sk ?t)) \<noteq> 1" "cq_buf (kdev (sk ?t)) = []" using s(3) by simp_all
  ultimately show ?thesis by (intro exI [of _ ?t] exI [of _ 1]) simp
qed

end
