(* ===== verification/Runtime.thy ===== *)
theory Runtime
  imports Regs
begin

text \<open>
  The user-space runtime (\<^verbatim>\<open>dma_accel_runtime.hpp/.cpp\<close>): \<open>Buffer\<close>, \<open>Fence\<close> and \<open>Stream\<close>.

  The system calls the runtime makes are the fields of a record \<open>kernel\<close> over a world \<open>'w\<close>, which
  every operation threads: what the kernel and the device do between two calls happens in the
  world. A call that may block for ever returns an option. \<^verbatim>\<open>Runtime_Driver\<close> instantiates the record with
  the driver's handlers.

  A \<^verbatim>\<open>std::shared_ptr<FenceState>\<close> is an index into a heap of fence states that all streams share;
  \<^verbatim>\<open>make_shared\<close> appends to it. A thrown exception is a value \<open>Inl\<close>, returned with the state it
  leaves behind. Loops that wait are partial functions into \<open>option\<close>; \<open>None\<close> is a call that does
  not return.
\<close>

section \<open>System calls\<close>

record 'w kernel =
  sys_open :: "string \<Rightarrow> 'w \<Rightarrow> 'w \<times> (errno + int)"
  sys_close :: "int \<Rightarrow> 'w \<Rightarrow> 'w"
  ioctl_buffer_alloc :: "int \<Rightarrow> dma_accel_buffer_alloc \<Rightarrow> 'w \<Rightarrow> 'w \<times> (errno + dma_accel_buffer_alloc)"
  ioctl_submit :: "int \<Rightarrow> dma_accel_submit \<Rightarrow> 'w \<Rightarrow> ('w \<times> (errno + dma_accel_submit)) option"
  sys_mmap :: "int \<Rightarrow> u32 \<Rightarrow> u64 \<Rightarrow> 'w \<Rightarrow> 'w \<times> (errno + u64)"
  sys_munmap :: "u64 \<Rightarrow> u32 \<Rightarrow> 'w \<Rightarrow> 'w"
  sys_read :: "int \<Rightarrow> nat \<Rightarrow> 'w \<Rightarrow> 'w \<times> (errno + dma_accel_completion_uapi list)"
  sys_poll :: "int \<Rightarrow> int \<Rightarrow> 'w \<Rightarrow> ('w \<times> (errno + bool)) option"
  clock_now :: "'w \<Rightarrow> 'w \<times> int"

text \<open>
  \<open>sys_read fd n\<close> reads at most \<open>n\<close> completions; \<open>sys_poll fd t\<close> waits at most \<open>t\<close> milliseconds
  (for ever if negative) and answers whether the descriptor became readable; \<open>clock_now\<close> is
  \<^verbatim>\<open>steady_clock::now()\<close> in nanoseconds.
\<close>

text \<open>
  The exceptions of the runtime with their message. \<^verbatim>\<open>std::vector::at\<close> throws an \<^verbatim>\<open>out_of_range\<close> whose
  message the standard does not fix: \<open>None\<close>.
\<close>

datatype exn = SystemError errno string | LogicError string | RuntimeError string
  | InvalidArgument string | OutOfRange "string option"

section \<open>Buffer\<close>

record Buffer =
  buf_addr :: "u64 option"
  buf_size :: u32
  buf_id :: u32

text \<open>Moving leaves the source with no mapping; its identifier stays.\<close>

definition Buffer_moved :: "Buffer \<Rightarrow> Buffer" where
  "Buffer_moved other = other\<lparr>buf_addr := None, buf_size := 0\<rparr>"

definition Buffer_move :: "Buffer \<Rightarrow> Buffer \<times> Buffer" where
  "Buffer_move other = (other, Buffer_moved other)"

definition Buffer_reset :: "'w kernel \<Rightarrow> Buffer \<Rightarrow> 'w \<Rightarrow> Buffer \<times> 'w" where
  "Buffer_reset K b w =
     (let w = (case buf_addr b of None \<Rightarrow> w | Some a \<Rightarrow> sys_munmap K a (buf_size b) w)
      in (b\<lparr>buf_addr := None, buf_size := 0\<rparr>, w))"

text \<open>\<open>same\<close>: the two references are the same object.\<close>

definition Buffer_assign :: "'w kernel \<Rightarrow> bool \<Rightarrow> Buffer \<Rightarrow> Buffer \<Rightarrow> 'w \<Rightarrow> Buffer \<times> Buffer \<times> 'w" where
  "Buffer_assign K same this other w =
     (if same then (this, other, w)
      else let (b, w) = Buffer_reset K this w in (other, Buffer_moved other, w))"

text \<open>A \<^verbatim>\<open>const Buffer *\<close> that a deferred command keeps.\<close>

type_synonym buf_ref = nat

section \<open>Fence\<close>

type_synonym fence = nat

record FenceState =
  fs_cmd_id :: u64
  fs_ready :: bool
  fs_status :: u32

type_synonym fence_heap = "FenceState list"

definition Fence_cmd_id :: "fence_heap \<Rightarrow> fence \<Rightarrow> u64" where
  "Fence_cmd_id h f = fs_cmd_id (h ! f)"

definition Fence_is_ready :: "fence_heap \<Rightarrow> fence \<Rightarrow> bool" where
  "Fence_is_ready h f = fs_ready (h ! f)"

definition Fence_status :: "fence_heap \<Rightarrow> fence \<Rightarrow> exn + u32" where
  "Fence_status h f =
     (if \<not> fs_ready (h ! f)
      then Inl (LogicError ''Fence::status() called before is_ready()'')
      else Inr (fs_status (h ! f)))"

section \<open>Stream\<close>

text \<open>The members \<^verbatim>\<open>fd_\<close>, \<^verbatim>\<open>outstanding_\<close> and \<^verbatim>\<open>submission_order_\<close>.\<close>

record Stream =
  st_fd :: int
  st_outstanding :: "u64 \<rightharpoonup> fence"
  st_order :: "fence list"

record 'w rt =
  world :: 'w
  heap :: fence_heap

type_synonym ('w, 'a) outcome = "(Stream \<times> 'w rt) \<times> (exn + 'a)"

definition Stream_open :: "'w kernel \<Rightarrow> string \<Rightarrow> 'w \<Rightarrow> 'w \<times> (exn + Stream)" where
  "Stream_open K path w =
     (case sys_open K path w of
        (w, Inl e) \<Rightarrow> (w, Inl (SystemError e (''open('' @ path @ '')'')))
      | (w, Inr fd) \<Rightarrow> (w, Inr \<lparr>st_fd = fd, st_outstanding = Map.empty, st_order = []\<rparr>))"

text \<open>
  The move constructor names \<^verbatim>\<open>fd_\<close> and \<^verbatim>\<open>outstanding_\<close> only: the new object's
  \<^verbatim>\<open>submission_order_\<close> is default-initialised. A moved-from \<^verbatim>\<open>unordered_map\<close> is left empty.
\<close>

definition Stream_move :: "Stream \<Rightarrow> Stream \<times> Stream" where
  "Stream_move other =
     (\<lparr>st_fd = st_fd other, st_outstanding = st_outstanding other, st_order = []\<rparr>,
      other\<lparr>st_fd := - 1, st_outstanding := Map.empty\<rparr>)"

definition Stream_close_fd :: "'w kernel \<Rightarrow> Stream \<Rightarrow> 'w \<Rightarrow> Stream \<times> 'w" where
  "Stream_close_fd K s w = (if 0 \<le> st_fd s then (s\<lparr>st_fd := - 1\<rparr>, sys_close K (st_fd s) w) else (s, w))"

definition Stream_assign :: "'w kernel \<Rightarrow> bool \<Rightarrow> Stream \<Rightarrow> Stream \<Rightarrow> 'w \<Rightarrow> Stream \<times> Stream \<times> 'w" where
  "Stream_assign K same this other w =
     (if same then (this, other, w)
      else let (this, w) = Stream_close_fd K this w
           in (this\<lparr>st_fd := st_fd other, st_outstanding := st_outstanding other\<rparr>,
               other\<lparr>st_fd := - 1, st_outstanding := Map.empty\<rparr>, w))"

definition Stream_alloc_buffer :: "'w kernel \<Rightarrow> Stream \<Rightarrow> u32 \<Rightarrow> 'w \<Rightarrow> 'w \<times> (exn + Buffer)" where
  "Stream_alloc_buffer K s sz w =
     (case ioctl_buffer_alloc K (st_fd s) \<lparr>ba_size = sz, ba_buffer_id = 0, ba_mmap_offset = 0\<rparr> w of
        (w, Inl e) \<Rightarrow> (w, Inl (SystemError e ''ioctl(DMA_ACCEL_IOC_BUFFER_ALLOC)''))
      | (w, Inr req) \<Rightarrow>
         (case sys_mmap K (st_fd s) sz (ba_mmap_offset req) w of
            (w, Inl e) \<Rightarrow> (w, Inl (SystemError e ''mmap(buffer)''))
          | (w, Inr addr) \<Rightarrow> (w, Inr \<lparr>buf_addr = Some addr, buf_size = sz, buf_id = ba_buffer_id req\<rparr>)))"

subsection \<open>Completion processing\<close>

text \<open>One completion of a batch: an unknown identifier is skipped.\<close>

definition pump_one :: "dma_accel_completion_uapi \<Rightarrow> (u64 \<rightharpoonup> fence) \<times> fence_heap
    \<Rightarrow> (u64 \<rightharpoonup> fence) \<times> fence_heap" where
  "pump_one c oh =
     (case oh of (out, h) \<Rightarrow>
        (case out (ucomp_cmd_id c) of
           None \<Rightarrow> (out, h)
         | Some f \<Rightarrow> (out(ucomp_cmd_id c := None),
                       h[f := (h ! f)\<lparr>fs_ready := True, fs_status := ucomp_status c\<rparr>])))"

definition pump_batch :: "dma_accel_completion_uapi list \<Rightarrow> (u64 \<rightharpoonup> fence) \<times> fence_heap
    \<Rightarrow> (u64 \<rightharpoonup> fence) \<times> fence_heap" where
  "pump_batch cs oh = fold pump_one cs oh"

definition apply_batch :: "dma_accel_completion_uapi list \<Rightarrow> Stream \<times> 'w rt \<Rightarrow> Stream \<times> 'w rt" where
  "apply_batch cs sr =
     (case sr of (s, r) \<Rightarrow>
        (case pump_batch cs (st_outstanding s, heap r) of
           (out, h) \<Rightarrow> (s\<lparr>st_outstanding := out\<rparr>, r\<lparr>heap := h\<rparr>)))"

definition BATCH_SIZE :: nat where [accel_simps]: "BATCH_SIZE = 32"

partial_function (option) Stream_pump ::
  "'w kernel \<Rightarrow> Stream \<Rightarrow> 'w rt \<Rightarrow> ('w, unit) outcome option" where
  "Stream_pump K s r =
     (case sys_read K (st_fd s) BATCH_SIZE (world r) of
        (w, Inl e) \<Rightarrow>
          (if e = EAGAIN then Some ((s, r\<lparr>world := w\<rparr>), Inr ())
           else Some ((s, r\<lparr>world := w\<rparr>), Inl (SystemError e ''read(completion)'')))
      | (w, Inr cs) \<Rightarrow>
          (if cs = [] then Some ((s, r\<lparr>world := w\<rparr>), Inr ())
           else case apply_batch cs (s, r\<lparr>world := w\<rparr>) of
             (s, r) \<Rightarrow> if length cs < BATCH_SIZE then Some ((s, r), Inr ()) else Stream_pump K s r))"

partial_function (option) Stream_wait_state_blocking ::
  "'w kernel \<Rightarrow> fence \<Rightarrow> Stream \<Rightarrow> 'w rt \<Rightarrow> ('w, unit) outcome option" where
  "Stream_wait_state_blocking K f s r =
     (if fs_ready (heap r ! f) then Some ((s, r), Inr ())
      else Option.bind (sys_poll K (st_fd s) (- 1) (world r))
        (\<lambda>(w, p). case p of
             Inl e \<Rightarrow> (if e = EINTR then Stream_wait_state_blocking K f s (r\<lparr>world := w\<rparr>)
                       else Some ((s, r\<lparr>world := w\<rparr>), Inl (SystemError e ''poll'')))
           | Inr b \<Rightarrow>
               Option.bind (Stream_pump K s (r\<lparr>world := w\<rparr>))
                 (\<lambda>((s, r), q). case q of
                      Inl e \<Rightarrow> Some ((s, r), Inl e)
                    | Inr u \<Rightarrow> Stream_wait_state_blocking K f s r)))"

text \<open>The loop of \<^verbatim>\<open>wait()\<close>; \<open>deadline\<close> is \<open>None\<close> when the timeout is negative.\<close>

partial_function (option) wait_loop ::
  "'w kernel \<Rightarrow> int option \<Rightarrow> fence \<Rightarrow> Stream \<Rightarrow> 'w rt \<Rightarrow> ('w, bool) outcome option" where
  "wait_loop K deadline f s r =
     (if fs_ready (heap r ! f) then Some ((s, r), Inr True)
      else
        (let wt = (case deadline of
                     None \<Rightarrow> (world r, Some (- 1))
                   | Some d \<Rightarrow> (case clock_now K (world r) of
                       (w, now) \<Rightarrow> (w, if d - now \<le> 0 then None else Some ((d - now) div 1000000))))
         in case wt of
              (w, None) \<Rightarrow> Some ((s, r\<lparr>world := w\<rparr>), Inr False)
            | (w, Some t) \<Rightarrow>
                Option.bind (sys_poll K (st_fd s) t w)
                  (\<lambda>(w, p). case p of
                       Inl e \<Rightarrow> (if e = EINTR then wait_loop K deadline f s (r\<lparr>world := w\<rparr>)
                                 else Some ((s, r\<lparr>world := w\<rparr>), Inl (SystemError e ''poll'')))
                     | Inr b \<Rightarrow>
                         (if \<not> b then Some ((s, r\<lparr>world := w\<rparr>), Inr False)
                          else Option.bind (Stream_pump K s (r\<lparr>world := w\<rparr>))
                            (\<lambda>((s, r), q). case q of
                                 Inl e \<Rightarrow> Some ((s, r), Inl e)
                               | Inr u \<Rightarrow> wait_loop K deadline f s r)))))"

definition Stream_wait :: "'w kernel \<Rightarrow> fence \<Rightarrow> int \<Rightarrow> Stream \<Rightarrow> 'w rt \<Rightarrow> ('w, bool) outcome option" where
  "Stream_wait K f timeout_ms s r =
     (if Fence_is_ready (heap r) f then Some ((s, r), Inr True)
      else let (w, now) = clock_now K (world r);
               deadline = (if 0 \<le> timeout_ms then Some (now + timeout_ms * 1000000) else None)
           in wait_loop K deadline f s (r\<lparr>world := w\<rparr>))"

subsection \<open>Submission\<close>

definition Stream_throttle_before_submit ::
  "'w kernel \<Rightarrow> Stream \<Rightarrow> 'w rt \<Rightarrow> ('w, unit) outcome option" where
  "Stream_throttle_before_submit K s r =
     (if length (st_order s) < DMA_ACCEL_QUEUE_DEPTH then Some ((s, r), Inr ())
      else let oldest = hd (st_order s) in
        Option.bind
          (if \<not> fs_ready (heap r ! oldest) then Stream_wait_state_blocking K oldest s r
           else Some ((s, r), Inr ()))
          (\<lambda>((s, r), q). case q of
               Inl e \<Rightarrow> Some ((s, r), Inl e)
             | Inr u \<Rightarrow>
                 Some ((s\<lparr>st_outstanding := (st_outstanding s)(fs_cmd_id (heap r ! oldest) := None),
                          st_order := tl (st_order s)\<rparr>, r), Inr ())))"

text \<open>\<^verbatim>\<open>unordered_map::emplace\<close> leaves an entry that is already there.\<close>

definition Stream_do_submit ::
  "'w kernel \<Rightarrow> dma_accel_submit \<Rightarrow> Stream \<Rightarrow> 'w rt \<Rightarrow> ('w, fence) outcome option" where
  "Stream_do_submit K req s r =
     Option.bind (ioctl_submit K (st_fd s) req (world r))
       (\<lambda>(w, q). case q of
            Inl e \<Rightarrow> Some ((s, r\<lparr>world := w\<rparr>), Inl (SystemError e ''ioctl(DMA_ACCEL_IOC_SUBMIT)''))
          | Inr req \<Rightarrow>
              (let f = length (heap r);
                   st = \<lparr>fs_cmd_id = sub_cmd_id req, fs_ready = False, fs_status = 0\<rparr>;
                   out = st_outstanding s
               in Some ((s\<lparr>st_outstanding := (case out (sub_cmd_id req) of
                                              None \<Rightarrow> out(sub_cmd_id req \<mapsto> f) | Some g \<Rightarrow> out),
                           st_order := st_order s @ [f]\<rparr>,
                         r\<lparr>world := w, heap := heap r @ [st]\<rparr>), Inr f)))"

definition throttled_submit ::
  "'w kernel \<Rightarrow> dma_accel_submit \<Rightarrow> Stream \<Rightarrow> 'w rt \<Rightarrow> ('w, fence) outcome option" where
  "throttled_submit K req s r =
     Option.bind (Stream_throttle_before_submit K s r)
       (\<lambda>((s, r), q). case q of Inl e \<Rightarrow> Some ((s, r), Inl e) | Inr u \<Rightarrow> Stream_do_submit K req s r)"

definition Stream_submit :: "'w kernel \<Rightarrow> u32 \<Rightarrow> Buffer \<Rightarrow> u32 \<Rightarrow> Buffer \<Rightarrow> u32 \<Rightarrow> u32 \<Rightarrow> Stream \<Rightarrow> 'w rt
    \<Rightarrow> ('w, fence) outcome option" where
  "Stream_submit K opcode src src_offset dst dst_offset len s r =
     throttled_submit K \<lparr>sub_opcode = opcode, sub_len = len, sub_src_buffer_id = buf_id src,
       sub_src_offset = src_offset, sub_dst_buffer_id = buf_id dst, sub_dst_offset = dst_offset,
       sub_cmd_id = 0, sub_src2_buffer_id = 0, sub_src2_offset = 0, sub_scalar = 0\<rparr> s r"

definition Stream_submit_scale_add :: "'w kernel \<Rightarrow> Buffer \<Rightarrow> u32 \<Rightarrow> Buffer \<Rightarrow> u32 \<Rightarrow> Buffer \<Rightarrow> u32 \<Rightarrow> u32
    \<Rightarrow> float_bits \<Rightarrow> Stream \<Rightarrow> 'w rt \<Rightarrow> ('w, fence) outcome option" where
  "Stream_submit_scale_add K a a_offset b b_offset dst dst_offset len scalar s r =
     throttled_submit K \<lparr>sub_opcode = OPCODE_SCALE_ADD, sub_len = len, sub_src_buffer_id = buf_id a,
       sub_src_offset = a_offset, sub_dst_buffer_id = buf_id dst, sub_dst_offset = dst_offset,
       sub_cmd_id = 0, sub_src2_buffer_id = buf_id b, sub_src2_offset = b_offset, sub_scalar = scalar\<rparr> s r"

definition Stream_submit_tile_matmul :: "'w kernel \<Rightarrow> Buffer \<Rightarrow> u32 \<Rightarrow> Buffer \<Rightarrow> u32 \<Rightarrow> Buffer \<Rightarrow> u32 \<Rightarrow> Stream
    \<Rightarrow> 'w rt \<Rightarrow> ('w, fence) outcome option" where
  "Stream_submit_tile_matmul K a a_offset b b_offset c c_offset s r =
     throttled_submit K \<lparr>sub_opcode = OPCODE_TILE_MATMUL, sub_len = DMA_ACCEL_TILE_MATMUL_BYTES,
       sub_src_buffer_id = buf_id a, sub_src_offset = a_offset, sub_dst_buffer_id = buf_id c,
       sub_dst_offset = c_offset, sub_cmd_id = 0, sub_src2_buffer_id = buf_id b,
       sub_src2_offset = b_offset, sub_scalar = 0\<rparr> s r"

end
