(* ===== verification/Client_Context.thy ===== *)
theory Client_Context
  imports Runtime
begin

text \<open>
  \<^verbatim>\<open>Context\<close> (\<^verbatim>\<open>track-b/dma_accel_context.hpp/.cpp\<close>): a named client that owns one stream and
  remembers which buffers were allocated through it. Every submission checks its buffer arguments
  against that set before the stream is touched.
\<close>

section \<open>State\<close>

record Context =
  cx_name :: string
  cx_stream :: Stream
  cx_owned :: "u32 set"

type_synonym ('w, 'a) cx_outcome = "(Context \<times> 'w rt) \<times> (exn + 'a)"

definition Context_open :: "'w kernel \<Rightarrow> string \<Rightarrow> string \<Rightarrow> 'w \<Rightarrow> 'w \<times> (exn + Context)" where
  "Context_open K name device_path w =
     (case Stream_open K device_path w of
        (w, Inl e) \<Rightarrow> (w, Inl e)
      | (w, Inr s) \<Rightarrow> (w, Inr \<lparr>cx_name = name, cx_stream = s, cx_owned = {}\<rparr>))"

text \<open>The moved-from name and set are left empty; the stream is moved by its own constructor.\<close>

definition Context_move :: "Context \<Rightarrow> Context \<times> Context" where
  "Context_move other =
     (let (s, s') = Stream_move (cx_stream other)
      in (other\<lparr>cx_stream := s\<rparr>, \<lparr>cx_name = [], cx_stream = s', cx_owned = {}\<rparr>))"

definition Context_assign :: "'w kernel \<Rightarrow> bool \<Rightarrow> Context \<Rightarrow> Context \<Rightarrow> 'w \<Rightarrow> Context \<times> Context \<times> 'w" where
  "Context_assign K same this other w =
     (if same then (this, other, w)
      else let (s, s', w) = Stream_assign K False (cx_stream this) (cx_stream other) w
           in (\<lparr>cx_name = cx_name other, cx_stream = s, cx_owned = cx_owned other\<rparr>,
               \<lparr>cx_name = [], cx_stream = s', cx_owned = {}\<rparr>, w))"

definition Context_alloc_buffer :: "'w kernel \<Rightarrow> u32 \<Rightarrow> Context \<Rightarrow> 'w \<Rightarrow> (Context \<times> 'w) \<times> (exn + Buffer)" where
  "Context_alloc_buffer K sz c w =
     (case Stream_alloc_buffer K (cx_stream c) sz w of
        (w, Inl e) \<Rightarrow> ((c, w), Inl e)
      | (w, Inr buf) \<Rightarrow> ((c\<lparr>cx_owned := insert (buf_id buf) (cx_owned c)\<rparr>, w), Inr buf))"

section \<open>The provenance check\<close>

text \<open>\<^verbatim>\<open>std::to_string\<close> of an unsigned number.\<close>

fun to_string :: "nat \<Rightarrow> string" where
  "to_string n = (if n < 10 then [char_of (48 + n)] else to_string (n div 10) @ [char_of (48 + n mod 10)])"

declare to_string.simps [simp del]

definition em_dash :: string where
  "em_dash = [CHR 0xE2, CHR 0x80, CHR 0x94]"

definition not_owned_msg :: "Context \<Rightarrow> Buffer \<Rightarrow> string \<Rightarrow> string" where
  "not_owned_msg c buf what =
     ''Context::'' @ what @ ''(): buffer_id='' @ to_string (unat (buf_id buf))
     @ '' was not allocated through Context '' @ [CHR 0x27] @ cx_name c
     @ [CHR 0x27] @ '' '' @ em_dash @ '' this is an application bug (passing a Buffer across ''
     @ ''Contexts), not a runtime condition. The kernel would also ''
     @ ''reject this with EPERM (see M10.5-session-ownership.md); ''
     @ ''this check exists to catch it here first, with enough ''
     @ ''information to find the mistake.''"

definition check_owned :: "Context \<Rightarrow> Buffer \<Rightarrow> string \<Rightarrow> exn + unit" where
  "check_owned c buf what =
     (if buf_id buf \<notin> cx_owned c then Inl (LogicError (not_owned_msg c buf what)) else Inr ())"

text \<open>The sequence of checks that opens a submission: the first failing one throws.\<close>

primrec check_all :: "Context \<Rightarrow> string \<Rightarrow> Buffer list \<Rightarrow> exn + unit" where
  "check_all c what [] = Inr ()"
| "check_all c what (b # bs) = (case check_owned c b what of Inl e \<Rightarrow> Inl e | Inr u \<Rightarrow> check_all c what bs)"

section \<open>Operations\<close>

text \<open>A call on the member \<^verbatim>\<open>stream_\<close>.\<close>

definition on_stream :: "(Stream \<Rightarrow> 'w rt \<Rightarrow> ('w, 'a) outcome option) \<Rightarrow> Context \<Rightarrow> 'w rt
    \<Rightarrow> ('w, 'a) cx_outcome option" where
  "on_stream f c r = map_option (\<lambda>((s, r), q). ((c\<lparr>cx_stream := s\<rparr>, r), q)) (f (cx_stream c) r)"

definition checked :: "string \<Rightarrow> Buffer list \<Rightarrow> (Stream \<Rightarrow> 'w rt \<Rightarrow> ('w, 'a) outcome option) \<Rightarrow> Context \<Rightarrow> 'w rt
    \<Rightarrow> ('w, 'a) cx_outcome option" where
  "checked what bufs f c r =
     (case check_all c what bufs of Inl e \<Rightarrow> Some ((c, r), Inl e) | Inr u \<Rightarrow> on_stream f c r)"

definition Context_submit :: "'w kernel \<Rightarrow> u32 \<Rightarrow> Buffer \<Rightarrow> u32 \<Rightarrow> Buffer \<Rightarrow> u32 \<Rightarrow> u32 \<Rightarrow> Context \<Rightarrow> 'w rt
    \<Rightarrow> ('w, fence) cx_outcome option" where
  "Context_submit K opcode src src_offset dst dst_offset len =
     checked ''submit'' [src, dst] (Stream_submit K opcode src src_offset dst dst_offset len)"

definition Context_submit_scale_add :: "'w kernel \<Rightarrow> Buffer \<Rightarrow> u32 \<Rightarrow> Buffer \<Rightarrow> u32 \<Rightarrow> Buffer \<Rightarrow> u32 \<Rightarrow> u32
    \<Rightarrow> float_bits \<Rightarrow> Context \<Rightarrow> 'w rt \<Rightarrow> ('w, fence) cx_outcome option" where
  "Context_submit_scale_add K a a_offset b b_offset dst dst_offset len scalar =
     checked ''submit_scale_add'' [a, b, dst]
       (Stream_submit_scale_add K a a_offset b b_offset dst dst_offset len scalar)"

definition Context_submit_tile_matmul :: "'w kernel \<Rightarrow> Buffer \<Rightarrow> u32 \<Rightarrow> Buffer \<Rightarrow> u32 \<Rightarrow> Buffer \<Rightarrow> u32 \<Rightarrow> Context
    \<Rightarrow> 'w rt \<Rightarrow> ('w, fence) cx_outcome option" where
  "Context_submit_tile_matmul K a a_offset b b_offset c c_offset =
     checked ''submit_tile_matmul'' [a, b, c] (Stream_submit_tile_matmul K a a_offset b b_offset c c_offset)"

definition Context_pump :: "'w kernel \<Rightarrow> Context \<Rightarrow> 'w rt \<Rightarrow> ('w, unit) cx_outcome option" where
  "Context_pump K = on_stream (Stream_pump K)"

definition Context_wait :: "'w kernel \<Rightarrow> fence \<Rightarrow> int \<Rightarrow> Context \<Rightarrow> 'w rt \<Rightarrow> ('w, bool) cx_outcome option" where
  "Context_wait K f timeout_ms = on_stream (Stream_wait K f timeout_ms)"

lemmas context_submit_defs = Context_submit_def Context_submit_scale_add_def Context_submit_tile_matmul_def

section \<open>What the check does\<close>

lemma check_all_Inr: "check_all c what bs = Inr u \<longleftrightarrow> buf_id ` set bs \<subseteq> cx_owned c"
  by (induction bs) (auto simp: check_owned_def split: sum.splits)

lemma check_all_Inl:
  assumes "check_all c what bs = Inl e"
  obtains b where "b \<in> set bs" "buf_id b \<notin> cx_owned c" "e = LogicError (not_owned_msg c b what)"
  using assms by (induction bs) (auto simp: check_owned_def split: sum.splits if_splits)

lemma checked_cases:
  obtains (foreign) b where "b \<in> set bufs" "buf_id b \<notin> cx_owned c"
      "checked what bufs f c r = Some ((c, r), Inl (LogicError (not_owned_msg c b what)))"
  | (owned) "buf_id ` set bufs \<subseteq> cx_owned c" "checked what bufs f c r = on_stream f c r"
proof (cases "check_all c what bufs")
  case (Inl e)
  then show ?thesis
    using check_all_Inl [OF Inl] foreign by (metis (no_types, lifting) checked_def sum.case(1))
next
  case (Inr u)
  then have "checked what bufs f c r = on_stream f c r" by (simp add: checked_def)
  with Inr show ?thesis using owned by (simp add: check_all_Inr)
qed

lemma on_stream_Some:
  "on_stream f c r = Some ((c', r'), q) \<longleftrightarrow>
   (\<exists>s'. f (cx_stream c) r = Some ((s', r'), q) \<and> c' = c\<lparr>cx_stream := s'\<rparr>)"
  by (auto simp: on_stream_def)

end
