(* ===== verification/Runtime_Correct.thy ===== *)
theory Runtime_Correct
  imports Runtime
begin

text \<open>
  The invariant of a stream's bookkeeping and what each operation does to it, and the contract
  between a stream and the descriptor it reads completions from, as the locales
  \<open>completion_source\<close> and \<open>device_progress\<close>.
\<close>

section \<open>Bookkeeping invariant\<close>

text \<open>
  Tracked fences exist and are distinct; the map holds only fences that are in submission order,
  under their own identifier; and no more than a ring's worth is tracked.
\<close>

definition stream_inv :: "Stream \<Rightarrow> fence_heap \<Rightarrow> bool" where
  "stream_inv s h \<longleftrightarrow>
     distinct (st_order s) \<and> set (st_order s) \<subseteq> {..<length h}
     \<and> (\<forall>c f. st_outstanding s c = Some f \<longrightarrow> f \<in> set (st_order s) \<and> fs_cmd_id (h ! f) = c)
     \<and> length (st_order s) \<le> DMA_ACCEL_QUEUE_DEPTH"

lemma stream_invD:
  assumes "stream_inv s h"
  shows "distinct (st_order s)" and "set (st_order s) \<subseteq> {..<length h}"
    and "st_outstanding s c = Some f \<Longrightarrow> f \<in> set (st_order s)"
    and "st_outstanding s c = Some f \<Longrightarrow> fs_cmd_id (h ! f) = c"
    and "st_outstanding s c = Some f \<Longrightarrow> f < length h"
    and "length (st_order s) \<le> DMA_ACCEL_QUEUE_DEPTH"
  using assms by (auto simp: stream_inv_def)

text \<open>No more commands are outstanding than are in submission order.\<close>

lemma stream_inv_outstanding:
  assumes "stream_inv s h"
  shows "finite (dom (st_outstanding s))" and "card (dom (st_outstanding s)) \<le> length (st_order s)"
proof -
  let ?g = "\<lambda>f. fs_cmd_id (h ! f)"
  have sub: "dom (st_outstanding s) \<subseteq> ?g ` set (st_order s)"
  proof
    fix c assume "c \<in> dom (st_outstanding s)"
    then obtain f where "st_outstanding s c = Some f" by auto
    with stream_invD(3,4) [OF assms] show "c \<in> ?g ` set (st_order s)" by force
  qed
  then show "finite (dom (st_outstanding s))" by (rule finite_subset) simp
  have "card (dom (st_outstanding s)) \<le> card (?g ` set (st_order s))" by (rule card_mono [OF _ sub]) simp
  also have "\<dots> \<le> card (set (st_order s))" by (rule card_image_le) simp
  also have "\<dots> \<le> length (st_order s)" by (rule card_length)
  finally show "card (dom (st_outstanding s)) \<le> length (st_order s)" .
qed

section \<open>A batch of completions\<close>

text \<open>The heap only ever changes in the readiness and status of existing fences.\<close>

definition heap_le :: "fence_heap \<Rightarrow> fence_heap \<Rightarrow> bool" where
  "heap_le h h' \<longleftrightarrow> length h \<le> length h'
     \<and> (\<forall>f < length h. fs_cmd_id (h' ! f) = fs_cmd_id (h ! f)
          \<and> (fs_ready (h ! f) \<longrightarrow> fs_ready (h' ! f)))"

lemma heap_le_refl [simp]: "heap_le h h" by (simp add: heap_le_def)

lemma heap_le_trans [trans]: "heap_le h h' \<Longrightarrow> heap_le h' h'' \<Longrightarrow> heap_le h h''"
  by (auto simp: heap_le_def)

lemma stream_inv_heap_le:
  assumes "stream_inv s h" and "heap_le h h'" and "st_order s' = st_order s"
    and "\<And>c f. st_outstanding s' c = Some f \<Longrightarrow> st_outstanding s c = Some f"
  shows "stream_inv s' h'"
proof -
  have "f \<in> set (st_order s) \<and> fs_cmd_id (h' ! f) = c" if "st_outstanding s' c = Some f" for c f
    using assms(2) stream_invD(3,4,5) [OF assms(1) assms(4) [OF that]] by (simp add: heap_le_def)
  with assms stream_invD(1,2,6) [OF assms(1)] show ?thesis by (auto simp: stream_inv_def heap_le_def)
qed

lemma pump_one_le: "pump_one c (out, h) = (out', h') \<Longrightarrow>
   heap_le h h' \<and> length h' = length h \<and> (\<forall>d f. out' d = Some f \<longrightarrow> out d = Some f)"
  by (auto simp: pump_one_def heap_le_def nth_update_if split: option.splits if_splits)

lemma pump_batch_le: "pump_batch cs (out, h) = (out', h') \<Longrightarrow>
   heap_le h h' \<and> length h' = length h \<and> (\<forall>d f. out' d = Some f \<longrightarrow> out d = Some f)"
proof (induction cs arbitrary: out h)
  case Nil
  then show ?case by (simp add: pump_batch_def)
next
  case (Cons c cs)
  obtain o1 h1 where 1: "pump_one c (out, h) = (o1, h1)" by fastforce
  with Cons.prems have "pump_batch cs (o1, h1) = (out', h')" by (simp add: pump_batch_def)
  from Cons.IH [OF this] pump_one_le [OF 1] show ?case by (auto intro: heap_le_trans)
qed

lemma pump_batch_Nil [simp]: "pump_batch [] oh = oh"
  and pump_batch_append: "pump_batch (cs @ ds) oh = pump_batch ds (pump_batch cs oh)"
  by (simp_all add: pump_batch_def)

lemma apply_batch_Nil [simp]: "apply_batch [] sr = sr"
  by (cases sr) (simp add: apply_batch_def)

lemma apply_batch_append: "apply_batch (cs @ ds) sr = apply_batch ds (apply_batch cs sr)"
  by (cases sr) (simp add: apply_batch_def pump_batch_append split: prod.split)

lemma apply_batch_frame:
  assumes "apply_batch cs (s, r) = (s', r')"
  shows "st_fd s' = st_fd s" and "st_order s' = st_order s" and "world r' = world r"
    and "length (heap r') = length (heap r)" and "heap_le (heap r) (heap r')"
    and "st_outstanding s' c = Some f \<Longrightarrow> st_outstanding s c = Some f"
  using assms pump_batch_le by (auto simp: apply_batch_def split: prod.splits)

lemma apply_batch_world:
  "apply_batch cs (s, r\<lparr>world := w\<rparr>) = (s', r') \<Longrightarrow>
   apply_batch cs (s, r\<lparr>world := w'\<rparr>) = (s', r'\<lparr>world := w'\<rparr>)"
  by (auto simp: apply_batch_def split: prod.splits)

lemma pump_batch_other:
  assumes "out c = None" and "\<And>d g. out d = Some g \<Longrightarrow> g \<noteq> f"
  shows "snd (pump_batch cs (out, h)) ! f = h ! f \<and> fst (pump_batch cs (out, h)) c = None"
  using assms
proof (induction cs arbitrary: out h)
  case (Cons y ys)
  obtain o3 h3 where 3: "pump_one y (out, h) = (o3, h3)" by fastforce
  have "o3 c = None" "h3 ! f = h ! f" "\<And>d g. o3 d = Some g \<Longrightarrow> g \<noteq> f"
    using 3 Cons.prems by (fastforce simp: pump_one_def nth_update_if split: option.splits if_splits)+
  with Cons.IH [of o3 h3] 3 show ?case by (simp add: pump_batch_def)
qed simp

lemma pump_batch_untouched:
  assumes "\<And>d g. out d = Some g \<Longrightarrow> g \<noteq> f"
  shows "snd (pump_batch cs (out, h)) ! f = h ! f"
  using assms
proof (induction cs arbitrary: out h)
  case (Cons y ys)
  obtain o3 h3 where 3: "pump_one y (out, h) = (o3, h3)" by fastforce
  have "h3 ! f = h ! f" "\<And>d g. o3 d = Some g \<Longrightarrow> g \<noteq> f"
    using 3 Cons.prems by (fastforce simp: pump_one_def nth_update_if split: option.splits if_splits)+
  with Cons.IH [of o3 h3] 3 show ?case by (simp add: pump_batch_def)
qed simp

text \<open>What a batch does to one tracked fence: the first completion with its identifier decides.\<close>

lemma pump_batch_fence:
  assumes "out c = Some f" and "f < length h"
    and own: "\<And>d g. out d = Some g \<Longrightarrow> fs_cmd_id (h ! g) = d"
    and "fs_cmd_id (h ! f) = c"
  shows "snd (pump_batch cs (out, h)) ! f =
      (case find (\<lambda>x. ucomp_cmd_id x = c) cs of
         None \<Rightarrow> h ! f
       | Some x \<Rightarrow> (h ! f)\<lparr>fs_ready := True, fs_status := ucomp_status x\<rparr>)
    \<and> fst (pump_batch cs (out, h)) c = (if c \<in> ucomp_cmd_id ` set cs then None else Some f)"
  using assms
proof (induction cs arbitrary: out h)
  case Nil
  then show ?case by simp
next
  case (Cons x cs)
  obtain o1 h1 where 1: "pump_one x (out, h) = (o1, h1)" by fastforce
  have step: "pump_batch (x # cs) (out, h) = pump_batch cs (o1, h1)" by (simp add: pump_batch_def 1)
  note le = pump_one_le [OF 1]
  show ?case
  proof (cases "ucomp_cmd_id x = c")
    case True
    have h1: "h1 = h[f := (h ! f)\<lparr>fs_ready := True, fs_status := ucomp_status x\<rparr>]" and o1: "o1 c = None"
      using 1 True Cons.prems(1) by (auto simp: pump_one_def)
    have own1: "g \<noteq> f" if "o1 d = Some g" for d g
      using that le o1 Cons.prems(3,4) by (metis option.distinct(1))
    have "snd (pump_batch cs (o1, h1)) ! f = h1 ! f \<and> fst (pump_batch cs (o1, h1)) c = None"
      by (rule pump_batch_other) (use o1 own1 in auto)
    then show ?thesis
      unfolding step using True Cons.prems(2) by (simp add: h1)
  next
    case False
    have o1: "o1 c = Some f" and h1: "h1 ! f = h ! f" and len: "f < length h1"
    proof -
      have ne: "g \<noteq> f" if "out (ucomp_cmd_id x) = Some g" for g
        using Cons.prems(3) [OF that] Cons.prems(4) False by auto
      show "o1 c = Some f" "h1 ! f = h ! f"
        using 1 False Cons.prems(1) ne by (auto simp: pump_one_def nth_update_if split: option.splits)
      show "f < length h1" using le Cons.prems(2) by simp
    qed
    have own1: "fs_cmd_id (h1 ! g) = d" if "o1 d = Some g" for d g
    proof -
      have "out d = Some g" using le that by blast
      then have "fs_cmd_id (h ! g) = d" by (rule Cons.prems(3))
      then show ?thesis using 1 by (auto simp: pump_one_def nth_update_if split: option.splits if_splits)
    qed
    have "fs_cmd_id (h1 ! f) = c" using h1 Cons.prems(4) by simp
    from Cons.IH [of o1 h1, OF o1 len _ this] own1 show ?thesis
      unfolding step using False by (simp add: h1 split: option.split)
  qed
qed

section \<open>Operations keep the invariant\<close>

text \<open>
  Facts about calls that return, by induction on the computation. \<open>rt_le\<close> is what pumping does to
  a stream: bookkeeping only shrinks, fences only become ready, and a fence changes only by leaving
  the bookkeeping.
\<close>

definition own_ids :: "Stream \<Rightarrow> fence_heap \<Rightarrow> bool" where
  "own_ids s h \<longleftrightarrow> (\<forall>c f. st_outstanding s c = Some f \<longrightarrow> f < length h \<and> fs_cmd_id (h ! f) = c)"

definition rt_le :: "Stream \<times> 'w rt \<Rightarrow> Stream \<times> 'w rt \<Rightarrow> bool" where
  "rt_le sr sr' \<longleftrightarrow> st_fd (fst sr') = st_fd (fst sr) \<and> st_order (fst sr') = st_order (fst sr)
     \<and> length (heap (snd sr')) = length (heap (snd sr)) \<and> heap_le (heap (snd sr)) (heap (snd sr'))
     \<and> (\<forall>c f. st_outstanding (fst sr') c = Some f \<longrightarrow> st_outstanding (fst sr) c = Some f)
     \<and> (\<forall>f. f \<notin> ran (st_outstanding (fst sr)) \<longrightarrow> heap (snd sr') ! f = heap (snd sr) ! f)
     \<and> (own_ids (fst sr) (heap (snd sr)) \<longrightarrow>
          (\<forall>f \<in> ran (st_outstanding (fst sr')). heap (snd sr') ! f = heap (snd sr) ! f))"

lemma rt_le_refl [simp]: "rt_le sr sr"
  by (simp add: rt_le_def)

lemma rt_le_world [simp]: "rt_le (s, r\<lparr>world := w\<rparr>) sr' = rt_le (s, r) sr'"
  "rt_le sr (s, r\<lparr>world := w\<rparr>) = rt_le sr (s, r)"
  by (simp_all add: rt_le_def)

lemma own_ids_mono:
  assumes "own_ids s h" and "heap_le h h'" and "\<And>c f. st_outstanding s' c = Some f \<Longrightarrow> st_outstanding s c = Some f"
  shows "own_ids s' h'"
  using assms by (fastforce simp: own_ids_def heap_le_def)

lemma rt_le_trans:
  assumes ab: "rt_le a b" and bc: "rt_le b c"
  shows "rt_le a c"
proof -
  have out: "st_outstanding (fst b) i = Some f" if "st_outstanding (fst c) i = Some f" for i f
    using bc that by (simp add: rt_le_def)
  have out': "st_outstanding (fst a) i = Some f" if "st_outstanding (fst b) i = Some f" for i f
    using ab that by (simp add: rt_le_def)
  have le: "heap_le (heap (snd a)) (heap (snd b))" using ab by (simp add: rt_le_def)
  have same: "heap (snd c) ! f = heap (snd a) ! f" if "f \<notin> ran (st_outstanding (fst a))" for f
  proof -
    have "f \<notin> ran (st_outstanding (fst b))" using that out' by (auto simp: ran_def)
    with that ab bc show ?thesis by (simp add: rt_le_def)
  qed
  have own: "heap (snd c) ! f = heap (snd a) ! f"
    if "own_ids (fst a) (heap (snd a))" "f \<in> ran (st_outstanding (fst c))" for f
  proof -
    have "own_ids (fst b) (heap (snd b))" by (rule own_ids_mono [OF that(1) le out'])
    moreover have "f \<in> ran (st_outstanding (fst b))" using that(2) out by (auto simp: ran_def)
    ultimately show ?thesis using that ab bc by (simp add: rt_le_def)
  qed
  show ?thesis
    using ab bc same own out out' by (auto simp: rt_le_def intro: heap_le_trans)
qed

lemma rt_le_batch:
  assumes "apply_batch cs (s, r) = sr'"
  shows "rt_le (s, r) sr'"
proof -
  obtain s1 r1 where sr': "sr' = (s1, r1)" by (cases sr')
  note b = assms [unfolded sr']
  have eq: "st_outstanding s1 = fst (pump_batch cs (st_outstanding s, heap r))"
    "heap r1 = snd (pump_batch cs (st_outstanding s, heap r))"
    using b by (auto simp: apply_batch_def split: prod.splits)
  have "heap r1 ! f = heap r ! f" if "f \<notin> ran (st_outstanding s)" for f
    unfolding eq by (rule pump_batch_untouched) (use that in \<open>auto simp: ran_def\<close>)
  moreover have "heap r1 ! f = heap r ! f" if own: "own_ids s (heap r)" and f: "st_outstanding s1 c = Some f" for c f
  proof -
    have o: "st_outstanding s c = Some f" by (rule apply_batch_frame(6) [OF b f])
    with own have id: "f < length (heap r)" "fs_cmd_id (heap r ! f) = c" by (auto simp: own_ids_def)
    have "snd (pump_batch cs (st_outstanding s, heap r)) ! f =
        (case find (\<lambda>x. ucomp_cmd_id x = c) cs of None \<Rightarrow> heap r ! f
         | Some x \<Rightarrow> (heap r ! f)\<lparr>fs_ready := True, fs_status := ucomp_status x\<rparr>)
      \<and> fst (pump_batch cs (st_outstanding s, heap r)) c = (if c \<in> ucomp_cmd_id ` set cs then None else Some f)"
      by (rule pump_batch_fence) (use o id own in \<open>auto simp: own_ids_def\<close>)
    moreover have "find (\<lambda>x. ucomp_cmd_id x = c) cs = None" if "c \<notin> ucomp_cmd_id ` set cs"
      using that by (auto simp: find_None_iff)
    ultimately show ?thesis using f unfolding eq by (auto split: if_splits)
  qed
  ultimately show ?thesis using apply_batch_frame [OF b] by (auto simp: rt_le_def sr' ran_def)
qed

lemma rt_le_inv: "rt_le (s, r) (s', r') \<Longrightarrow> stream_inv s (heap r) \<Longrightarrow> stream_inv s' (heap r')"
  by (rule stream_inv_heap_le [of s "heap r"]) (auto simp: rt_le_def)

lemma pump_le:
  assumes "Stream_pump K s r = Some y"
  shows "rt_le (s, r) (fst y)"
proof (rule Stream_pump.raw_induct [of "\<lambda>K s r y. rt_le (s, r) (fst y)", OF _ assms], goal_cases)
  case (1 rec K s r y)
  obtain w x where rd: "sys_read K (st_fd s) BATCH_SIZE (world r) = (w, x)" by fastforce
  show ?case
  proof (cases x)
    case (Inl e)
    with 1(2) rd show ?thesis by (auto split: if_splits)
  next
    case (Inr cs)
    obtain s1 r1 where b: "apply_batch cs (s, r\<lparr>world := w\<rparr>) = (s1, r1)" by fastforce
    have le: "rt_le (s, r) (s1, r1)" using rt_le_batch [OF b] by simp
    have "rt_le (s, r) (fst y)" if "rec K s1 r1 = Some y"
      using rt_le_trans [OF le 1(1) [OF that]] .
    with 1(2) rd Inr b le show ?thesis by (auto split: if_splits)
  qed
qed

lemma wait_blocking_le:
  assumes "Stream_wait_state_blocking K f s r = Some y"
  shows "rt_le (s, r) (fst y) \<and> (snd y = Inr () \<longrightarrow> fs_ready (heap (snd (fst y)) ! f))"
proof (rule Stream_wait_state_blocking.raw_induct [of "\<lambda>K f s r y.
    rt_le (s, r) (fst y) \<and> (snd y = Inr () \<longrightarrow> fs_ready (heap (snd (fst y)) ! f))", OF _ assms], goal_cases)
  case (1 rec K f s r y)
  show ?case
  proof (cases "fs_ready (heap r ! f)")
    case True
    with 1(2) show ?thesis by auto
  next
    case False
    with 1(2) obtain w p where p: "sys_poll K (st_fd s) (- 1) (world r) = Some (w, p)"
      by (auto split: Option.bind_splits)
    show ?thesis
    proof (cases p)
      case (Inl e)
      with 1(2) False p have "rec K f s (r\<lparr>world := w\<rparr>) = Some y \<or>
          y = ((s, r\<lparr>world := w\<rparr>), Inl (SystemError e ''poll''))" by (auto split: if_splits)
      then show ?thesis using 1(1) [of K f s "r\<lparr>world := w\<rparr>" y] by auto
    next
      case (Inr b)
      with 1(2) False p obtain s1 r1 x where pm: "Stream_pump K s (r\<lparr>world := w\<rparr>) = Some ((s1, r1), x)"
        by (auto split: Option.bind_splits)
      from pump_le [OF pm] have le: "rt_le (s, r) (s1, r1)" by simp
      show ?thesis
      proof (cases x)
        case (Inl e)
        with 1(2) False p Inr pm le show ?thesis by auto
      next
        case (Inr u)
        with 1(2) False p \<open>p = Inr b\<close> pm have "rec K f s1 r1 = Some y" by simp
        with 1(1) le show ?thesis by (blast intro: rt_le_trans)
      qed
    qed
  qed
qed

text \<open>
  Rule for the waiting loop: what the clock, \<open>poll\<close> and \<open>pump\<close> preserve holds at the end, and the
  answer says whether the fence is ready there.
\<close>

lemma wait_loop_rule:
  assumes run: "wait_loop K dl f s r = Some y" and P: "P s r"
    and clock: "\<And>s r. P s r \<Longrightarrow> P s (r\<lparr>world := fst (clock_now K (world r))\<rparr>)"
    and poll: "\<And>s r t w x. P s r \<Longrightarrow> sys_poll K (st_fd s) t (world r) = Some (w, x) \<Longrightarrow> P s (r\<lparr>world := w\<rparr>)"
    and pump: "\<And>s r s' r' x. P s r \<Longrightarrow> Stream_pump K s r = Some ((s', r'), x) \<Longrightarrow> P s' r'"
  shows "P (fst (fst y)) (snd (fst y)) \<and> (\<forall>b. snd y = Inr b \<longrightarrow> fs_ready (heap (snd (fst y)) ! f) = b)"
proof -
  let ?Q = "\<lambda>f y. P (fst (fst y)) (snd (fst y)) \<and> (\<forall>b. snd y = Inr b \<longrightarrow> fs_ready (heap (snd (fst y)) ! f) = b)"
  have "K = K \<longrightarrow> P s r \<longrightarrow> ?Q f y"
  proof (rule wait_loop.raw_induct [of "\<lambda>K' dl f s r y. K' = K \<longrightarrow> P s r \<longrightarrow> ?Q f y", OF _ run],
      intro impI, goal_cases)
    case (1 rec K' dl f s r y)
    note run = 1(2) [unfolded 1(3)] and P = 1(4)
    have rec: "?Q f y" if "rec K dl f s' r' = Some y" "P s' r'" for s' r'
      using 1(1) [OF that(1)] that(2) by simp
    show ?case
    proof (cases "fs_ready (heap r ! f)")
      case True
      with run P show ?thesis by auto
    next
      case False
      obtain w0 t where wt: "(case dl of None \<Rightarrow> (world r, Some (- 1))
          | Some d \<Rightarrow> (case clock_now K (world r) of
              (w, now) \<Rightarrow> (w, if d - now \<le> 0 then None else Some ((d - now) div 1000000)))) = (w0, t)"
        by fastforce
      have w0: "P s (r\<lparr>world := w0\<rparr>)" using clock [OF P] wt P by (auto split: option.splits prod.splits)
      have polled: "P s (r\<lparr>world := w\<rparr>)" if "sys_poll K (st_fd s) ms w0 = Some (w, p)" for ms w p
        using poll [OF w0, of ms w p] that by simp
      have pumped: "P s1 r1" if "sys_poll K (st_fd s) ms w0 = Some (w, p)"
          "Stream_pump K s (r\<lparr>world := w\<rparr>) = Some ((s1, r1), x)" for ms w p s1 r1 x
        using pump [OF polled [OF that(1)] that(2)] .
      show ?thesis
      proof (cases t)
        case None
        with run [unfolded wt Let_def] False w0 show ?thesis by auto
      next
        case (Some ms)
        note run = run [unfolded wt Let_def Some]
        from run False obtain w p where p: "sys_poll K (st_fd s) ms w0 = Some (w, p)"
          by (auto split: Option.bind_splits)
        show ?thesis
        proof (cases "p = Inr True")
          case True
          with run False p obtain s1 r1 x where pm: "Stream_pump K s (r\<lparr>world := w\<rparr>) = Some ((s1, r1), x)"
            by (auto split: Option.bind_splits)
          with run False p True pumped [OF p pm] rec [of s1 r1] show ?thesis by (cases x) auto
        next
          case stop: False
          with run False p polled [OF p] rec [OF _ polled [OF p]] show ?thesis by (cases p) (auto split: if_splits)
        qed
      qed
    qed
  qed
  with P show ?thesis by simp
qed

lemma wait_loop_le:
  assumes "wait_loop K dl f s r = Some y"
  shows "rt_le (s, r) (fst y) \<and> (snd y = Inr True \<longrightarrow> fs_ready (heap (snd (fst y)) ! f))
   \<and> (snd y = Inr False \<longrightarrow> \<not> fs_ready (heap (snd (fst y)) ! f))"
  using wait_loop_rule [OF assms, of "\<lambda>s' r'. rt_le (s, r) (s', r')"]
  by (fastforce dest: pump_le intro: rt_le_trans)

lemma Stream_wait_le:
  assumes "Stream_wait K f t s r = Some y"
  shows "rt_le (s, r) (fst y) \<and> (snd y = Inr True \<longrightarrow> fs_ready (heap (snd (fst y)) ! f))
   \<and> (snd y = Inr False \<longrightarrow> \<not> fs_ready (heap (snd (fst y)) ! f))"
proof (cases "fs_ready (heap r ! f)")
  case True
  with assms show ?thesis by (auto simp: Stream_wait_def Fence_is_ready_def)
next
  case False
  obtain w now where c: "clock_now K (world r) = (w, now)" by fastforce
  have "wait_loop K (if 0 \<le> t then Some (now + t * 1000000) else None) f s (r\<lparr>world := w\<rparr>) = Some y"
    using assms False c by (simp add: Stream_wait_def Fence_is_ready_def)
  from wait_loop_le [OF this] show ?thesis by simp
qed

text \<open>After the throttle returns normally there is room for one more.\<close>

lemma throttle_inv:
  assumes inv: "stream_inv s (heap r)" and run: "Stream_throttle_before_submit K s r = Some ((s', r'), q)"
  shows "stream_inv s' (heap r')" and "q = Inr u \<Longrightarrow> length (st_order s') < DMA_ACCEL_QUEUE_DEPTH"
    and "length (heap r') = length (heap r)"
proof -
  have "stream_inv s' (heap r') \<and> (q = Inr () \<longrightarrow> length (st_order s') < DMA_ACCEL_QUEUE_DEPTH)
      \<and> length (heap r') = length (heap r)"
  proof (cases "length (st_order s) < DMA_ACCEL_QUEUE_DEPTH")
    case True
    with run inv show ?thesis by (simp add: Stream_throttle_before_submit_def)
  next
    case False
    let ?f = "hd (st_order s)"
    have ne: "st_order s \<noteq> []" and len: "length (st_order s) = DMA_ACCEL_QUEUE_DEPTH"
      using False stream_invD(6) [OF inv] by (auto simp: accel_simps)
    obtain s1 r1 x where w: "(if \<not> fs_ready (heap r ! ?f) then Stream_wait_state_blocking K ?f s r
        else Some ((s, r), Inr ())) = Some ((s1, r1), x)"
      using run False by (auto simp: Stream_throttle_before_submit_def Let_def split: Option.bind_splits)
    have le: "rt_le (s, r) (s1, r1)" using w wait_blocking_le [of K ?f s r] by (fastforce split: if_splits)
    have inv1: "stream_inv s1 (heap r1)" by (rule rt_le_inv [OF le inv])
    have ord: "st_order s1 = st_order s" and hl: "length (heap r1) = length (heap r)"
      using le by (simp_all add: rt_le_def)
    show ?thesis
    proof (cases x)
      case (Inl e)
      with run w inv1 hl False show ?thesis by (auto simp: Stream_throttle_before_submit_def Let_def)
    next
      case (Inr v)
      let ?out = "(st_outstanding s1)(fs_cmd_id (heap r1 ! ?f) := None)"
      have s': "s' = s1\<lparr>st_outstanding := ?out, st_order := tl (st_order s1)\<rparr>" "r' = r1" "q = Inr ()"
        using run w Inr False by (auto simp: Stream_throttle_before_submit_def Let_def)
      have out: "f \<in> set (tl (st_order s1))" if "?out c = Some f" for c f
      proof -
        have c: "st_outstanding s1 c = Some f" "c \<noteq> fs_cmd_id (heap r1 ! ?f)"
          using that by (auto split: if_splits)
        then have "f \<in> set (st_order s1)" "f \<noteq> ?f" using stream_invD(3,4) [OF inv1] by auto
        then show ?thesis using ne by (cases "st_order s1") (auto simp: ord)
      qed
      have "set (tl (st_order s1)) \<subseteq> set (st_order s1)" by (cases "st_order s1") auto
      then have "stream_inv s' (heap r')"
        using inv1 out stream_invD(4) [OF inv1] stream_invD(1,2,6) [OF inv1]
        by (auto simp: s' stream_inv_def distinct_tl split: if_splits)
      with s' len ne ord hl show ?thesis by (simp add: accel_simps)
    qed
  qed
  then show "stream_inv s' (heap r')" and "q = Inr u \<Longrightarrow> length (st_order s') < DMA_ACCEL_QUEUE_DEPTH"
    and "length (heap r') = length (heap r)" by auto
qed

lemma do_submit_inv:
  assumes inv: "stream_inv s (heap r)" and room: "length (st_order s) < DMA_ACCEL_QUEUE_DEPTH"
    and run: "Stream_do_submit K req s r = Some ((s', r'), q)"
  shows "stream_inv s' (heap r')"
proof -
  obtain w x where io: "ioctl_submit K (st_fd s) req (world r) = Some (w, x)"
    using run by (auto simp: Stream_do_submit_def split: Option.bind_splits)
  show ?thesis
  proof (cases x)
    case (Inl e)
    with run io inv show ?thesis by (auto simp: Stream_do_submit_def)
  next
    case (Inr req')
    let ?f = "length (heap r)"
    let ?out = "case st_outstanding s (sub_cmd_id req') of
        None \<Rightarrow> (st_outstanding s)(sub_cmd_id req' \<mapsto> ?f) | Some g \<Rightarrow> st_outstanding s"
    have s': "s' = s\<lparr>st_outstanding := ?out, st_order := st_order s @ [?f]\<rparr>"
      "heap r' = heap r @ [\<lparr>fs_cmd_id = sub_cmd_id req', fs_ready = False, fs_status = 0\<rparr>]"
      using run io Inr by (auto simp: Stream_do_submit_def Let_def)
    have "f \<in> set (st_order s @ [?f]) \<and> fs_cmd_id (heap r' ! f) = c" if "?out c = Some f" for c f
      using that stream_invD(3,4,5) [OF inv, of c f]
      by (auto simp: s' nth_append split: option.splits if_splits)
    moreover have "distinct (st_order s @ [?f])" "set (st_order s @ [?f]) \<subseteq> {..<length (heap r')}"
      using stream_invD(1,2) [OF inv] by (auto simp: s')
    ultimately show ?thesis using room by (auto simp: stream_inv_def s')
  qed
qed

lemma throttled_submit_inv:
  assumes inv: "stream_inv s (heap r)" and run: "throttled_submit K req s r = Some ((s', r'), q)"
  shows "stream_inv s' (heap r')"
proof -
  obtain s1 r1 x where t: "Stream_throttle_before_submit K s r = Some ((s1, r1), x)"
    using run by (auto simp: throttled_submit_def split: Option.bind_splits)
  note th = throttle_inv [OF inv t]
  show ?thesis
  proof (cases x)
    case (Inl e)
    with run t th(1) show ?thesis by (auto simp: throttled_submit_def)
  next
    case (Inr u)
    with run t have "Stream_do_submit K req s1 r1 = Some ((s', r'), q)" by (simp add: throttled_submit_def)
    with th Inr show ?thesis by (blast intro: do_submit_inv)
  qed
qed

lemmas submit_defs = Stream_submit_def Stream_submit_scale_add_def Stream_submit_tile_matmul_def

section \<open>The contract with the descriptor\<close>

text \<open>
  What a stream relies on of \<^verbatim>\<open>read()\<close>: the completions of its session form a queue, \<open>pending\<close>; a
  read takes as many as fit off its front, and fails with \<^verbatim>\<open>EAGAIN\<close> when it is empty. \<open>later\<close> are the
  completions the device has yet to deliver; reading does not change them.
\<close>

locale completion_source =
  fixes K :: "'w kernel" and fd :: int and ok :: "'w \<Rightarrow> bool"
    and pending later :: "'w \<Rightarrow> dma_accel_completion_uapi list"
  assumes read_empty: "ok w \<Longrightarrow> 0 < n \<Longrightarrow> pending w = [] \<Longrightarrow> sys_read K fd n w = (w, Inl EAGAIN)"
    and read_some: "ok w \<Longrightarrow> 0 < n \<Longrightarrow> pending w \<noteq> [] \<Longrightarrow>
      \<exists>w'. sys_read K fd n w = (w', Inr (take n (pending w))) \<and> ok w' \<and> pending w' = drop n (pending w)
           \<and> later w' = later w"
begin

lemma pump_all:
  assumes "ok (world r)" and "st_fd s = fd"
  shows "\<exists>w'. Stream_pump K s r = Some (apply_batch (pending (world r)) (s, r\<lparr>world := w'\<rparr>), Inr ())
           \<and> ok w' \<and> pending w' = [] \<and> later w' = later (world r)"
  using assms
proof (induction "length (pending (world r))" arbitrary: s r rule: less_induct)
  case less
  have pos: "0 < BATCH_SIZE" by (simp add: accel_simps)
  show ?case
  proof (cases "pending (world r) = []")
    case True
    with less.prems read_empty [OF _ pos] show ?thesis
      by (intro exI [of _ "world r"]) (simp add: Stream_pump.simps [of K s r])
  next
    case False
    let ?cs = "take BATCH_SIZE (pending (world r))"
    from read_some [OF less.prems(1) pos False] obtain w' where
      rd: "sys_read K fd BATCH_SIZE (world r) = (w', Inr ?cs)" "ok w'" "pending w' = drop BATCH_SIZE (pending (world r))"
      "later w' = later (world r)"
      by blast
    obtain s1 r1 where b: "apply_batch ?cs (s, r\<lparr>world := w'\<rparr>) = (s1, r1)" by fastforce
    have fr: "st_fd s1 = fd" "world r1 = w'" using apply_batch_frame(1,3) [OF b] less.prems(2) by simp_all
    have cs: "?cs \<noteq> []" using False pos by simp
    show ?thesis
    proof (cases "length ?cs < BATCH_SIZE")
      case True
      then have all: "?cs = pending (world r)" "pending w' = []" using rd(3) by auto
      have "length (pending (world r)) < BATCH_SIZE" using True by simp
      then have "Stream_pump K s r = Some ((s1, r1), Inr ())"
        using less.prems(2) rd(1) cs b by (simp add: Stream_pump.simps [of K s r])
      with rd(2,4) all b show ?thesis by metis
    next
      case False
      have "Stream_pump K s r = Stream_pump K s1 r1"
        using less.prems(2) rd(1) False cs b by (simp add: Stream_pump.simps [of K s r])
      moreover have "length (pending (world r1)) < length (pending (world r))"
        using cs pos by (simp add: fr rd(3))
      from less.hyps [OF this] obtain w'' where
        "Stream_pump K s1 r1 = Some (apply_batch (pending w') (s1, r1\<lparr>world := w''\<rparr>), Inr ())"
        "ok w''" "pending w'' = []" "later w'' = later (world r)" using fr rd(2,4) by auto
      moreover have "apply_batch (pending w') (s1, r1\<lparr>world := w''\<rparr>)
          = apply_batch (pending (world r)) (s, r\<lparr>world := w''\<rparr>)"
      proof -
        have "apply_batch ?cs (s, r\<lparr>world := w''\<rparr>) = (s1, r1\<lparr>world := w''\<rparr>)"
          by (rule apply_batch_world [OF b])
        then show ?thesis
          using apply_batch_append [of ?cs "pending w'" "(s, r\<lparr>world := w''\<rparr>)"] rd(3) by simp
      qed
      ultimately show ?thesis by metis
    qed
  qed
qed

end

text \<open>
  What waiting relies on: as long as completions are outstanding at the device, an unbounded
  \<^verbatim>\<open>poll()\<close> returns with the descriptor readable, and nothing is lost or reordered meanwhile.
\<close>

locale device_progress = completion_source +
  assumes poll_ready: "ok w \<Longrightarrow> pending w @ later w \<noteq> [] \<Longrightarrow>
      \<exists>w'. sys_poll K fd (- 1) w = Some (w', Inr True) \<and> ok w' \<and> pending w' \<noteq> []
           \<and> pending w' @ later w' = pending w @ later w"
    and clock_still: "ok w \<Longrightarrow> \<exists>w' t. clock_now K w = (w', t) \<and> ok w'
           \<and> pending w' = pending w \<and> later w' = later w"
begin

definition will_finish :: "fence \<Rightarrow> u32 \<Rightarrow> Stream \<Rightarrow> 'a rt \<Rightarrow> bool" where
  "will_finish f st s r \<longleftrightarrow> f < length (heap r) \<and>
     (if fs_ready (heap r ! f) then fs_status (heap r ! f) = st
      else st_outstanding s (fs_cmd_id (heap r ! f)) = Some f
        \<and> map_option ucomp_status (find (\<lambda>x. ucomp_cmd_id x = fs_cmd_id (heap r ! f))
                                    (pending (world r) @ later (world r))) = Some st)"

text \<open>A batch that is taken off the front of what is still to come keeps a fence on its way.\<close>

lemma batch_will_finish:
  assumes inv: "stream_inv s (heap r)" and fin: "will_finish f st s r" and nr: "\<not> fs_ready (heap r ! f)"
    and b: "apply_batch cs (s, r\<lparr>world := w\<rparr>) = (s1, r1)"
    and split: "pending (world r) @ later (world r) = cs @ pending w @ later w"
  shows "will_finish f st s1 r1"
proof -
  let ?c = "fs_cmd_id (heap r ! f)"
  let ?P = "\<lambda>x. ucomp_cmd_id x = ?c"
  have out: "st_outstanding s ?c = Some f" "f < length (heap r)"
    "map_option ucomp_status (find ?P (cs @ pending w @ later w)) = Some st"
    using fin nr by (simp_all add: will_finish_def split)
  have eq: "st_outstanding s1 = fst (pump_batch cs (st_outstanding s, heap r))"
    "heap r1 = snd (pump_batch cs (st_outstanding s, heap r))"
    using b by (auto simp: apply_batch_def split: prod.splits)
  note fence = pump_batch_fence [of "st_outstanding s" ?c f "heap r" cs, OF out(1,2) stream_invD(4) [OF inv] refl]
  have len: "f < length (heap r1)" and w1: "world r1 = w"
    using apply_batch_frame(3,4) [OF b] out(2) by simp_all
  have id: "fs_cmd_id (heap r1 ! f) = ?c" using apply_batch_frame(5) [OF b] out(2) by (simp add: heap_le_def)
  show ?thesis
  proof (cases "find ?P cs")
    case (Some x)
    with fence out(3) len show ?thesis by (simp add: will_finish_def eq find_append_case)
  next
    case None
    then have "?c \<notin> ucomp_cmd_id ` set cs" by (auto simp: find_None_iff)
    with None fence out(3) nr len id w1 show ?thesis by (simp add: will_finish_def eq find_append_case)
  qed
qed

text \<open>
  The same for every fence that is on its way or settled: a ready fence that the stream no longer
  tracks keeps its status.
\<close>

definition finishes :: "fence \<Rightarrow> u32 \<Rightarrow> Stream \<Rightarrow> 'a rt \<Rightarrow> bool" where
  "finishes f st s r \<longleftrightarrow> will_finish f st s r
     \<and> (fs_ready (heap r ! f) \<longrightarrow> st_outstanding s (fs_cmd_id (heap r ! f)) \<noteq> Some f)"

lemma finishes_world: "pending w @ later w = pending (world r) @ later (world r) \<Longrightarrow>
    finishes f st s (r\<lparr>world := w\<rparr>) = finishes f st s r"
  by (simp add: finishes_def will_finish_def)

lemma batch_finishes:
  assumes inv: "stream_inv s (heap r)" and fin: "finishes f st s r"
    and b: "apply_batch cs (s, r\<lparr>world := w\<rparr>) = (s1, r1)"
    and split: "pending (world r) @ later (world r) = cs @ pending w @ later w"
  shows "finishes f st s1 r1"
proof -
  let ?c = "fs_cmd_id (heap r ! f)"
  have f: "f < length (heap r)" using fin by (simp add: finishes_def will_finish_def)
  have eq: "st_outstanding s1 = fst (pump_batch cs (st_outstanding s, heap r))"
    "heap r1 = snd (pump_batch cs (st_outstanding s, heap r))"
    using b by (auto simp: apply_batch_def split: prod.splits)
  have id: "fs_cmd_id (heap r1 ! f) = ?c" using apply_batch_frame(5) [OF b] f by (simp add: heap_le_def)
  show ?thesis
  proof (cases "fs_ready (heap r ! f)")
    case True
    have no: "g \<noteq> f" if "st_outstanding s d = Some g" for d g
      using that fin True stream_invD(4) [OF inv that] by (auto simp: finishes_def)
    then have "heap r1 ! f = heap r ! f" unfolding eq by (rule pump_batch_untouched)
    moreover have "st_outstanding s1 ?c \<noteq> Some f"
      using apply_batch_frame(6) [OF b] no by blast
    ultimately show ?thesis
      using fin True apply_batch_frame(4) [OF b] by (simp add: finishes_def will_finish_def)
  next
    case False
    have wf: "will_finish f st s r" using fin by (simp add: finishes_def)
    have out: "st_outstanding s ?c = Some f" using wf False by (simp add: will_finish_def)
    note fence = pump_batch_fence [of "st_outstanding s" ?c f "heap r" cs, OF out f stream_invD(4) [OF inv] refl]
    have "st_outstanding s1 ?c \<noteq> Some f" if "fs_ready (heap r1 ! f)"
    proof -
      have "find (\<lambda>x. ucomp_cmd_id x = ?c) cs \<noteq> None"
        using that fence False unfolding eq by (auto split: option.splits)
      then have "?c \<in> ucomp_cmd_id ` set cs" by (auto simp: find_None_iff image_iff intro: sym)
      with fence show ?thesis unfolding eq by simp
    qed
    with batch_will_finish [OF inv wf False b split] id show ?thesis by (simp add: finishes_def)
  qed
qed

text \<open>One round of the waiting loops: poll, then pump.\<close>

lemma poll_pump_round:
  assumes ok: "ok (world r)" and fd: "st_fd s = fd" and inv: "stream_inv s (heap r)"
    and fin: "will_finish f st s r" and nr: "\<not> fs_ready (heap r ! f)"
  obtains w s1 r1 where "sys_poll K (st_fd s) (- 1) (world r) = Some (w, Inr True)"
    "Stream_pump K s (r\<lparr>world := w\<rparr>) = Some ((s1, r1), Inr ())"
    "ok (world r1)" "st_fd s1 = fd" "stream_inv s1 (heap r1)" "will_finish f st s1 r1"
    "length (pending (world r1) @ later (world r1)) < length (pending (world r) @ later (world r))"
    "\<And>g st'. finishes g st' s r \<Longrightarrow> finishes g st' s1 r1"
proof -
  have ne: "pending (world r) @ later (world r) \<noteq> []" using fin nr by (auto simp: will_finish_def)
  from poll_ready [OF ok ne] obtain w where w: "sys_poll K fd (- 1) (world r) = Some (w, Inr True)"
    "ok w" "pending w \<noteq> []" "pending w @ later w = pending (world r) @ later (world r)" by blast
  from pump_all [of "r\<lparr>world := w\<rparr>" s] w(2) fd obtain w' where p:
    "Stream_pump K s (r\<lparr>world := w\<rparr>) = Some (apply_batch (pending w) (s, r\<lparr>world := w'\<rparr>), Inr ())"
    "ok w'" "pending w' = []" "later w' = later w" by auto
  obtain s1 r1 where b: "apply_batch (pending w) (s, r\<lparr>world := w'\<rparr>) = (s1, r1)" by fastforce
  note fr = apply_batch_frame [OF b]
  have "stream_inv s1 (heap r1)"
    using rt_le_inv [OF rt_le_batch [OF b]] inv by simp
  moreover have "will_finish f st s1 r1"
    using batch_will_finish [OF inv fin nr b] w(4) p(3,4) by simp
  moreover have "length (pending (world r1) @ later (world r1)) < length (pending (world r) @ later (world r))"
    using fr(3) w(3,4) [symmetric] p(3,4) by simp
  moreover have "finishes g st' s1 r1" if "finishes g st' s r" for g st'
    using batch_finishes [OF inv that b] w(4) p(3,4) by simp
  ultimately show ?thesis using that [of w s1 r1] w(1) p b fr(1,3) fd by simp
qed

lemma wait_blocking_returns:
  assumes "ok (world r)" and "st_fd s = fd" and "stream_inv s (heap r)" and "will_finish f st s r"
  shows "\<exists>s' r'. Stream_wait_state_blocking K f s r = Some ((s', r'), Inr ())"
  using assms
proof (induction "length (pending (world r) @ later (world r))" arbitrary: s r rule: less_induct)
  case less
  show ?case
  proof (cases "fs_ready (heap r ! f)")
    case True
    then show ?thesis by (simp add: Stream_wait_state_blocking.simps [of K f s r])
  next
    case False
    from poll_pump_round [OF less.prems False] obtain w s1 r1 where rd:
      "sys_poll K (st_fd s) (- 1) (world r) = Some (w, Inr True)"
      "Stream_pump K s (r\<lparr>world := w\<rparr>) = Some ((s1, r1), Inr ())"
      "ok (world r1)" "st_fd s1 = fd" "stream_inv s1 (heap r1)" "will_finish f st s1 r1"
      "length (pending (world r1) @ later (world r1)) < length (pending (world r) @ later (world r))" .
    with less.hyps [OF rd(7,3,4,5,6)] False show ?thesis
      by (simp add: Stream_wait_state_blocking.simps [of K f s r])
  qed
qed

lemma wait_loop_returns:
  assumes "ok (world r)" and "st_fd s = fd" and "stream_inv s (heap r)" and "will_finish f st s r"
  shows "\<exists>s' r'. wait_loop K None f s r = Some ((s', r'), Inr True) \<and> fs_ready (heap r' ! f)
           \<and> fs_status (heap r' ! f) = st \<and> ok (world r') \<and> st_fd s' = fd \<and> stream_inv s' (heap r')
           \<and> (\<forall>g st'. finishes g st' s r \<longrightarrow> finishes g st' s' r')"
  using assms
proof (induction "length (pending (world r) @ later (world r))" arbitrary: s r rule: less_induct)
  case less
  show ?case
  proof (cases "fs_ready (heap r ! f)")
    case True
    with less.prems show ?thesis by (simp add: wait_loop.simps [of K None f s r] will_finish_def)
  next
    case False
    from poll_pump_round [OF less.prems False] obtain w s1 r1 where rd:
      "sys_poll K (st_fd s) (- 1) (world r) = Some (w, Inr True)"
      "Stream_pump K s (r\<lparr>world := w\<rparr>) = Some ((s1, r1), Inr ())"
      "ok (world r1)" "st_fd s1 = fd" "stream_inv s1 (heap r1)" "will_finish f st s1 r1"
      "length (pending (world r1) @ later (world r1)) < length (pending (world r) @ later (world r))"
      "\<And>g st'. finishes g st' s r \<Longrightarrow> finishes g st' s1 r1" by metis
    from less.hyps [OF rd(7,3,4,5,6)] False rd(8) show ?thesis
      by (simp add: wait_loop.simps [of K None f s r] rd(1,2)) blast
  qed
qed

lemma wait_returns_all:
  assumes "ok (world r)" and "st_fd s = fd" and "stream_inv s (heap r)" and "will_finish f st s r" and "t < 0"
  shows "\<exists>s' r'. Stream_wait K f t s r = Some ((s', r'), Inr True) \<and> fs_ready (heap r' ! f)
           \<and> fs_status (heap r' ! f) = st \<and> ok (world r') \<and> st_fd s' = fd \<and> stream_inv s' (heap r')
           \<and> (\<forall>g st'. finishes g st' s r \<longrightarrow> finishes g st' s' r')"
proof (cases "fs_ready (heap r ! f)")
  case True
  with assms show ?thesis by (simp add: Stream_wait_def Fence_is_ready_def will_finish_def)
next
  case False
  obtain w now where c: "clock_now K (world r) = (w, now)" "ok w" "pending w = pending (world r)"
    "later w = later (world r)" using clock_still [OF assms(1)] by blast
  have "will_finish f st s (r\<lparr>world := w\<rparr>)" using assms(4) c by (simp add: will_finish_def)
  with assms(2,3) c(2) wait_loop_returns [of "r\<lparr>world := w\<rparr>" s f st] have
    "\<exists>s' r'. wait_loop K None f s (r\<lparr>world := w\<rparr>) = Some ((s', r'), Inr True) \<and> fs_ready (heap r' ! f)
      \<and> fs_status (heap r' ! f) = st \<and> ok (world r') \<and> st_fd s' = fd \<and> stream_inv s' (heap r')
      \<and> (\<forall>g st'. finishes g st' s r \<longrightarrow> finishes g st' s' r')"
    using c(3,4) by (simp add: finishes_world)
  with False assms(5) c(1) show ?thesis by (simp add: Stream_wait_def Fence_is_ready_def)
qed

lemma wait_returns:
  assumes "ok (world r)" and "st_fd s = fd" and "stream_inv s (heap r)" and "will_finish f st s r" and "t < 0"
  shows "\<exists>s' r'. Stream_wait K f t s r = Some ((s', r'), Inr True) \<and> fs_ready (heap r' ! f)
           \<and> fs_status (heap r' ! f) = st"
  using wait_returns_all [OF assms] by blast

end

section \<open>A stream to try things on\<close>

text \<open>A kernel that accepts every command under a running number and never completes one.\<close>

definition counting_kernel :: "u64 kernel" where
  "counting_kernel = \<lparr>sys_open = (\<lambda>path w. (w, Inr 3)), sys_close = (\<lambda>fd w. w),
     ioctl_buffer_alloc = (\<lambda>fd req w. (w, Inl ENOSPC)),
     ioctl_submit = (\<lambda>fd req w. Some (w + 1, Inr (req\<lparr>sub_cmd_id := w + 1\<rparr>))),
     sys_mmap = (\<lambda>fd len off w. (w, Inl EINVAL)), sys_munmap = (\<lambda>a len w. w),
     sys_read = (\<lambda>fd n w. (w, Inl EAGAIN)), sys_poll = (\<lambda>fd t w. None), clock_now = (\<lambda>w. (w, 0))\<rparr>"

definition empty_stream :: Stream where
  "empty_stream = \<lparr>st_fd = 3, st_outstanding = Map.empty, st_order = []\<rparr>"

definition some_buffer :: Buffer where
  "some_buffer = \<lparr>buf_addr = Some 0x1000, buf_size = 4096, buf_id = 0\<rparr>"

definition submit_copy :: "Stream \<times> u64 rt \<Rightarrow> Stream \<times> u64 rt" where
  "submit_copy sr = (case sr of (s, r) \<Rightarrow>
     (case Stream_submit counting_kernel OPCODE_COPY some_buffer 0 some_buffer 0 64 s r of
        Some (sr', q) \<Rightarrow> sr' | None \<Rightarrow> (s, r)))"

lemma stream_inv_empty: "stream_inv empty_stream h"
  by (simp add: stream_inv_def empty_stream_def)

section \<open>Properties of a stream\<close>

text \<open>
  C20: backpressure. Whatever the kernel answers, a submission that returns, normally or with an
  exception, leaves the stream's bookkeeping consistent and at most \<^verbatim>\<open>DMA_ACCEL_QUEUE_DEPTH\<close>
  commands outstanding; and a new command is handed to the kernel only when fewer than that are
  tracked.
\<close>

theorem stream_backpressure:
  assumes "stream_inv s (heap r)"
  shows "(\<forall>op src so dst do len s' r' q. Stream_submit K op src so dst do len s r = Some ((s', r'), q) \<longrightarrow>
            stream_inv s' (heap r') \<and> card (dom (st_outstanding s')) \<le> DMA_ACCEL_QUEUE_DEPTH)
     \<and> (\<forall>a ao b bo dst do len x s' r' q. Stream_submit_scale_add K a ao b bo dst do len x s r = Some ((s', r'), q) \<longrightarrow>
            stream_inv s' (heap r') \<and> card (dom (st_outstanding s')) \<le> DMA_ACCEL_QUEUE_DEPTH)
     \<and> (\<forall>a ao b bo c co s' r' q. Stream_submit_tile_matmul K a ao b bo c co s r = Some ((s', r'), q) \<longrightarrow>
            stream_inv s' (heap r') \<and> card (dom (st_outstanding s')) \<le> DMA_ACCEL_QUEUE_DEPTH)
     \<and> (\<forall>s' r' u. Stream_throttle_before_submit K s r = Some ((s', r'), Inr u) \<longrightarrow>
            length (st_order s') < DMA_ACCEL_QUEUE_DEPTH)"
proof -
  have "stream_inv s' (heap r') \<and> card (dom (st_outstanding s')) \<le> DMA_ACCEL_QUEUE_DEPTH"
    if "throttled_submit K req s r = Some ((s', r'), q)" for req s' r' q
    using throttled_submit_inv [OF assms that] stream_inv_outstanding(2) [of s' "heap r'"]
      stream_invD(6) [of s' "heap r'"] by force
  then show ?thesis using throttle_inv(2) [OF assms] unfolding submit_defs by blast
qed

theorem stream_backpressure_witness:
  "\<exists>s' r' q. Stream_submit counting_kernel OPCODE_COPY some_buffer 0 some_buffer 0 64 empty_stream
        \<lparr>world = 0, heap = []\<rparr> = Some ((s', r'), q)
     \<and> stream_inv s' (heap r') \<and> card (dom (st_outstanding s')) \<le> DMA_ACCEL_QUEUE_DEPTH"
proof -
  obtain y where y: "Stream_submit counting_kernel OPCODE_COPY some_buffer 0 some_buffer 0 64 empty_stream
        \<lparr>world = 0, heap = []\<rparr> = Some y"
    by (simp add: Stream_submit_def throttled_submit_def Stream_throttle_before_submit_def
        Stream_do_submit_def counting_kernel_def empty_stream_def accel_simps Let_def)
  moreover obtain s' r' q where "y = ((s', r'), q)" by (cases y) auto
  ultimately show ?thesis
    using stream_backpressure [of empty_stream "\<lparr>world = 0, heap = []\<rparr>" counting_kernel] stream_inv_empty
    by fastforce
qed

text \<open>
  C21: \<^verbatim>\<open>wait()\<close> tells the truth. When it returns \<^verbatim>\<open>true\<close> the fence is ready and its status can be
  read; when it returns \<^verbatim>\<open>false\<close> the fence is not ready; in every case, an exception included, the
  stream's bookkeeping stays consistent and no fence is lost or reset.
\<close>

theorem wait_sound:
  assumes "stream_inv s (heap r)" and "Stream_wait K f t s r = Some ((s', r'), q)"
  shows "stream_inv s' (heap r') \<and> heap_le (heap r) (heap r')
     \<and> (q = Inr True \<longrightarrow> Fence_status (heap r') f = Inr (fs_status (heap r' ! f)))
     \<and> (q = Inr False \<longrightarrow> \<not> Fence_is_ready (heap r') f)"
proof -
  note w = Stream_wait_le [OF assms(2)]
  then have le: "rt_le (s, r) (s', r')" by simp
  then have "heap_le (heap r) (heap r')" by (simp add: rt_le_def)
  with w rt_le_inv [OF le assms(1)] show ?thesis by (simp add: Fence_status_def Fence_is_ready_def)
qed

theorem wait_sound_witness:
  "Stream_wait counting_kernel 0 0 empty_stream \<lparr>world = 0, heap = [\<lparr>fs_cmd_id = 1, fs_ready = False, fs_status = 0\<rparr>]\<rparr>
     = Some ((empty_stream, \<lparr>world = 0, heap = [\<lparr>fs_cmd_id = 1, fs_ready = False, fs_status = 0\<rparr>]\<rparr>), Inr False)
   \<and> \<not> Fence_is_ready [\<lparr>fs_cmd_id = 1, fs_ready = False, fs_status = 0\<rparr>] 0"
proof -
  let ?r = "\<lparr>world = (0 :: u64), heap = [\<lparr>fs_cmd_id = 1, fs_ready = False, fs_status = 0\<rparr>]\<rparr>"
  have run: "Stream_wait counting_kernel 0 0 empty_stream ?r = Some ((empty_stream, ?r), Inr False)"
    by (simp add: Stream_wait_def Fence_is_ready_def counting_kernel_def wait_loop.simps)
  from wait_sound [OF stream_inv_empty run] run show ?thesis by simp
qed

lemma submit_copy_inv: "stream_inv (fst sr) (heap (snd sr)) \<Longrightarrow>
   stream_inv (fst (submit_copy sr)) (heap (snd (submit_copy sr)))"
  by (cases sr) (auto simp: submit_copy_def Stream_submit_def throttled_submit_inv split: option.split)

lemma submit_copies_inv:
  "stream_inv (fst ((submit_copy ^^ n) (empty_stream, r))) (heap (snd ((submit_copy ^^ n) (empty_stream, r))))"
  by (induction n) (simp_all add: stream_inv_empty submit_copy_inv)

text \<open>
  C21: moving a stream loses the backpressure. The move constructor does not take
  \<^verbatim>\<open>submission_order_\<close>: from a stream with sixteen commands outstanding and a consistent bookkeeping,
  the stream it is moved into accepts a seventeenth at once, with nothing completed in between.
\<close>

theorem move_loses_backpressure:
  "\<exists>s r ids. stream_inv s (heap r) \<and> distinct ids \<and> length ids = DMA_ACCEL_QUEUE_DEPTH + 1 \<and>
     (case Stream_submit counting_kernel OPCODE_COPY some_buffer 0 some_buffer 0 64 (fst (Stream_move s)) r of
        Some ((s', r'), Inr f) \<Rightarrow> set ids \<subseteq> dom (st_outstanding s') | _ \<Rightarrow> False)"
proof -
  let ?sr = "(submit_copy ^^ 16) (empty_stream, \<lparr>world = 0, heap = []\<rparr>)"
  let ?ids = "map (of_nat :: nat \<Rightarrow> u64) [1..<18]"
  have "distinct ?ids" "length ?ids = DMA_ACCEL_QUEUE_DEPTH + 1" by code_simp+
  moreover have "case Stream_submit counting_kernel OPCODE_COPY some_buffer 0 some_buffer 0 64
        (fst (Stream_move (fst ?sr))) (snd ?sr) of
      Some ((s', r'), Inr f) \<Rightarrow> list_all (\<lambda>c. \<not> Option.is_none (st_outstanding s' c)) ?ids | _ \<Rightarrow> False"
    by code_simp
  then have "case Stream_submit counting_kernel OPCODE_COPY some_buffer 0 some_buffer 0 64
        (fst (Stream_move (fst ?sr))) (snd ?sr) of
      Some ((s', r'), Inr f) \<Rightarrow> set ?ids \<subseteq> dom (st_outstanding s') | _ \<Rightarrow> False"
    by (auto simp: list_all_iff Option.is_none_def split: option.splits prod.splits sum.splits)
  ultimately show ?thesis using submit_copies_inv [of 16 "\<lparr>world = 0, heap = []\<rparr>"] by blast
qed

end
