(* ===== verification/Runtime_Frame.thy ===== *)
theory Runtime_Frame
  imports Runtime_Correct
begin

text \<open>
  What a stream's waiting does to the world. A property \<open>I\<close> of the world that \<^verbatim>\<open>read()\<close> and \<^verbatim>\<open>poll()\<close>
  on the descriptor keep is kept by pumping, by both waiting loops and by the throttle; and an error
  that neither of the two calls returns is not thrown by them either. The clients of a stream use
  this to see the state in which the kernel judges their submission.
\<close>

locale kernel_frame =
  fixes K :: "'w kernel" and fd :: int and I :: "'w \<Rightarrow> bool" and bad :: errno
  assumes read_keeps: "I w \<Longrightarrow> sys_read K fd n w = (w', x) \<Longrightarrow> I w' \<and> x \<noteq> Inl bad"
    and poll_keeps: "I w \<Longrightarrow> sys_poll K fd t w = Some (w', p) \<Longrightarrow> I w' \<and> p \<noteq> Inl bad"
begin

definition good :: "Stream \<Rightarrow> 'w rt \<Rightarrow> bool" where
  "good s r \<longleftrightarrow> st_fd s = fd \<and> I (world r)"

definition keeps :: "('w, 'b) outcome \<Rightarrow> bool" where
  "keeps y \<longleftrightarrow> good (fst (fst y)) (snd (fst y)) \<and> (\<forall>m. snd y \<noteq> Inl (SystemError bad m))"

lemma keeps_simps [simp]:
  "keeps ((s, r), Inr x) \<longleftrightarrow> good s r"
  "keeps ((s, r), Inl (SystemError e m)) \<longleftrightarrow> good s r \<and> e \<noteq> bad"
  by (auto simp: keeps_def)

lemma keeps_good: "keeps ((s, r), q) \<Longrightarrow> good s r"
  by (simp add: keeps_def)

lemma good_read: "good s r \<Longrightarrow> sys_read K (st_fd s) n (world r) = (w, x) \<Longrightarrow> good s (r\<lparr>world := w\<rparr>) \<and> x \<noteq> Inl bad"
  using read_keeps [of "world r" n w x] by (auto simp: good_def)

lemma good_poll:
  "good s r \<Longrightarrow> sys_poll K (st_fd s) t (world r) = Some (w, p) \<Longrightarrow> good s (r\<lparr>world := w\<rparr>) \<and> p \<noteq> Inl bad"
  using poll_keeps [of "world r" t w p] by (auto simp: good_def)

lemma good_batch: "good s r \<Longrightarrow> apply_batch cs (s, r) = (s1, r1) \<Longrightarrow> good s1 r1"
  using apply_batch_frame(1,3) [of cs s r s1 r1] by (simp add: good_def)

lemma pump_keeps:
  assumes "Stream_pump K s r = Some y" and "good s r"
  shows "keeps y"
proof -
  have "K = K \<longrightarrow> good s r \<longrightarrow> keeps y"
  proof (rule Stream_pump.raw_induct [of "\<lambda>K' s r y. K' = K \<longrightarrow> good s r \<longrightarrow> keeps y",
        OF _ assms(1)], intro impI, goal_cases)
    case (1 rec K' s r y)
    obtain w x where rd: "sys_read K (st_fd s) BATCH_SIZE (world r) = (w, x)" by fastforce
    note w = good_read [OF 1(4) rd]
    show ?case
    proof (cases x)
      case (Inl e)
      with 1 rd w show ?thesis by (auto split: if_splits)
    next
      case (Inr cs)
      obtain s1 r1 where b: "apply_batch cs (s, r\<lparr>world := w\<rparr>) = (s1, r1)" by fastforce
      have "good s1 r1" using good_batch [OF _ b] w by simp
      with 1 rd Inr b w show ?thesis by (auto split: if_splits)
    qed
  qed
  with assms(2) show ?thesis by simp
qed

lemma wait_blocking_keeps:
  assumes "Stream_wait_state_blocking K f s r = Some y" and "good s r"
  shows "keeps y"
proof -
  have "K = K \<longrightarrow> good s r \<longrightarrow> keeps y"
  proof (rule Stream_wait_state_blocking.raw_induct [of "\<lambda>K' f s r y. K' = K \<longrightarrow> good s r \<longrightarrow> keeps y",
        OF _ assms(1)], intro impI, goal_cases)
    case (1 rec K' f s r y)
    show ?case
    proof (cases "fs_ready (heap r ! f)")
      case True
      with 1 show ?thesis by auto
    next
      case False
      with 1 obtain w p where p: "sys_poll K (st_fd s) (- 1) (world r) = Some (w, p)"
        by (auto split: Option.bind_splits)
      note w = good_poll [OF 1(4) p]
      show ?thesis
      proof (cases p)
        case (Inl e)
        with 1 False p w show ?thesis by (auto split: if_splits)
      next
        case (Inr b)
        with 1 False p obtain s1 r1 q where pm: "Stream_pump K s (r\<lparr>world := w\<rparr>) = Some ((s1, r1), q)"
          by (auto split: Option.bind_splits)
        have k: "keeps ((s1, r1), q)" using pump_keeps [OF pm] w by simp
        with 1 False p Inr pm keeps_good [OF k] show ?thesis by (cases q) (auto simp: keeps_def)
      qed
    qed
  qed
  with assms(2) show ?thesis by simp
qed

lemma throttle_keeps:
  assumes "Stream_throttle_before_submit K s r = Some y" and "good s r"
  shows "keeps y"
proof (cases "length (st_order s) < DMA_ACCEL_QUEUE_DEPTH")
  case True
  with assms show ?thesis by (auto simp: Stream_throttle_before_submit_def)
next
  case False
  let ?f = "hd (st_order s)"
  obtain s1 r1 q where w: "(if \<not> fs_ready (heap r ! ?f) then Stream_wait_state_blocking K ?f s r
      else Some ((s, r), Inr ())) = Some ((s1, r1), q)"
    using assms(1) False by (auto simp: Stream_throttle_before_submit_def Let_def split: Option.bind_splits)
  then have k: "keeps ((s1, r1), q)"
    using wait_blocking_keeps [of ?f s r] assms(2) by (auto split: if_splits)
  with w False assms(1) keeps_good [OF k] show ?thesis
    by (cases q) (auto simp: Stream_throttle_before_submit_def Let_def keeps_def good_def)
qed

text \<open>A submission fails with \<open>bad\<close> only if the kernel answers it so, in a state with \<open>I\<close>.\<close>

lemma submit_error:
  assumes "throttled_submit K req s r = Some ((s', r'), Inl (SystemError bad m))"
    and "good s r"
  obtains w w' where "I w" "ioctl_submit K fd req w = Some (w', Inl bad)"
proof -
  obtain s1 r1 q where t: "Stream_throttle_before_submit K s r = Some ((s1, r1), q)"
    using assms(1) by (auto simp: throttled_submit_def split: Option.bind_splits)
  note k = throttle_keeps [OF t assms(2)]
  obtain u where q: "q = Inr u"
    using k assms(1) t by (cases q) (auto simp: throttled_submit_def keeps_def)
  then have "Stream_do_submit K req s1 r1 = Some ((s', r'), Inl (SystemError bad m))"
    using assms(1) t by (simp add: throttled_submit_def)
  then obtain w' where "ioctl_submit K fd req (world r1) = Some (w', Inl bad)"
    using keeps_good [OF k]
    by (auto simp: Stream_do_submit_def Let_def good_def split: Option.bind_splits sum.splits)
  with keeps_good [OF k] that show ?thesis by (auto simp: good_def)
qed

end

end
