(* ===== verification/Runtime_Driver.thy ===== *)
theory Runtime_Driver
  imports Runtime_Correct Driver_Correct
begin

unbundle bit_operations_syntax

text \<open>
  The runtime on the driver. \<open>driver_kernel\<close> answers the runtime's system calls with the driver's
  handlers: a file descriptor is the session pointer, and the world is the driver's state with the
  list of completions the device is going to post. Waiting in \<^verbatim>\<open>poll()\<close> lets the device post them
  one at a time, each through the interrupt handler. With it both contracts of the runtime are
  discharged, and what was proved from them holds of the two together.
\<close>

section \<open>The driver as a kernel\<close>

record drv_world =
  dk :: kstate
  dscript :: "dma_accel_completion list"
  dclock :: int

text \<open>\<open>p\<close>: the calling session. The device posts completions until the session is readable.\<close>

fun drv_poll :: "sess_ptr \<Rightarrow> int \<Rightarrow> dma_accel_completion list \<Rightarrow> kstate
    \<Rightarrow> (kstate \<times> dma_accel_completion list \<times> bool) option" where
  "drv_poll p t script k =
     (case sessions k p of
        None \<Rightarrow> None
      | Some x \<Rightarrow>
          if dma_accel_chr_poll x \<noteq> 0 then Some (k, script, True)
          else case script of
                 [] \<Rightarrow> if t < 0 then None else Some (k, [], False)
               | c # cs \<Rightarrow> (case isr_completion c k of None \<Rightarrow> None | Some k' \<Rightarrow> drv_poll p t cs k'))"

declare drv_poll.simps [simp del]

definition EBADF :: errno where "EBADF = EOther 9"

text \<open>
  \<open>mem\<close> answers \<^verbatim>\<open>dma_alloc_coherent\<close> and \<open>fresh\<close> \<^verbatim>\<open>kzalloc\<close>. The mapped address is the kernel address
  of the buffer, and the clock advances by a microsecond a reading.
\<close>

definition driver_kernel :: "(u64 \<times> dma_addr_t) option \<Rightarrow> sess_ptr option \<Rightarrow> drv_world kernel" where
  "driver_kernel mem fresh =
     \<lparr>sys_open = (\<lambda>path w. case dma_accel_chr_open fresh (dk w) of
          (k, Inl e) \<Rightarrow> (w\<lparr>dk := k\<rparr>, Inl e) | (k, Inr p) \<Rightarrow> (w\<lparr>dk := k\<rparr>, Inr (int p))),
      sys_close = (\<lambda>fd w. case dma_accel_chr_release [] (nat fd) (dk w) of
          None \<Rightarrow> w | Some (k, freed) \<Rightarrow> w\<lparr>dk := k\<rparr>),
      ioctl_buffer_alloc = (\<lambda>fd req w. case sessions (dk w) (nat fd) of
          None \<Rightarrow> (w, Inl EBADF)
        | Some x \<Rightarrow> (case dma_accel_ioc_buffer_alloc True mem True (nat fd) req (kdev (dk w), x) of
            (ds, r) \<Rightarrow> (w\<lparr>dk := put_session (dk w) (nat fd) ds\<rparr>, r))),
      ioctl_submit = (\<lambda>fd req w. case sessions (dk w) (nat fd) of
          None \<Rightarrow> Some (w, Inl EBADF)
        | Some x \<Rightarrow> map_option (\<lambda>(ds, r). (w\<lparr>dk := put_session (dk w) (nat fd) ds\<rparr>, r))
            (dma_accel_ioc_submit True True [] (nat fd) req (kdev (dk w), x))),
      sys_mmap = (\<lambda>fd len off w. (w, map_sum id fst
          (dma_accel_chr_mmap None (nat fd) (drop_bit PAGE_SHIFT off) (ucast len) (kdev (dk w))))),
      sys_munmap = (\<lambda>a len w. w),
      sys_read = (\<lambda>fd n w. case sessions (dk w) (nat fd) of
          None \<Rightarrow> (w, Inl EBADF)
        | Some x \<Rightarrow> (case dma_accel_chr_read (\<lambda>_. True) (n * sizeof_completion_uapi) 0 x of
            (x', pos, r) \<Rightarrow> (w\<lparr>dk := (dk w)\<lparr>sessions := (sessions (dk w))(nat fd \<mapsto> x')\<rparr>\<rparr>, r))),
      sys_poll = (\<lambda>fd t w. map_option (\<lambda>(k, script, b). (w\<lparr>dk := k, dscript := script\<rparr>, Inr b))
          (drv_poll (nat fd) t (dscript w) (dk w))),
      clock_now = (\<lambda>w. (w\<lparr>dclock := dclock w + 1000\<rparr>, dclock w))\<rparr>"

section \<open>What the contracts need of the driver's state\<close>

text \<open>The identifiers of the commands in flight are distinct and below the next one.\<close>

definition table_ids_ok :: "dma_accel_dev \<Rightarrow> bool" where
  "table_ids_ok d \<longleftrightarrow> (\<forall>i < length (cmd_table d). cc_valid (cmd_table d ! i) \<longrightarrow>
     cc_cmd_id (cmd_table d ! i) \<le> next_cmd_id d
     \<and> (\<forall>j < length (cmd_table d). cc_valid (cmd_table d ! j)
          \<and> cc_cmd_id (cmd_table d ! j) = cc_cmd_id (cmd_table d ! i) \<longrightarrow> j = i))"

lemma table_ids_okD:
  assumes "table_ids_ok d" and "i < length (cmd_table d)" and "cc_valid (cmd_table d ! i)"
  shows "cc_cmd_id (cmd_table d ! i) \<le> next_cmd_id d"
    and "j < length (cmd_table d) \<Longrightarrow> cc_valid (cmd_table d ! j) \<Longrightarrow>
         cc_cmd_id (cmd_table d ! j) = cc_cmd_id (cmd_table d ! i) \<Longrightarrow> j = i"
  using assms unfolding table_ids_ok_def by blast+

lemma table_ids_okI:
  assumes "\<And>i. i < length (cmd_table d) \<Longrightarrow> cc_valid (cmd_table d ! i) \<Longrightarrow>
      cc_cmd_id (cmd_table d ! i) \<le> next_cmd_id d"
    and "\<And>i j. i < length (cmd_table d) \<Longrightarrow> cc_valid (cmd_table d ! i) \<Longrightarrow> j < length (cmd_table d) \<Longrightarrow>
      cc_valid (cmd_table d ! j) \<Longrightarrow> cc_cmd_id (cmd_table d ! j) = cc_cmd_id (cmd_table d ! i) \<Longrightarrow> j = i"
  shows "table_ids_ok d"
  unfolding table_ids_ok_def using assms by blast

text \<open>
  The completions to come are for commands of session \<open>p\<close> in the table, one for each, and the
  session's ring has room for all of them.
\<close>

definition script_ok :: "sess_ptr \<Rightarrow> dma_accel_completion list \<Rightarrow> dma_accel_dev \<Rightarrow> bool" where
  "script_ok p script d \<longleftrightarrow> distinct (map comp_cmd_id script)
     \<and> (\<forall>c \<in> set script. \<exists>e \<in> set (cmd_table d). valid_of p e \<and> cc_cmd_id e = comp_cmd_id c)"

definition drv_ok :: "sess_ptr \<Rightarrow> drv_world \<Rightarrow> bool" where
  "drv_ok p w \<longleftrightarrow> (case sessions (dk w) p of None \<Rightarrow> False | Some x \<Rightarrow>
     wf_session x \<and> length (unread x) + length (dscript w) \<le> COMP_RING_SIZE
     \<and> table_ids_ok (kdev (dk w)) \<and> script_ok p (dscript w) (kdev (dk w)))"

definition drv_pending :: "sess_ptr \<Rightarrow> drv_world \<Rightarrow> dma_accel_completion_uapi list" where
  "drv_pending p w = (case sessions (dk w) p of None \<Rightarrow> [] | Some x \<Rightarrow> map to_uapi (unread x))"

definition drv_later :: "drv_world \<Rightarrow> dma_accel_completion_uapi list" where
  "drv_later w = map to_uapi (dscript w)"

lemma drv_okE:
  assumes "drv_ok p w"
  obtains x where "sessions (dk w) p = Some x" "wf_session x"
    "length (unread x) + length (dscript w) \<le> COMP_RING_SIZE"
    "table_ids_ok (kdev (dk w))" "script_ok p (dscript w) (kdev (dk w))"
  using assms by (auto simp: drv_ok_def split: option.splits)

lemma drv_okI:
  "sessions (dk w) p = Some x \<Longrightarrow> wf_session x \<Longrightarrow> length (unread x) + length (dscript w) \<le> COMP_RING_SIZE \<Longrightarrow>
   table_ids_ok (kdev (dk w)) \<Longrightarrow> script_ok p (dscript w) (kdev (dk w)) \<Longrightarrow> drv_ok p w"
  by (simp add: drv_ok_def)

text \<open>The completion of a command in the table clears its entry and reaches its session.\<close>

lemma script_entry:
  assumes ids: "table_ids_ok (kdev k)" and sc: "script_ok p (c # cs) (kdev k)" and x: "sessions k p = Some x"
  obtains i where "i < length (cmd_table (kdev k))" "valid_of p (cmd_table (kdev k) ! i)"
    "cc_cmd_id (cmd_table (kdev k) ! i) = comp_cmd_id c"
    "isr_completion c k = Some (k\<lparr>kdev := total_inflight_dec ((kdev k)\<lparr>cmd_table :=
         (cmd_table (kdev k))[i := (cmd_table (kdev k) ! i)\<lparr>cc_valid := False\<rparr>]\<rparr>),
       sessions := (sessions k)(p \<mapsto> session_inflight_dec (isr_deliver c x))\<rparr>)"
proof -
  let ?t = "cmd_table (kdev k)"
  from sc obtain i where i: "i < length ?t" "valid_of p (?t ! i)" "cc_cmd_id (?t ! i) = comp_cmd_id c"
    by (auto simp: script_ok_def in_set_conv_nth)
  have v: "cc_valid (?t ! i)" "cc_sess (?t ! i) = Some p" using i(2) by (auto simp: valid_of_def)
  have "first_index (\<lambda>e. cc_valid e \<and> cc_cmd_id e = comp_cmd_id c) ?t = Some i"
    unfolding first_index_Some
  proof (intro conjI allI impI notI)
    fix j assume j: "j < i" "cc_valid (?t ! j) \<and> cc_cmd_id (?t ! j) = comp_cmd_id c"
    then have "j = i" using table_ids_okD(2) [OF ids i(1) v(1), of j] i(1,3) by simp
    with j(1) show False by simp
  qed (use i v in simp_all)
  then have "isr_route (comp_cmd_id c) (kdev k)
      = ((kdev k)\<lparr>cmd_table := ?t[i := (?t ! i)\<lparr>cc_valid := False\<rparr>]\<rparr>, Some p)"
    using v by (simp add: isr_route_def)
  with x show ?thesis by (intro that [OF i]) (simp add: isr_completion_def)
qed

lemma script_completion:
  assumes ids: "table_ids_ok (kdev k)" and sc: "script_ok p (c # cs) (kdev k)" and x: "sessions k p = Some x"
  obtains k' where "isr_completion c k = Some k'"
    "sessions k' p = Some (session_inflight_dec (isr_deliver c x))"
    "table_ids_ok (kdev k')" "script_ok p cs (kdev k')"
proof -
  let ?t = "cmd_table (kdev k)"
  obtain i where i: "i < length ?t" "valid_of p (?t ! i)" "cc_cmd_id (?t ! i) = comp_cmd_id c"
    and run: "isr_completion c k = Some (k\<lparr>kdev := total_inflight_dec ((kdev k)\<lparr>cmd_table := ?t[i := (?t ! i)\<lparr>cc_valid := False\<rparr>]\<rparr>),
       sessions := (sessions k)(p \<mapsto> session_inflight_dec (isr_deliver c x))\<rparr>)" by (rule script_entry [OF assms])
  let ?k = "k\<lparr>kdev := total_inflight_dec ((kdev k)\<lparr>cmd_table := ?t[i := (?t ! i)\<lparr>cc_valid := False\<rparr>]\<rparr>),
       sessions := (sessions k)(p \<mapsto> session_inflight_dec (isr_deliver c x))\<rparr>"
  have tab: "cmd_table (kdev ?k) = ?t[i := (?t ! i)\<lparr>cc_valid := False\<rparr>]" "next_cmd_id (kdev ?k) = next_cmd_id (kdev k)"
    by (simp_all add: total_inflight_dec_def)
  have "table_ids_ok (kdev ?k)"
  proof (rule table_ids_okI, goal_cases)
    case (1 j)
    then show ?case using table_ids_okD(1) [OF ids, of j] by (simp add: tab nth_update_if split: if_splits)
  next
    case (2 j l)
    then show ?case using table_ids_okD(2) [OF ids, of j l] by (simp add: tab nth_update_if split: if_splits)
  qed
  moreover have "script_ok p cs (kdev ?k)"
    unfolding script_ok_def tab
  proof (intro conjI ballI)
    show "distinct (map comp_cmd_id cs)" using sc by (simp add: script_ok_def)
    fix d assume d: "d \<in> set cs"
    with sc obtain e where "e \<in> set ?t" "valid_of p e" "cc_cmd_id e = comp_cmd_id d"
      unfolding script_ok_def by (metis list.set_intros(2))
    then obtain j where j: "j < length ?t" "valid_of p (?t ! j)" "cc_cmd_id (?t ! j) = comp_cmd_id d"
      by (auto simp: in_set_conv_nth)
    have "comp_cmd_id d \<noteq> comp_cmd_id c" using sc d by (auto simp: script_ok_def image_iff)
    then have "j \<noteq> i" using j(3) i(3) by auto
    then have "?t[i := (?t ! i)\<lparr>cc_valid := False\<rparr>] ! j = ?t ! j" by simp
    with j show "\<exists>e \<in> set (?t[i := (?t ! i)\<lparr>cc_valid := False\<rparr>]). valid_of p e \<and> cc_cmd_id e = comp_cmd_id d"
      by (metis length_list_update nth_mem)
  qed
  ultimately show ?thesis using that [OF run] by simp
qed

lemma chr_poll_iff: "dma_accel_chr_poll x \<noteq> 0 \<longleftrightarrow> unread x \<noteq> []"
  by (simp add: dma_accel_chr_poll_def unread_def ring_list_empty_iff EPOLLIN_def EPOLLRDNORM_def)

text \<open>Waiting with something to come: the device posts until the session is readable.\<close>

lemma drv_poll_ready:
  assumes "sessions k p = Some x" and "wf_session x" and "length (unread x) + length script \<le> COMP_RING_SIZE"
    and "table_ids_ok (kdev k)" and "script_ok p script (kdev k)" and "unread x \<noteq> [] \<or> script \<noteq> []"
  obtains k' script' x' where "drv_poll p t script k = Some (k', script', True)"
    "sessions k' p = Some x'" "wf_session x'" "length (unread x') + length script' \<le> COMP_RING_SIZE"
    "table_ids_ok (kdev k')" "script_ok p script' (kdev k')" "unread x' \<noteq> []"
    "unread x' @ script' = unread x @ script"
proof (cases "unread x = []")
  case False
  with assms show ?thesis by (intro that [of k script x]) (simp_all add: drv_poll.simps chr_poll_iff)
next
  case True
  with assms(6) obtain c cs where script: "script = c # cs" by (cases script) auto
  obtain k' where k': "isr_completion c k = Some k'"
    "sessions k' p = Some (session_inflight_dec (isr_deliver c x))" "table_ids_ok (kdev k')"
    "script_ok p cs (kdev k')" using script_completion [OF assms(4) assms(5) [unfolded script] assms(1)] .
  let ?x = "session_inflight_dec (isr_deliver c x)"
  have u: "unread ?x = [c]" using isr_deliver_unread [OF assms(2), of c] True by (simp add: accel_simps)
  have "drv_poll p t script k = Some (k', cs, True)"
    using assms(1) True script k'(1,2) u
    by (simp add: drv_poll.simps [of p t "c # cs" k] drv_poll.simps [of p t cs k'] chr_poll_iff)
  then show ?thesis
    using k' u True assms(2,3) script isr_deliver_wf [OF assms(2), of c] by (intro that [of k' cs ?x]) simp_all
qed

text \<open>Reading takes as many of the unread completions as fit.\<close>

lemma drv_read:
  assumes ok: "drv_ok p w" and n: "0 < n" and ne: "drv_pending p w \<noteq> []"
  shows "\<exists>w'. sys_read (driver_kernel mem fresh) (int p) n w = (w', Inr (take n (drv_pending p w)))
      \<and> drv_ok p w' \<and> drv_pending p w' = drop n (drv_pending p w) \<and> drv_later w' = drv_later w"
proof -
  from ok obtain x where x: "sessions (dk w) p = Some x" "wf_session x"
    "length (unread x) + length (dscript w) \<le> COMP_RING_SIZE" "table_ids_ok (kdev (dk w))"
    "script_ok p (dscript w) (kdev (dk w))" by (rule drv_okE)
  let ?m = "min (length (unread x)) n"
  have sz: "sizeof_completion_uapi \<le> n * sizeof_completion_uapi" using n by simp
  have "unread x \<noteq> []" using ne x(1) by (simp add: drv_pending_def)
  from chr_read_takes [OF x(2) this sz, of 0] obtain x' where r: "dma_accel_chr_read (\<lambda>_. True) (n * sizeof_completion_uapi) 0 x
      = (x', int (?m * sizeof_completion_uapi), Inr (map to_uapi (take ?m (unread x))))"
    "unread x' = drop ?m (unread x)" "wf_session x'"
    by (auto simp: Let_def sizeof_completion_uapi_def)
  let ?w = "w\<lparr>dk := (dk w)\<lparr>sessions := (sessions (dk w))(p \<mapsto> x')\<rparr>\<rparr>"
  have "drv_ok p ?w" by (rule drv_okI [of _ _ x']) (use x r in auto)
  with r x(1) show ?thesis
    by (intro exI [of _ ?w])
       (auto simp: driver_kernel_def drv_pending_def drv_later_def take_map drop_map min_def)
qed

section \<open>The driver keeps the contracts\<close>

interpretation drv: device_progress "driver_kernel mem fresh" "int p" "drv_ok p" "drv_pending p" drv_later
  for mem :: "(u64 \<times> dma_addr_t) option" and fresh :: "sess_ptr option" and p :: sess_ptr
proof
  fix w n
  assume ok: "drv_ok p w" and n: "0 < (n :: nat)"
  from ok obtain x where x: "sessions (dk w) p = Some x" by (rule drv_okE)
  have "(dk w)\<lparr>sessions := (sessions (dk w))(p \<mapsto> x)\<rparr> = dk w" using x by (simp add: fun_upd_idem)
  then show "sys_read (driver_kernel mem fresh) (int p) n w = (w, Inl EAGAIN)" if "drv_pending p w = []"
    using that chr_read_empty x by (simp add: driver_kernel_def drv_pending_def)
  show "\<exists>w'. sys_read (driver_kernel mem fresh) (int p) n w = (w', Inr (take n (drv_pending p w)))
      \<and> drv_ok p w' \<and> drv_pending p w' = drop n (drv_pending p w) \<and> drv_later w' = drv_later w"
    if "drv_pending p w \<noteq> []" by (rule drv_read [OF ok n that])
next
  fix w
  assume ok: "drv_ok p w" and ne: "drv_pending p w @ drv_later w \<noteq> []"
  from ok obtain x where x: "sessions (dk w) p = Some x" "wf_session x"
    "length (unread x) + length (dscript w) \<le> COMP_RING_SIZE" "table_ids_ok (kdev (dk w))"
    "script_ok p (dscript w) (kdev (dk w))" by (rule drv_okE)
  have "unread x \<noteq> [] \<or> dscript w \<noteq> []" using ne x(1) by (auto simp: drv_pending_def drv_later_def)
  from drv_poll_ready [OF x this] obtain k' script' x' where k':
    "drv_poll p (- 1) (dscript w) (dk w) = Some (k', script', True)" "sessions k' p = Some x'"
    "wf_session x'" "length (unread x') + length script' \<le> COMP_RING_SIZE" "table_ids_ok (kdev k')"
    "script_ok p script' (kdev k')" "unread x' \<noteq> []" "unread x' @ script' = unread x @ dscript w" .
  let ?w = "w\<lparr>dk := k', dscript := script'\<rparr>"
  have "drv_ok p ?w" by (rule drv_okI [of _ _ x']) (use k' in simp_all)
  moreover have "drv_pending p ?w @ drv_later ?w = drv_pending p w @ drv_later w"
    using k'(2,8) x(1) by (simp add: drv_pending_def drv_later_def flip: map_append)
  ultimately show "\<exists>w'. sys_poll (driver_kernel mem fresh) (int p) (- 1) w = Some (w', Inr True) \<and> drv_ok p w'
      \<and> drv_pending p w' \<noteq> [] \<and> drv_pending p w' @ drv_later w' = drv_pending p w @ drv_later w"
    using k'(1,2,7) by (intro exI [of _ ?w]) (simp add: driver_kernel_def drv_pending_def)
next
  fix w
  assume "drv_ok p w"
  then show "\<exists>w' t. clock_now (driver_kernel mem fresh) w = (w', t) \<and> drv_ok p w'
      \<and> drv_pending p w' = drv_pending p w \<and> drv_later w' = drv_later w"
    by (simp add: driver_kernel_def drv_ok_def drv_pending_def drv_later_def split: option.splits)
qed

section \<open>The runtime and the driver together\<close>

definition start_world :: "action list \<Rightarrow> dma_accel_completion list \<Rightarrow> drv_world" where
  "start_world as script = \<lparr>dk = sk (after 1 as), dscript = script, dclock = 0\<rparr>"

text \<open>
  C22: \<^verbatim>\<open>Stream::pump()\<close> on the driver. It returns; the session has nothing unread afterwards; and each
  tracked fence is ready with the status of its completion, and no longer tracked, if its
  completion was among the unread ones, and untouched otherwise.
\<close>

theorem pump_delivers:
  assumes "drv_ok p (world r)" and "st_fd s = int p" and "stream_inv s (heap r)"
  shows "\<exists>s' r'. Stream_pump (driver_kernel mem fresh) s r = Some ((s', r'), Inr ())
     \<and> drv_pending p (world r') = [] \<and> drv_ok p (world r') \<and> stream_inv s' (heap r')
     \<and> (\<forall>c f. st_outstanding s c = Some f \<longrightarrow>
          (case find (\<lambda>x. ucomp_cmd_id x = c) (drv_pending p (world r)) of
             None \<Rightarrow> heap r' ! f = heap r ! f \<and> st_outstanding s' c = Some f
           | Some x \<Rightarrow> heap r' ! f = (heap r ! f)\<lparr>fs_ready := True, fs_status := ucomp_status x\<rparr>
                       \<and> st_outstanding s' c = None))"
proof -
  let ?cs = "drv_pending p (world r)"
  from drv.pump_all [OF assms(1,2), of mem fresh] obtain w' where p:
    "Stream_pump (driver_kernel mem fresh) s r = Some (apply_batch ?cs (s, r\<lparr>world := w'\<rparr>), Inr ())"
    "drv_ok p w'" "drv_pending p w' = []" by blast
  obtain s' r' where b: "apply_batch ?cs (s, r\<lparr>world := w'\<rparr>) = (s', r')" by fastforce
  have inv: "stream_inv s' (heap r')" using rt_le_inv [OF rt_le_batch [OF b]] assms(3) by simp
  have w: "world r' = w'" using apply_batch_frame(3) [OF b] by simp
  have eq: "st_outstanding s' = fst (pump_batch ?cs (st_outstanding s, heap r))"
    "heap r' = snd (pump_batch ?cs (st_outstanding s, heap r))"
    using b by (auto simp: apply_batch_def split: prod.splits)
  have "case find (\<lambda>x. ucomp_cmd_id x = c) ?cs of
      None \<Rightarrow> heap r' ! f = heap r ! f \<and> st_outstanding s' c = Some f
    | Some x \<Rightarrow> heap r' ! f = (heap r ! f)\<lparr>fs_ready := True, fs_status := ucomp_status x\<rparr>
                \<and> st_outstanding s' c = None" if "st_outstanding s c = Some f" for c f
  proof -
    have in_iff: "c \<in> ucomp_cmd_id ` set ?cs \<longleftrightarrow> find (\<lambda>x. ucomp_cmd_id x = c) ?cs \<noteq> None"
      by (auto simp: find_None_iff)
    have "f < length (heap r)" "fs_cmd_id (heap r ! f) = c"
      using stream_invD(4,5) [OF assms(3) that] by simp_all
    from pump_batch_fence [of "st_outstanding s" c f "heap r" ?cs, OF that this(1) stream_invD(4) [OF assms(3)] this(2)]
    show ?thesis by (auto simp: eq in_iff split: option.splits)
  qed
  with p b inv w show ?thesis by auto
qed

theorem pump_delivers_witness:
  "drv_ok 1 (start_world run_setup []) \<and>
   (\<exists>s' r'. Stream_pump (driver_kernel None None) \<lparr>st_fd = 1, st_outstanding = Map.empty, st_order = []\<rparr>
      \<lparr>world = start_world run_setup [], heap = []\<rparr> = Some ((s', r'), Inr ()) \<and> drv_pending 1 (world r') = [])"
proof -
  have "sessions (dk (start_world run_setup [])) 1 = Some (the (sessions (dk (start_world run_setup [])) 1))"
    by (rule is_some_the) code_simp
  moreover have "unread (the (sessions (dk (start_world run_setup [])) 1)) = []" by code_simp
  moreover have "wf_session (the (sessions (dk (start_world run_setup [])) 1))" by code_simp
  moreover have "table_ids_ok (kdev (dk (start_world run_setup [])))" by code_simp
  ultimately have ok: "drv_ok 1 (start_world run_setup [])"
    by (intro drv_okI) (auto simp: script_ok_def start_world_def accel_simps)
  with pump_delivers [of 1 "\<lparr>world = start_world run_setup [], heap = []\<rparr>"
      "\<lparr>st_fd = 1, st_outstanding = Map.empty, st_order = []\<rparr>" None None]
  show ?thesis by (auto simp: stream_inv_def)
qed

text \<open>Entering a command under a fresh identifier keeps the identifiers of the table distinct.\<close>

lemma table_ids_ok_admit:
  assumes "table_ids_ok d" and "next_cmd_id d \<noteq> - 1" and "slot < length (cmd_table d)"
    and "cmd_table d' = (cmd_table d)[slot := \<lparr>cc_valid = True, cc_cmd_id = next_cmd_id d + 1, cc_sess = Some p\<rparr>]"
    and "next_cmd_id d' = next_cmd_id d + 1"
  shows "table_ids_ok d'"
proof -
  let ?n = "next_cmd_id d"
  have "1 + ?n \<noteq> 0" using assms(2) by (metis add_eq_0_iff minus_minus)
  then have lt: "?n < ?n + 1" by (simp add: word_less_nat_alt unatSuc add.commute [of _ 1])
  have old: "cc_cmd_id (cmd_table d ! i) \<le> ?n + 1" "cc_cmd_id (cmd_table d ! i) \<noteq> ?n + 1"
    if "i < length (cmd_table d)" "cc_valid (cmd_table d ! i)" for i
    using table_ids_okD(1) [OF assms(1) that] lt by auto
  show ?thesis
  proof (rule table_ids_okI, goal_cases)
    case (1 i)
    then show ?case using old(1) [of i] by (simp add: assms(4,5) nth_update_if split: if_splits)
  next
    case (2 i j)
    then show ?case using table_ids_okD(2) [OF assms(1), of i j] old(2) [of i] old(2) [of j] assms(3)
      by (simp add: assms(4,5) nth_update_if split: if_splits)
  qed
qed

text \<open>A valid request that can be admitted is admitted at once, under the next identifier.\<close>

lemma drv_submit_runs:
  assumes x: "sessions (dk w) p = Some x" and d: "d = kdev (dk w)" and wf: "wf_dev d" and ids: "table_ids_ok d"
    and v: "submit_validate p req d = Inr a" and adm: "dma_accel_admission_likely_ok (d, x)"
    and free: "first_index (\<lambda>c. \<not> cc_valid c) (cmd_table d) = Some slot" and nw: "next_cmd_id d \<noteq> - 1"
  obtains d' where "ioctl_submit (driver_kernel mem fresh) (int p) req w
      = Some (w\<lparr>dk := put_session (dk w) p (d', x\<lparr>inflight := inflight x + 1\<rparr>)\<rparr>, Inr (req\<lparr>sub_cmd_id := next_cmd_id d + 1\<rparr>))"
    "next_cmd_id d' = next_cmd_id d + 1" "total_inflight d' = total_inflight d + 1"
    "cmd_table d' = (cmd_table d)[slot := \<lparr>cc_valid = True, cc_cmd_id = next_cmd_id d + 1, cc_sess = Some p\<rparr>]"
    "buffers d' = buffers d" "active_sessions d' = active_sessions d" "wf_dev d'" "table_ids_ok d'"
proof -
  obtain src dst src2 where a: "a = (src, dst, src2)" by (cases a)
  have "unat (sq_tail d - sq_tail d) < DMA_ACCEL_QUEUE_DEPTH" by (simp add: accel_simps)
  from ioc_submit_runs [OF wf v [unfolded a] adm free this, of True "[]"] obtain d' where d':
    "dma_accel_ioc_submit True True [] p req (d, x)
     = Some ((d', x\<lparr>inflight := inflight x + 1\<rparr>), Inr (req\<lparr>sub_cmd_id := next_cmd_id d + 1\<rparr>))"
    "next_cmd_id d' = next_cmd_id d + 1" "total_inflight d' = total_inflight d + 1"
    "cmd_table d' = (cmd_table d)[slot := \<lparr>cc_valid = True, cc_cmd_id = next_cmd_id d + 1, cc_sess = Some p\<rparr>]"
    "buffers d' = buffers d" "active_sessions d' = active_sessions d" "wf_dev d'"
    by (auto simp: Let_def)
  have "table_ids_ok d'" by (rule table_ids_ok_admit [OF ids nw first_index_SomeD(1) [OF free] d'(4,2)])
  with d' x d show ?thesis by (intro that [of d']) (simp_all add: driver_kernel_def)
qed

text \<open>
  C23: a command makes the round trip. Submitted through a stream with room, on a driver that can
  admit it, the call returns a fence with the kernel's identifier; and when the device completes that
  command with some status, an unbounded \<^verbatim>\<open>wait()\<close> on the fence returns \<^verbatim>\<open>true\<close> and the fence
  reports exactly that status.
\<close>

theorem submit_wait_roundtrip:
  assumes ok: "drv_ok p (world r)" and script: "dscript (world r) = []" and none: "drv_pending p (world r) = []"
    and fd: "st_fd s = int p" and inv: "stream_inv s (heap r)" and room: "length (st_order s) < DMA_ACCEL_QUEUE_DEPTH"
    and d: "d = kdev (dk (world r))" and wf: "wf_dev d" and x: "sessions (dk (world r)) p = Some x"
    and v: "submit_validate p req d = Inr a" and adm: "dma_accel_admission_likely_ok (d, x)"
    and free: "first_index (\<lambda>c. \<not> cc_valid c) (cmd_table d) = Some slot"
    and nw: "next_cmd_id d \<noteq> - 1" and new: "st_outstanding s (next_cmd_id d + 1) = None"
  shows "\<exists>s1 r1 f. throttled_submit (driver_kernel mem fresh) req s r = Some ((s1, r1), Inr f)
     \<and> Fence_cmd_id (heap r1) f = next_cmd_id d + 1
     \<and> (\<forall>status. \<exists>s2 r2.
          Stream_wait (driver_kernel mem fresh) f (- 1) s1
            (r1\<lparr>world := (world r1)\<lparr>dscript := [\<lparr>comp_cmd_id = next_cmd_id d + 1, comp_status = status, comp_reserved = 0\<rparr>]\<rparr>\<rparr>)
          = Some ((s2, r2), Inr True)
          \<and> Fence_status (heap r2) f = Inr status)"
proof -
  let ?c = "next_cmd_id d + 1" and ?K = "driver_kernel mem fresh" and ?k = "dk (world r)"
  have un: "wf_session x" "unread x = []" "table_ids_ok d"
    using ok none x d by (auto simp: drv_ok_def drv_pending_def)
  obtain d' where io: "ioctl_submit ?K (int p) req (world r)
      = Some ((world r)\<lparr>dk := put_session ?k p (d', x\<lparr>inflight := inflight x + 1\<rparr>)\<rparr>, Inr (req\<lparr>sub_cmd_id := ?c\<rparr>))"
    and d': "cmd_table d' = (cmd_table d)[slot := \<lparr>cc_valid = True, cc_cmd_id = ?c, cc_sess = Some p\<rparr>]" "table_ids_ok d'"
    by (rule drv_submit_runs [OF x d wf un(3) v adm free nw])
  let ?f = "length (heap r)"
  let ?w = "(world r)\<lparr>dk := put_session ?k p (d', x\<lparr>inflight := inflight x + 1\<rparr>)\<rparr>"
  let ?s = "s\<lparr>st_outstanding := (st_outstanding s)(?c \<mapsto> ?f), st_order := st_order s @ [?f]\<rparr>"
  let ?r = "r\<lparr>world := ?w, heap := heap r @ [\<lparr>fs_cmd_id = ?c, fs_ready = False, fs_status = 0\<rparr>]\<rparr>"
  have sub: "Stream_do_submit ?K req s r = Some ((?s, ?r), Inr ?f)"
    using io new fd by (simp add: Stream_do_submit_def Let_def)
  have thr: "throttled_submit ?K req s r = Some ((?s, ?r), Inr ?f)"
    using room sub by (simp add: throttled_submit_def Stream_throttle_before_submit_def)
  have inv': "stream_inv ?s (heap ?r)" using do_submit_inv [OF inv room sub] .
  have slot: "slot < length (cmd_table d)" using first_index_SomeD(1) [OF free] .
  have wait: "\<exists>s2 r2. Stream_wait ?K ?f (- 1) ?s (?r\<lparr>world := ?w\<lparr>dscript := [c]\<rparr>\<rparr>) = Some ((s2, r2), Inr True)
      \<and> fs_ready (heap r2 ! ?f) \<and> fs_status (heap r2 ! ?f) = comp_status c" if "comp_cmd_id c = ?c" for c
  proof (rule drv.wait_returns [where p = p])
    have "\<lparr>cc_valid = True, cc_cmd_id = ?c, cc_sess = Some p\<rparr> \<in> set (cmd_table d')"
      unfolding d'(1) using slot by (rule set_update_memI)
    moreover have "valid_of p \<lparr>cc_valid = True, cc_cmd_id = ?c, cc_sess = Some p\<rparr>" by (simp add: valid_of_def)
    ultimately have "script_ok p [c] d'" using that by (fastforce simp: script_ok_def)
    moreover note d'(2)
    moreover have "unread (x\<lparr>inflight := inflight x + 1\<rparr>) = []" "wf_session (x\<lparr>inflight := inflight x + 1\<rparr>)"
      using un by (simp_all add: unread_def wf_session_def)
    ultimately show "drv_ok p (world (?r\<lparr>world := ?w\<lparr>dscript := [c]\<rparr>\<rparr>))"
      by (simp add: drv_ok_def accel_simps)
    show "drv.will_finish p ?f (comp_status c) ?s (?r\<lparr>world := ?w\<lparr>dscript := [c]\<rparr>\<rparr>)"
      using that \<open>unread (x\<lparr>inflight := inflight x + 1\<rparr>) = []\<close>
      by (simp add: drv.will_finish_def drv_pending_def drv_later_def to_uapi_def)
  qed (use inv' fd in simp_all)
  have fin: "\<exists>s2 r2. Stream_wait ?K ?f (- 1) ?s
      (?r\<lparr>world := (world ?r)\<lparr>dscript := [\<lparr>comp_cmd_id = ?c, comp_status = status, comp_reserved = 0\<rparr>]\<rparr>\<rparr>)
      = Some ((s2, r2), Inr True) \<and> Fence_status (heap r2) ?f = Inr status" for status
    using wait [of "\<lparr>comp_cmd_id = ?c, comp_status = status, comp_reserved = 0\<rparr>"]
    by (auto simp: Fence_status_def)
  show ?thesis
    by (rule exI [of _ ?s], rule exI [of _ ?r], rule exI [of _ ?f], intro conjI allI)
       (use thr in simp, simp add: Fence_cmd_id_def, rule fin)
qed

theorem submit_wait_roundtrip_witness:
  "\<exists>s1 r1 f s2 r2.
     throttled_submit (driver_kernel None None) copy_req \<lparr>st_fd = 1, st_outstanding = Map.empty, st_order = []\<rparr>
       \<lparr>world = start_world run_setup [], heap = []\<rparr> = Some ((s1, r1), Inr f)
     \<and> Stream_wait (driver_kernel None None) f (- 1) s1
         (r1\<lparr>world := (world r1)\<lparr>dscript := [\<lparr>comp_cmd_id = 2, comp_status = 5, comp_reserved = 0\<rparr>]\<rparr>\<rparr>)
       = Some ((s2, r2), Inr True)
     \<and> Fence_status (heap r2) f = Inr 5"
proof -
  let ?w = "start_world run_setup []" and ?s = "\<lparr>st_fd = 1, st_outstanding = Map.empty, st_order = []\<rparr>"
  let ?r = "\<lparr>world = ?w, heap = []\<rparr>" and ?d = "kdev (dk (start_world run_setup []))"
  have x: "sessions (dk ?w) 1 = Some (the (sessions (dk ?w) 1))" by (rule is_some_the) code_simp
  have u: "unread (the (sessions (dk ?w) 1)) = []" "wf_session (the (sessions (dk ?w) 1))"
    "table_ids_ok ?d" by code_simp+
  have ok: "drv_ok 1 (world ?r)"
    using x u by (auto intro!: drv_okI simp: script_ok_def start_world_def accel_simps)
  have none: "drv_pending 1 (world ?r) = []" using u(1) by (auto simp: drv_pending_def split: option.split)
  have script: "dscript (world ?r) = []" by (simp add: start_world_def)
  have inv: "stream_inv ?s (heap ?r)" and room: "length (st_order ?s) < DMA_ACCEL_QUEUE_DEPTH"
    by (simp_all add: stream_inv_def accel_simps)
  have wf: "wf_dev ?d" by code_simp
  have v: "submit_validate 1 copy_req ?d = Inr (0x2000, 0x2040, 0)" by code_simp
  have adm: "dma_accel_admission_likely_ok (?d, the (sessions (dk ?w) 1))" by code_simp
  have free: "first_index (\<lambda>c. \<not> cc_valid c) (cmd_table ?d) = Some 0" by code_simp
  have n: "next_cmd_id ?d = 1" by code_simp
  have fd: "st_fd ?s = int 1" and d: "?d = kdev (dk (world ?r))" and x': "sessions (dk (world ?r)) 1 = Some (the (sessions (dk ?w) 1))"
    using x by simp_all
  have nw: "next_cmd_id ?d \<noteq> - 1" and new: "st_outstanding ?s (next_cmd_id ?d + 1) = None" by (simp_all add: n)
  from submit_wait_roundtrip [OF ok script none fd inv room d wf x' v adm free nw new, of None None]
  show ?thesis unfolding n by (simp add: one_add_one) blast
qed

end
