(* ===== verification/Context_Driver.thy ===== *)
theory Context_Driver
  imports Client_Context Runtime_Frame Runtime_Driver
begin

unbundle bit_operations_syntax

text \<open>
  \<^verbatim>\<open>Context\<close> on the driver: the set a context keeps is always a part of what the driver has recorded
  for its session, so the check in user space and the check in the kernel agree.
\<close>

section \<open>Ownership on both sides\<close>

definition owned_slot :: "kstate \<Rightarrow> sess_ptr \<Rightarrow> u32 \<Rightarrow> bool" where
  "owned_slot k p i \<longleftrightarrow> unat i < MAX_BUFFERS \<and> be_in_use (buffers (kdev k) ! unat i)
     \<and> be_owner (buffers (kdev k) ! unat i) = Some p"

definition context_inv :: "sess_ptr \<Rightarrow> Context \<Rightarrow> kstate \<Rightarrow> bool" where
  "context_inv p c k \<longleftrightarrow> st_fd (cx_stream c) = int p \<and> cx_owned c \<subseteq> Collect (owned_slot k p)"

lemma owned_slot_unique: "owned_slot k p i \<Longrightarrow> owned_slot k q i \<Longrightarrow> p = q"
  by (simp add: owned_slot_def)

text \<open>Waiting for completions does not touch the buffer table and does not fail with \<^verbatim>\<open>EPERM\<close>.\<close>

lemma drv_poll_buffers: "drv_poll p t script k = Some (k', script', b) \<Longrightarrow> buffers (kdev k') = buffers (kdev k)"
proof (induction p t script k rule: drv_poll.induct)
  case (1 p t script k)
  obtain x where x: "sessions k p = Some x" using "1.prems" by (auto simp: drv_poll.simps [of p t script k] split: option.splits)
  show ?case
  proof (cases "dma_accel_chr_poll x \<noteq> 0 \<or> script = []")
    case True
    with "1.prems" x show ?thesis by (auto simp: drv_poll.simps [of p t script k] split: list.splits if_splits)
  next
    case False
    then obtain c cs where s: "script = c # cs" by (cases script) auto
    with False "1.prems" x obtain k1 where k1: "isr_completion c k = Some k1" "drv_poll p t cs k1 = Some (k', script', b)"
      by (auto simp: drv_poll.simps [of p t "c # cs" k] split: option.splits)
    with "1.IH" [OF x _ s k1(1,2)] False isr_completion_frame(3) [OF k1(1)] show ?thesis by simp
  qed
qed

interpretation bufs: kernel_frame "driver_kernel mem fresh" "int p" "\<lambda>w. buffers (kdev (dk w)) = B" EPERM
  for mem :: "(u64 \<times> dma_addr_t) option" and fresh :: "sess_ptr option" and p :: sess_ptr
    and B :: "dma_accel_buf_entry list"
proof (unfold_locales, goal_cases)
  case (1 w n w' x)
  then show ?case
    by (auto simp: driver_kernel_def EBADF_def dma_accel_chr_read_def Let_def split: option.splits prod.splits if_splits)
next
  case (2 w t w' q)
  then show ?case using drv_poll_buffers by (fastforce simp: driver_kernel_def)
qed

text \<open>The driver refuses operands for their owner only if one of them is not the session's.\<close>

lemma submit_EPERM:
  assumes "ioctl_submit (driver_kernel mem fresh) (int p) req w = Some (w', Inl EPERM)"
  shows "\<not> (owned_slot (dk w) p (sub_src_buffer_id req) \<and> owned_slot (dk w) p (sub_dst_buffer_id req)
     \<and> (dma_accel_opcode_needs_src2 (sub_opcode req) \<longrightarrow> owned_slot (dk w) p (sub_src2_buffer_id req)))"
proof
  assume own: "owned_slot (dk w) p (sub_src_buffer_id req) \<and> owned_slot (dk w) p (sub_dst_buffer_id req)
     \<and> (dma_accel_opcode_needs_src2 (sub_opcode req) \<longrightarrow> owned_slot (dk w) p (sub_src2_buffer_id req))"
  obtain x ds where x: "sessions (dk w) p = Some x"
    "dma_accel_ioc_submit True True [] p req (kdev (dk w), x) = Some (ds, Inl EPERM)"
    using assms by (auto simp: driver_kernel_def EBADF_def split: option.splits)
  have "submit_validate p req (kdev (dk w)) \<noteq> Inl EPERM"
    using own by (auto simp: submit_validate_def owned_slot_def Let_def)
  with x(2) obtain y where y: "submit_loop p (next_cmd_id (kdev (dk w)) + 1) []
      ((kdev (dk w))\<lparr>next_cmd_id := next_cmd_id (kdev (dk w)) + 1\<rparr>, x) = Some (y, Inl EPERM)"
    by (auto simp: dma_accel_ioc_submit_def next_id_def Let_def split: sum.splits option.splits prod.splits)
  have no_wake: "r \<noteq> Inl EPERM" if "submit_loop p i [] d = Some (y, r)" for i d r
  proof -
    have "[] = ([] :: wake list) \<longrightarrow> snd (y, r) \<noteq> Inl EPERM"
    proof (rule submit_loop.raw_induct [of "\<lambda>p i ws d y. ws = [] \<longrightarrow> snd y \<noteq> Inl EPERM", OF _ that], goal_cases)
      case (1 rec p i ws d y)
      show ?case
      proof
        assume ws: "ws = []"
        with 1(2) have "snd y = Inr () \<or> rec p i [] d = Some y" by (auto split: option.splits if_splits)
        with 1(1) show "snd y \<noteq> Inl EPERM" by (metis sum.distinct(1))
      qed
    qed
    then show ?thesis by simp
  qed
  from no_wake [OF y] show False by simp
qed

section \<open>Submission\<close>

lemma on_stream_no_EPERM:
  assumes inv: "context_inv p c (dk (world r))"
    and own: "owned_slot (dk (world r)) p (sub_src_buffer_id req)" "owned_slot (dk (world r)) p (sub_dst_buffer_id req)"
      "dma_accel_opcode_needs_src2 (sub_opcode req) \<Longrightarrow> owned_slot (dk (world r)) p (sub_src2_buffer_id req)"
  shows "on_stream (throttled_submit (driver_kernel mem fresh) req) c r \<noteq> Some (x, Inl (SystemError EPERM m))"
proof
  assume run: "on_stream (throttled_submit (driver_kernel mem fresh) req) c r = Some (x, Inl (SystemError EPERM m))"
  let ?B = "buffers (kdev (dk (world r)))"
  obtain s' r' where t: "throttled_submit (driver_kernel mem fresh) req (cx_stream c) r
      = Some ((s', r'), Inl (SystemError EPERM m))"
    using run by (cases x) (auto simp: on_stream_Some)
  have good: "bufs.good p ?B (cx_stream c) r" using inv by (simp add: bufs.good_def context_inv_def)
  obtain w w' where w: "buffers (kdev (dk w)) = ?B"
    "ioctl_submit (driver_kernel mem fresh) (int p) req w = Some (w', Inl EPERM)"
    using bufs.submit_error [OF t good] .
  have "owned_slot (dk w) p i = owned_slot (dk (world r)) p i" for i by (simp add: owned_slot_def w(1))
  with submit_EPERM [OF w(2)] own show False by simp
qed

text \<open>
  The two outcomes of the guard on the driver, for any of the three submissions: \<open>bufs\<close> are the
  buffer arguments, and \<open>req\<close> the request the stream builds from them.
\<close>

lemma checked_foreign:
  assumes "context_inv p c (dk (world r))" and "\<exists>b \<in> set bs. \<not> owned_slot (dk (world r)) p (buf_id b)"
  shows "\<exists>m. checked what bs f c r = Some ((c, r), Inl (LogicError m))"
  using assms by (cases rule: checked_cases [of bs c what f r]) (auto simp: context_inv_def)

lemma checked_no_EPERM:
  assumes inv: "context_inv p c (dk (world r))"
    and ids: "sub_src_buffer_id req \<in> buf_id ` set bs" "sub_dst_buffer_id req \<in> buf_id ` set bs"
      "dma_accel_opcode_needs_src2 (sub_opcode req) \<Longrightarrow> sub_src2_buffer_id req \<in> buf_id ` set bs"
  shows "checked what bs (throttled_submit (driver_kernel mem fresh) req) c r \<noteq> Some (x, Inl (SystemError EPERM m))"
proof (cases rule: checked_cases [of bs c what "throttled_submit (driver_kernel mem fresh) req" r])
  case owned
  then have sub: "owned_slot (dk (world r)) p i" if "i \<in> buf_id ` set bs" for i
    using that inv by (auto simp: context_inv_def)
  show ?thesis
    unfolding owned(2) by (rule on_stream_no_EPERM [OF inv]) (rule sub, use ids in simp)+
qed auto


text \<open>Context \<open>1\<close> owns slot \<open>0\<close> on the driver; slot \<open>5\<close> is nobody's.\<close>

definition demo_context :: Context where
  "demo_context = \<lparr>cx_name = ''A'', cx_stream = \<lparr>st_fd = 1, st_outstanding = Map.empty, st_order = []\<rparr>,
     cx_owned = {0}\<rparr>"

lemma demo_context_inv: "context_inv 1 demo_context (dk (start_world run_setup []))"
proof -
  have "owned_slot (dk (start_world run_setup [])) 1 0" by code_simp
  then show ?thesis by (simp add: context_inv_def demo_context_def)
qed


section \<open>Allocation\<close>

text \<open>An allocation of session \<open>p\<close> fills one slot that was free and leaves the others alone.\<close>

lemma drv_alloc_slot:
  assumes wf: "wf_dev (kdev (dk w))" and x: "sessions (dk w) p = Some x"
    and run: "ioctl_buffer_alloc (driver_kernel mem fresh) (int p) req w = (w', q)"
  shows "owned_slot (dk w) p' i \<Longrightarrow> owned_slot (dk w') p' i"
    and "q = Inr req' \<Longrightarrow> owned_slot (dk w') p (ba_buffer_id req') \<and> \<not> owned_slot (dk w) p' (ba_buffer_id req')"
proof -
  obtain d' x' where al: "dma_accel_ioc_buffer_alloc True mem True p req (kdev (dk w), x) = ((d', x'), q)"
    "w' = w\<lparr>dk := put_session (dk w) p (d', x')\<rparr>"
    using run x by (cases "dma_accel_ioc_buffer_alloc True mem True p req (kdev (dk w), x)")
      (auto simp: driver_kernel_def)
  have fresh: "slot < MAX_BUFFERS" "\<not> be_in_use (buffers (kdev (dk w)) ! slot)"
    if "first_index (\<lambda>b. \<not> be_in_use b) (buffers (kdev (dk w))) = Some slot" for slot
    using free_slot_range [OF wf that] .
  show "owned_slot (dk w') p' i" if own: "owned_slot (dk w) p' i"
  proof -
    have "d' = kdev (dk w) \<or> (\<exists>slot e. first_index (\<lambda>b. \<not> be_in_use b) (buffers (kdev (dk w))) = Some slot
        \<and> d' = (kdev (dk w))\<lparr>buffers := (buffers (kdev (dk w)))[slot := e]\<rparr>)"
    proof (cases q)
      case (Inl e)
      from buffer_alloc_Inl [OF al(1) [unfolded Inl]] show ?thesis by blast
    next
      case (Inr req')
      from al(1) [unfolded Inr] show ?thesis by (rule buffer_alloc_Inr) blast
    qed
    moreover have "slot \<noteq> unat i" if "first_index (\<lambda>b. \<not> be_in_use b) (buffers (kdev (dk w))) = Some slot" for slot
      using fresh(2) [OF that] own by (auto simp: owned_slot_def)
    ultimately show ?thesis using own by (auto simp: owned_slot_def al(2))
  qed
  show "owned_slot (dk w') p (ba_buffer_id req') \<and> \<not> owned_slot (dk w) p' (ba_buffer_id req')" if q: "q = Inr req'"
  proof -
    obtain slot kaddr dma where s: "first_index (\<lambda>b. \<not> be_in_use b) (buffers (kdev (dk w))) = Some slot"
      "d' = (kdev (dk w))\<lparr>buffers := (buffers (kdev (dk w)))[slot := alloc_entry kaddr dma p (ba_size req)]\<rparr>"
      "ba_buffer_id req' = of_nat slot"
      using al(1) [unfolded q] by (rule buffer_alloc_Inr) simp
    have "unat (of_nat slot :: u32) = slot" using fresh(1) [OF s(1)] by (simp add: unat_of_nat accel_simps)
    moreover have "slot < length (buffers (kdev (dk w)))" using first_index_SomeD(1) [OF s(1)] .
    ultimately show ?thesis
      using fresh [OF s(1)] s by (simp add: owned_slot_def al(2) alloc_entry_def)
  qed
qed

lemma context_inv_mono:
  assumes "context_inv p c k" and "\<And>i. owned_slot k p i \<Longrightarrow> owned_slot k' p i"
  shows "context_inv p c k'"
  using assms by (auto simp: context_inv_def)

text \<open>The mapping that follows the allocation does not change the driver's state.\<close>

lemma drv_alloc_buffer_cases:
  assumes "Stream_alloc_buffer (driver_kernel mem fresh) s sz w = (w', q)"
  obtains r where "ioctl_buffer_alloc (driver_kernel mem fresh) (st_fd s)
      \<lparr>ba_size = sz, ba_buffer_id = 0, ba_mmap_offset = 0\<rparr> w = (w', r)"
    "\<And>b. q = Inr b \<Longrightarrow> \<exists>req. r = Inr req \<and> buf_id b = ba_buffer_id req"
proof -
  obtain w1 r where al: "ioctl_buffer_alloc (driver_kernel mem fresh) (st_fd s)
      \<lparr>ba_size = sz, ba_buffer_id = 0, ba_mmap_offset = 0\<rparr> w = (w1, r)" by fastforce
  have mm: "fst (sys_mmap (driver_kernel mem fresh) fd len off v) = v" for fd len off v
    by (simp add: driver_kernel_def)
  show ?thesis
  proof (cases r)
    case (Inl e)
    with assms al show ?thesis by (intro that [of r]) (auto simp: Stream_alloc_buffer_def)
  next
    case (Inr req)
    obtain y where "sys_mmap (driver_kernel mem fresh) (st_fd s) sz (ba_mmap_offset req) w1 = (w1, y)"
      using mm by (metis prod.collapse)
    with assms al Inr show ?thesis
      by (intro that [of r]) (auto simp: Stream_alloc_buffer_def split: sum.splits)
  qed
qed

text \<open>
  C25: allocation through a context. Whatever the outcome, the context's set and those of all other
  contexts stay part of what the driver has recorded for their sessions; the new identifier is in
  the set of the allocating context afterwards, and was in no context's set before: the sets of
  different contexts never overlap. A failed allocation leaves the context unchanged.
\<close>

theorem context_alloc_exclusive:
  assumes inv: "context_inv p c (dk w)" and wf: "wf_dev (kdev (dk w))" and x: "sessions (dk w) p = Some x"
    and run: "Context_alloc_buffer (driver_kernel mem fresh) sz c w = ((c', w'), q)"
  shows "context_inv p c' (dk w')
     \<and> (\<forall>p' c2. context_inv p' c2 (dk w) \<longrightarrow> context_inv p' c2 (dk w'))
     \<and> (case q of Inl e \<Rightarrow> c' = c
         | Inr b \<Rightarrow> cx_owned c' = insert (buf_id b) (cx_owned c)
                    \<and> (\<forall>p' c2. context_inv p' c2 (dk w) \<longrightarrow> buf_id b \<notin> cx_owned c2))"
proof -
  obtain q' where al: "Stream_alloc_buffer (driver_kernel mem fresh) (cx_stream c) sz w = (w', q')"
    and c': "case q' of Inl e \<Rightarrow> c' = c \<and> q = Inl e
        | Inr b \<Rightarrow> c' = c\<lparr>cx_owned := insert (buf_id b) (cx_owned c)\<rparr> \<and> q = Inr b"
    using run by (auto simp: Context_alloc_buffer_def split: prod.splits sum.splits)
  obtain r where r: "ioctl_buffer_alloc (driver_kernel mem fresh) (int p)
      \<lparr>ba_size = sz, ba_buffer_id = 0, ba_mmap_offset = 0\<rparr> w = (w', r)"
    "\<And>b. q' = Inr b \<Longrightarrow> \<exists>req. r = Inr req \<and> buf_id b = ba_buffer_id req"
    using al by (rule drv_alloc_buffer_cases) (use inv in \<open>simp add: context_inv_def\<close>)
  note slot = drv_alloc_slot [OF wf x r(1)]
  have all: "context_inv p' c2 (dk w')" if "context_inv p' c2 (dk w)" for p' c2
    using that slot(1) by (rule context_inv_mono)
  have new: "owned_slot (dk w') p (buf_id b) \<and> \<not> owned_slot (dk w) p' (buf_id b)" if "q' = Inr b" for b p'
    using r(2) [OF that] slot(2) by auto
  show ?thesis
  proof (cases q')
    case (Inl e)
    with c' all inv show ?thesis by auto
  next
    case (Inr b)
    with c' have c'': "c' = c\<lparr>cx_owned := insert (buf_id b) (cx_owned c)\<rparr>" "q = Inr b" by auto
    have "context_inv p c' (dk w')" using all [OF inv] new [OF Inr] by (simp add: c'' context_inv_def)
    with all c'' new [OF Inr] show ?thesis by (auto simp: context_inv_def)
  qed
qed

theorem context_alloc_exclusive_witness:
  "(let w = start_world run_setup [];
        ((c', w'), q) = Context_alloc_buffer (driver_kernel (Some (0x9000, 0x8000)) None) 64 demo_context w
    in context_inv 1 c' (dk w') \<and> 1 \<in> cx_owned c')"
proof -
  let ?w = "start_world run_setup []"
  let ?run = "Context_alloc_buffer (driver_kernel (Some (0x9000, 0x8000)) None) 64 demo_context ?w"
  have x: "sessions (dk ?w) 1 = Some (the (sessions (dk ?w) 1))" by (rule is_some_the) code_simp
  have wf: "wf_dev (kdev (dk ?w))" by code_simp
  have own: "1 \<in> cx_owned (fst (fst ?run))" by code_simp
  have run: "?run = ((fst (fst ?run), snd (fst ?run)), snd ?run)" by simp
  from context_alloc_exclusive [OF demo_context_inv wf x run] own show ?thesis
    by (simp add: Let_def case_prod_beta)
qed

end
