(* ===== verification/Round_Robin.thy ===== *)
theory Round_Robin
  imports Runtime
begin

text \<open>
  The dispatch loop that both schedulers of the repository are written around
  (\<^verbatim>\<open>Scheduler::run_round\<close> in track-b, \<^verbatim>\<open>StreamScheduler::run\<close> in track-c): passes over a vector of
  queues, each pass taking at most one request from the front of every queue, until a pass finds
  nothing. \<open>rr_pass\<close> and \<open>rr_loop\<close> are the two loops, \<open>rr_order\<close> the order the headers promise, and
  the locale \<open>round_robin\<close> shows that the loops execute the requests in exactly that order.
\<close>

section \<open>The loops\<close>

text \<open>
  \<open>ready i s\<close>: the guard of the loop body for index \<open>i\<close>; \<open>dispatch i s\<close>: its body, which takes the
  front request of queue \<open>i\<close> and submits it. The result holds what was submitted, with the index,
  and the exception that ended the loop, if one did; \<open>None\<close>: a submission that does not return.
\<close>

type_synonym ('s, 'r) rr_result = "'s \<times> (nat \<times> 'r) list \<times> exn option"

primrec rr_pass :: "(nat \<Rightarrow> 's \<Rightarrow> bool) \<Rightarrow> (nat \<Rightarrow> 's \<Rightarrow> ('s \<times> (exn + 'r)) option) \<Rightarrow> nat list \<Rightarrow> 's
    \<Rightarrow> ('s, 'r) rr_result option" where
  "rr_pass ready dispatch [] s = Some (s, [], None)"
| "rr_pass ready dispatch (i # is) s =
     (if \<not> ready i s then rr_pass ready dispatch is s
      else Option.bind (dispatch i s) (\<lambda>(s, x).
        case x of
          Inl e \<Rightarrow> Some (s, [], Some e)
        | Inr r \<Rightarrow> Option.bind (rr_pass ready dispatch is s) (\<lambda>(s, rs, e). Some (s, (i, r) # rs, e))))"

partial_function (option) rr_loop :: "(nat \<Rightarrow> 's \<Rightarrow> bool) \<Rightarrow> (nat \<Rightarrow> 's \<Rightarrow> ('s \<times> (exn + 'r)) option) \<Rightarrow> nat \<Rightarrow> 's
    \<Rightarrow> ('s, 'r) rr_result option" where
  "rr_loop ready dispatch n s =
     Option.bind (rr_pass ready dispatch [0..<n] s) (\<lambda>(s, rs, e).
       if e \<noteq> None \<or> rs = [] then Some (s, rs, e)
       else Option.bind (rr_loop ready dispatch n s) (\<lambda>(s, rs', e). Some (s, rs @ rs', e)))"

declare rr_loop.simps [code]

section \<open>The round-robin order\<close>

text \<open>Round \<open>k\<close> holds the \<open>k\<close>-th request of every queue that is that long, by index.\<close>

definition rr_round :: "'q list list \<Rightarrow> nat \<Rightarrow> (nat \<times> 'q) list" where
  "rr_round qs k = map (\<lambda>i. (i, qs ! i ! k)) (filter (\<lambda>i. k < length (qs ! i)) [0..<length qs])"

definition rr_order :: "'q list list \<Rightarrow> (nat \<times> 'q) list" where
  "rr_order qs = concat (map (rr_round qs) [0..<foldr max (map length qs) 0])"

lemma rr_round_beyond: "foldr max (map length qs) 0 \<le> k \<Longrightarrow> rr_round qs k = []"
proof -
  have len: "length (qs ! i) \<le> foldr max (map length qs) 0" if "i < length qs" for i
    using that
  proof (induction qs arbitrary: i)
    case (Cons q qs)
    then show ?case by (cases i) (auto intro: max.coboundedI2)
  qed simp
  assume "foldr max (map length qs) 0 \<le> k"
  then show ?thesis using len by (fastforce simp: rr_round_def filter_empty_conv)
qed

lemma rr_order_bound:
  assumes "foldr max (map length qs) 0 \<le> m"
  shows "rr_order qs = concat (map (rr_round qs) [0..<m])"
proof -
  let ?b = "foldr max (map length qs) 0"
  have "concat (map (rr_round qs) [0..<m]) = concat (map (rr_round qs) ([0..<?b] @ [?b..<m]))"
    using assms by (metis le0 upt_add_eq_append le_iff_add)
  also have "\<dots> = rr_order qs" by (simp add: rr_order_def rr_round_beyond)
  finally show ?thesis by simp
qed

lemma foldr_max_tl: "foldr max (map length (map tl qs)) 0 \<le> foldr max (map length qs) 0"
  by (induction qs) (auto simp: le_max_iff_disj)

lemma rr_round_Suc: "rr_round qs (Suc k) = rr_round (map tl qs) k"
proof -
  have f: "filter (\<lambda>i. Suc k < length (qs ! i)) [0..<length qs] = filter (\<lambda>i. k < length (map tl qs ! i)) [0..<length qs]"
    by (rule filter_cong) auto
  show ?thesis unfolding rr_round_def f length_map by (rule map_cong) (auto simp: nth_tl)
qed

text \<open>The first round, then the round-robin order of what it leaves.\<close>

lemma rr_order_rec: "rr_order qs = rr_round qs 0 @ rr_order (map tl qs)"
proof -
  let ?m = "foldr max (map length qs) 0"
  have "rr_order qs = concat (map (rr_round qs) [0..<Suc ?m])" by (rule rr_order_bound) simp
  also have "\<dots> = rr_round qs 0 @ concat (map (\<lambda>k. rr_round qs (Suc k)) [0..<?m])"
    by (simp add: upt_conv_Cons map_Suc_upt [symmetric] comp_def del: upt_Suc map_Suc_upt)
  also have "\<dots> = rr_round qs 0 @ rr_order (map tl qs)"
    unfolding rr_order_bound [OF foldr_max_tl] rr_round_Suc ..
  finally show ?thesis .
qed

lemma rr_order_empty: "rr_round qs 0 = [] \<Longrightarrow> rr_order qs = []"
proof -
  assume "rr_round qs 0 = []"
  then have "set qs \<subseteq> {[]}" by (auto simp: rr_round_def filter_empty_conv in_set_conv_nth)
  then have "foldr max (map length qs) 0 = 0" by (induction qs) auto
  then show ?thesis by (simp add: rr_order_def)
qed

text \<open>Within one queue the order is first in, first out, and nothing is left out.\<close>

lemma rr_round_filter:
  assumes "j < length qs"
  shows "map snd (filter (\<lambda>x. fst x = j) (rr_round qs k)) = (if k < length (qs ! j) then [qs ! j ! k] else [])"
proof -
  have "[i \<leftarrow> [0..<length qs]. i = j \<and> k < length (qs ! i)] = (if k < length (qs ! j) then [j] else [])"
    using assms
  proof (induction qs rule: rev_induct)
    case (snoc q qs)
    have "[i \<leftarrow> [0..<length qs]. i = j \<and> k < length ((qs @ [q]) ! i)] = [i \<leftarrow> [0..<length qs]. i = j \<and> k < length (qs ! i)]"
      by (rule filter_cong) (auto simp: nth_append)
    moreover have "[i \<leftarrow> [0..<length qs]. i = j \<and> k < length (qs ! i)] = []" if "j = length qs"
      using that by (auto simp: filter_empty_conv)
    ultimately show ?case using snoc by (auto simp: nth_append less_Suc_eq)
  qed simp
  then show ?thesis
    by (auto simp: rr_round_def filter_map comp_def conj_commute filter_empty_conv)
qed

lemma rr_order_fifo:
  assumes "j < length qs"
  shows "map snd (filter (\<lambda>x. fst x = j) (rr_order qs)) = qs ! j"
proof -
  let ?m = "foldr max (map length qs) 0"
  have len: "length (qs ! j) \<le> ?m"
    using rr_round_beyond [of qs ?m] assms
    by (auto simp: rr_round_def filter_empty_conv not_less)
  let ?f = "\<lambda>k. if k < length (qs ! j) then [qs ! j ! k] else []"
  have split: "[0..<?m] = [0..<length (qs ! j)] @ [length (qs ! j)..<?m]"
    using upt_add_eq_append [of 0 "length (qs ! j)" "?m - length (qs ! j)"] len by simp
  have "map snd (filter (\<lambda>x. fst x = j) (rr_order qs)) = concat (map ?f [0..<?m])"
    by (simp add: rr_order_def filter_concat map_concat comp_def rr_round_filter [OF assms])
  also have "\<dots> = concat (map ?f [0..<length (qs ! j)])"
    unfolding split by simp
  also have "map ?f [0..<length (qs ! j)] = map (\<lambda>x. [x]) (map ((!) (qs ! j)) [0..<length (qs ! j)])"
    by simp
  also have "concat \<dots> = qs ! j" by (simp only: map_nth concat_map_singleton map_ident)
  finally show ?thesis .
qed

section \<open>The loops execute that order\<close>

lemma total_tl_le: "sum_list (map length (map tl qs)) \<le> sum_list (map length qs)"
  by (induction qs) auto

lemma total_tl_less:
  "i < length qs \<Longrightarrow> qs ! i \<noteq> [] \<Longrightarrow> sum_list (map length (map tl qs)) < sum_list (map length qs)"
proof (induction qs arbitrary: i)
  case (Cons q qs)
  show ?case
  proof (cases i)
    case 0
    with Cons.prems total_tl_le [of qs] show ?thesis by (cases q) simp_all
  next
    case (Suc j)
    with Cons.IH [of j] Cons.prems show ?thesis by simp
  qed
qed simp

text \<open>Requests one after another: \<open>pop i\<close> takes one off queue \<open>i\<close>, \<open>call i q\<close> submits it.\<close>

primrec run_seq :: "(nat \<Rightarrow> 's \<Rightarrow> 's) \<Rightarrow> (nat \<Rightarrow> 'q \<Rightarrow> 's \<Rightarrow> ('s \<times> (exn + 'r)) option) \<Rightarrow> (nat \<times> 'q) list \<Rightarrow> 's
    \<Rightarrow> ('s, 'r) rr_result option" where
  "run_seq pop call [] s = Some (s, [], None)"
| "run_seq pop call (x # xs) s =
     Option.bind (call (fst x) (snd x) (pop (fst x) s)) (\<lambda>(s, y).
       case y of
         Inl e \<Rightarrow> Some (s, [], Some e)
       | Inr r \<Rightarrow> Option.bind (run_seq pop call xs s) (\<lambda>(s, rs, e). Some (s, (fst x, r) # rs, e)))"

lemma run_seq_append:
  "run_seq pop call (xs @ ys) s =
     Option.bind (run_seq pop call xs s) (\<lambda>(s, rs, e).
       if e \<noteq> None then Some (s, rs, e)
       else Option.bind (run_seq pop call ys s) (\<lambda>(s, rs', e). Some (s, rs @ rs', e)))"
proof (induction xs arbitrary: s)
  case Nil
  show ?case by (cases "run_seq pop call ys s") auto
next
  case (Cons x xs)
  show ?case
  proof (cases "call (fst x) (snd x) (pop (fst x) s)")
    case (Some sy)
    obtain t y where sy: "sy = (t, y)" by (cases sy)
    show ?thesis
    proof (cases y)
      case (Inr r)
      show ?thesis
      proof (cases "run_seq pop call xs t")
        case (Some z)
        obtain u rs e where z: "z = (u, rs, e)" by (cases z)
        show ?thesis
          using Cons.IH [of t] Some z \<open>call _ _ _ = Some sy\<close> sy Inr
          by (cases e; cases "run_seq pop call ys u") auto
      qed (use Cons.IH [of t] Some sy Inr in auto)
    qed (use Some sy in auto)
  qed auto
qed

text \<open>What was submitted is a prefix of the sequence, all of it if nothing was thrown.\<close>

lemma run_seq_prefix:
  assumes "run_seq pop call xs s = Some (s', rs, e)"
  shows "map fst rs = map fst (take (length rs) xs)" and "length rs \<le> length xs"
    and "e = None \<Longrightarrow> length rs = length xs"
  using assms
  by (induction xs arbitrary: s rs) (auto split: Option.bind_splits sum.splits)

text \<open>
  What a scheduler provides: \<open>pending\<close> are its queues. The guard looks at the queue, the body takes
  its front, and submitting does not touch the queues.
\<close>

locale round_robin =
  fixes ready :: "nat \<Rightarrow> 's \<Rightarrow> bool" and dispatch :: "nat \<Rightarrow> 's \<Rightarrow> ('s \<times> (exn + 'r)) option"
    and pending :: "'s \<Rightarrow> 'q list list" and pop :: "nat \<Rightarrow> 's \<Rightarrow> 's"
    and call :: "nat \<Rightarrow> 'q \<Rightarrow> 's \<Rightarrow> ('s \<times> (exn + 'r)) option" and ok :: "'s \<Rightarrow> bool"
  assumes ready_iff: "ok s \<Longrightarrow> i < length (pending s) \<Longrightarrow> ready i s \<longleftrightarrow> pending s ! i \<noteq> []"
    and dispatch_eq: "ok s \<Longrightarrow> i < length (pending s) \<Longrightarrow> pending s ! i = q # qs \<Longrightarrow>
      dispatch i s = call i q (pop i s)"
    and pop_pending: "ok s \<Longrightarrow> i < length (pending s) \<Longrightarrow> pending s ! i = q # qs \<Longrightarrow>
      ok (pop i s) \<and> pending (pop i s) = (pending s)[i := qs]"
    and call_pending: "ok s \<Longrightarrow> call i q s = Some (s', x) \<Longrightarrow> ok s' \<and> pending s' = pending s"
begin

definition heads :: "'q list list \<Rightarrow> nat list \<Rightarrow> (nat \<times> 'q) list" where
  "heads qs is = map (\<lambda>i. (i, hd (qs ! i))) (filter (\<lambda>i. qs ! i \<noteq> []) is)"

lemma heads_cong: "(\<And>i. i \<in> set is \<Longrightarrow> qs ! i = qs' ! i) \<Longrightarrow> heads qs is = heads qs' is"
  by (induction "is") (auto simp: heads_def)

lemma heads_round: "heads qs [0..<length qs] = rr_round qs 0"
  unfolding heads_def rr_round_def by (rule map_cong) (auto simp: hd_conv_nth)

lemma step:
  assumes "ok s" and "i < length (pending s)" and "pending s ! i = q # qs" and "dispatch i s = Some (s', x)"
  shows "ok s'" and "pending s' = (pending s)[i := qs]"
  using call_pending [of "pop i s" i q s' x] pop_pending [OF assms(1-3)] assms(4) dispatch_eq [OF assms(1-3)]
  by simp_all

lemma pass_eq:
  assumes "ok s" and "distinct is" and "set is \<subseteq> {..<length (pending s)}"
  shows "rr_pass ready dispatch is s = run_seq pop call (heads (pending s) is) s"
  using assms
proof (induction "is" arbitrary: s)
  case Nil
  then show ?case by (simp add: heads_def)
next
  case (Cons i "is")
  have i: "i < length (pending s)" using Cons.prems by simp
  show ?case
  proof (cases "pending s ! i")
    case Nil
    with Cons i ready_iff show ?thesis by (simp add: heads_def)
  next
    case q: (Cons q qs)
    have hd: "heads (pending s) (i # is) = (i, q) # heads (pending s) is" using q by (simp add: heads_def)
    have eq: "dispatch i s = call i q (pop i s)" by (rule dispatch_eq [OF Cons.prems(1) i q])
    have rd: "ready i s" using ready_iff [OF Cons.prems(1) i] q by simp
    have rest: "rr_pass ready dispatch is t = run_seq pop call (heads (pending s) is) t"
      if "dispatch i s = Some (t, x)" for t x
    proof -
      note st = step [OF Cons.prems(1) i q that]
      have "heads (pending t) is = heads (pending s) is"
        by (rule heads_cong) (use Cons.prems(2) in \<open>auto simp: st nth_update_if\<close>)
      with Cons.IH [OF st(1)] Cons.prems st(2) show ?thesis by simp
    qed
    show ?thesis
      by (cases "dispatch i s") (use rd hd eq rest in \<open>auto split: sum.split\<close>)
  qed
qed

lemma pass_pending:
  assumes "ok s" and "distinct is" and "set is \<subseteq> {..<length (pending s)}"
    and "rr_pass ready dispatch is s = Some (s', rs, None)"
  shows "ok s' \<and> length (pending s') = length (pending s)
    \<and> (\<forall>j < length (pending s). pending s' ! j = (if j \<in> set is then tl (pending s ! j) else pending s ! j))"
  using assms
proof (induction "is" arbitrary: s rs)
  case Nil
  then show ?case by simp
next
  case (Cons i "is")
  have i: "i < length (pending s)" using Cons.prems by simp
  show ?case
  proof (cases "pending s ! i")
    case Nil
    with Cons.prems i ready_iff have "rr_pass ready dispatch is s = Some (s', rs, None)" by simp
    with Cons.IH [of s rs] Cons.prems Nil show ?thesis by auto
  next
    case q: (Cons q qs)
    have rd: "ready i s" using ready_iff [OF Cons.prems(1) i] q by simp
    with Cons.prems(4) obtain t r rs' where t: "dispatch i s = Some (t, Inr r)"
      "rr_pass ready dispatch is t = Some (s', rs', None)"
      by (auto split: Option.bind_splits sum.splits)
    note st = step [OF Cons.prems(1) i q t(1)]
    have "set is \<subseteq> {..<length (pending t)}" using Cons.prems(3) st(2) by simp
    from Cons.IH [OF st(1) _ this t(2)] Cons.prems(2) q st(2) i show ?thesis by (auto simp: nth_update_if)
  qed
qed

theorem loop_eq:
  assumes "ok s" and "n = length (pending s)"
  shows "rr_loop ready dispatch n s = run_seq pop call (rr_order (pending s)) s"
  using assms
proof (induction "sum_list (map length (pending s))" arbitrary: s rule: less_induct)
  case less
  let ?h = "rr_round (pending s) 0"
  have set: "set [0..<n] \<subseteq> {..<length (pending s)}" using less.prems(2) by auto
  have pass: "rr_pass ready dispatch [0..<n] s = run_seq pop call ?h s"
    using pass_eq [OF less.prems(1) _ set] heads_round [of "pending s"] less.prems(2) by simp
  have rec: "rr_loop ready dispatch n t = run_seq pop call (rr_order (map tl (pending s))) t"
    if t: "run_seq pop call ?h s = Some (t, rs, None)" and ne: "rs \<noteq> []" for t rs
  proof -
    from pass_pending [OF less.prems(1) _ set, of t rs] t pass have
      "ok t" "length (pending t) = length (pending s)"
      "\<forall>j < length (pending s). pending t ! j = tl (pending s ! j)" using less.prems(2) by auto
    then have pt: "pending t = map tl (pending s)" by (intro nth_equalityI) auto
    have "?h \<noteq> []" using run_seq_prefix(3) [OF t] ne by auto
    then obtain i where i: "i < length (pending s)" "pending s ! i \<noteq> []"
      by (auto simp: rr_round_def filter_empty_conv)
    have "sum_list (map length (map tl (pending s))) < sum_list (map length (pending s))"
      by (rule total_tl_less [OF i])
    with less.hyps [of t] \<open>ok t\<close> pt less.prems(2) show ?thesis by simp
  qed
  show ?case
  proof (cases "run_seq pop call ?h s")
    case None
    then show ?thesis
      by (simp add: rr_loop.simps [of ready dispatch n s] pass rr_order_rec [of "pending s"] run_seq_append)
  next
    case (Some z)
    obtain t rs e where z: "z = (t, rs, e)" by (cases z)
    show ?thesis
    proof (cases "e = None \<and> rs \<noteq> []")
      case True
      with rec [of t rs] Some z show ?thesis
        by (simp add: rr_loop.simps [of ready dispatch n s] pass rr_order_rec [of "pending s"] run_seq_append)
    next
      case False
      then show ?thesis
      proof (cases e)
        case None
        with False Some z run_seq_prefix(3) [of pop call ?h s t rs] have "?h = []" by auto
        then have "rr_order (pending s) = []" "run_seq pop call ?h s = Some (s, [], None)"
          by (simp_all add: rr_order_empty)
        then show ?thesis by (simp add: rr_loop.simps [of ready dispatch n s] pass)
      qed (use Some z in \<open>simp add: rr_loop.simps [of ready dispatch n s] pass rr_order_rec [of "pending s"] run_seq_append\<close>)
    qed
  qed
qed

text \<open>A run that ends without an exception leaves every queue empty.\<close>

lemma loop_drains:
  assumes "rr_loop ready dispatch n s = Some y" and "ok s" and "n = length (pending s)" and "snd (snd y) = None"
  shows "concat (pending (fst y)) = []"
proof -
  let ?P = "\<lambda>rdy dsp n s y. rdy = ready \<and> dsp = dispatch \<and> ok s \<and> n = length (pending s) \<and> snd (snd y) = None
    \<longrightarrow> concat (pending (fst y)) = []"
  have "?P ready dispatch n s y"
  proof (rule rr_loop.raw_induct [of ?P, OF _ assms(1)], rule impI, goal_cases)
    case (1 rec rdy dsp n s y)
    then have pre: "rdy = ready" "dsp = dispatch" "ok s" "n = length (pending s)" "snd (snd y) = None" by auto
    have set: "set [0..<n] \<subseteq> {..<length (pending s)}" using pre(4) by auto
    from 1(2) pre obtain t rs e where p: "rr_pass ready dispatch [0..<n] s = Some (t, rs, e)"
      by (auto split: Option.bind_splits)
    have e: "e = None" using 1(2) pre p by (auto split: if_splits Option.bind_splits)
    note t = pass_pending [OF pre(3) _ set p [unfolded e]]
    show ?case
    proof (cases "rs = []")
      case True
      with 1(2) pre p e have y: "y = (t, [], None)" by simp
      have "length (heads (pending s) [0..<n]) = 0"
        using run_seq_prefix(3) [of pop call _ s t rs None] p pass_eq [OF pre(3) _ set] True e by simp
      then have "pending s ! j = []" if "j < length (pending s)" for j
        using that pre(4) by (auto simp: heads_def filter_empty_conv)
      with t pre(4) have "pending t ! j = []" if "j < length (pending t)" for j using that by auto
      then show ?thesis by (auto simp: y in_set_conv_nth)
    next
      case False
      with 1(2) pre p e obtain z where z: "rec ready dispatch n t = Some z" "y = (fst z, rs @ fst (snd z), snd (snd z))"
        by (auto split: Option.bind_splits)
      with 1(1) [OF z(1)] t pre show ?thesis by auto
    qed
  qed
  with assms show ?thesis by simp
qed

end

end
