(* ===== verification/Scheduler.thy ===== *)
theory Scheduler
  imports Client_Context Round_Robin Runtime_Correct
begin

text \<open>
  \<^verbatim>\<open>Scheduler\<close> (\<^verbatim>\<open>track-b/dma_accel_scheduler.hpp/.cpp\<close>): COPY requests of several contexts, queued per
  context and dispatched round-robin. A \<^verbatim>\<open>const Buffer *\<close> is a number; what it points to when a request
  is dispatched is the argument \<open>bufs\<close> of \<open>run_round\<close>, the caller's objects at that time.
\<close>

section \<open>State\<close>

record PendingCopy =
  pc_src :: buf_ref
  pc_src_offset :: u32
  pc_dst :: buf_ref
  pc_dst_offset :: u32
  pc_len :: u32

record Entry =
  en_ctx :: Context
  en_pending :: "PendingCopy list"

type_synonym scheduler = "Entry list"

text \<open>
  The context is moved into the constructor's parameter and from there into the entry. When the
  vector has to grow (\<open>realloc\<close>) it moves the entries it holds.
\<close>

definition move_entry :: "Entry \<Rightarrow> Entry" where
  "move_entry e = e\<lparr>en_ctx := fst (Context_move (en_ctx e))\<rparr>"

definition Scheduler_add_context :: "bool \<Rightarrow> Context \<Rightarrow> scheduler \<Rightarrow> scheduler \<times> nat" where
  "Scheduler_add_context realloc ctx entries =
     (let c = fst (Context_move ctx);
          entries = (if realloc then map move_entry entries else entries)
                    @ [\<lparr>en_ctx = fst (Context_move c), en_pending = []\<rparr>]
      in (entries, length entries - 1))"

definition Scheduler_context :: "nat \<Rightarrow> scheduler \<Rightarrow> exn + Context" where
  "Scheduler_context i entries = (if i < length entries then Inr (en_ctx (entries ! i)) else Inl (OutOfRange None))"

definition Scheduler_enqueue_copy :: "nat \<Rightarrow> buf_ref \<Rightarrow> u32 \<Rightarrow> buf_ref \<Rightarrow> u32 \<Rightarrow> u32 \<Rightarrow> scheduler
    \<Rightarrow> scheduler \<times> (exn + unit)" where
  "Scheduler_enqueue_copy i src src_offset dst dst_offset len entries =
     (if i < length entries
      then let e = entries ! i;
               req = \<lparr>pc_src = src, pc_src_offset = src_offset, pc_dst = dst, pc_dst_offset = dst_offset, pc_len = len\<rparr>
           in (entries[i := e\<lparr>en_pending := en_pending e @ [req]\<rparr>], Inr ())
      else (entries, Inl (OutOfRange None)))"

definition Scheduler_has_pending :: "scheduler \<Rightarrow> bool" where
  "Scheduler_has_pending entries = list_ex (\<lambda>e. en_pending e \<noteq> []) entries"

section \<open>A round\<close>

text \<open>The variables of \<^verbatim>\<open>run_round()\<close> beside its result: the entries and the snapshot \<^verbatim>\<open>remaining\<close>.\<close>

record 'w round_state =
  sc_entries :: scheduler
  sc_remaining :: "nat list"
  sc_rt :: "'w rt"

definition Scheduler_dispatch :: "'w kernel \<Rightarrow> (buf_ref \<Rightarrow> Buffer) \<Rightarrow> nat \<Rightarrow> 'w round_state
    \<Rightarrow> ('w round_state \<times> (exn + fence)) option" where
  "Scheduler_dispatch K bufs i s =
     (let e = sc_entries s ! i;
          req = hd (en_pending e);
          e = e\<lparr>en_pending := tl (en_pending e)\<rparr>;
          s = s\<lparr>sc_entries := (sc_entries s)[i := e],
                sc_remaining := (sc_remaining s)[i := sc_remaining s ! i - 1]\<rparr>
      in Option.bind (Context_submit K OPCODE_COPY (bufs (pc_src req)) (pc_src_offset req) (bufs (pc_dst req))
                       (pc_dst_offset req) (pc_len req) (en_ctx e) (sc_rt s))
           (\<lambda>((c, r), q). Some (s\<lparr>sc_entries := (sc_entries s)[i := e\<lparr>en_ctx := c\<rparr>], sc_rt := r\<rparr>, q)))"

definition round_start :: "scheduler \<Rightarrow> 'w rt \<Rightarrow> 'w round_state" where
  "round_start entries r =
     \<lparr>sc_entries = entries, sc_remaining = map (\<lambda>e. length (en_pending e)) entries, sc_rt = r\<rparr>"

definition round_result :: "('w round_state, fence) rr_result
    \<Rightarrow> (scheduler \<times> 'w rt) \<times> (exn + (nat \<times> fence) list)" where
  "round_result x = (case x of (s, rs, e) \<Rightarrow>
     ((sc_entries s, sc_rt s), case e of Some e \<Rightarrow> Inl e | None \<Rightarrow> Inr rs))"

definition Scheduler_run_round :: "'w kernel \<Rightarrow> (buf_ref \<Rightarrow> Buffer) \<Rightarrow> scheduler \<Rightarrow> 'w rt
    \<Rightarrow> ((scheduler \<times> 'w rt) \<times> (exn + (nat \<times> fence) list)) option" where
  "Scheduler_run_round K bufs entries r =
     map_option round_result
       (rr_loop (\<lambda>i s. sc_remaining s ! i \<noteq> 0) (Scheduler_dispatch K bufs) (length entries) (round_start entries r))"

section \<open>The scheduler is a round-robin scheduler\<close>

text \<open>
  Nothing is enqueued during a round, so the snapshot stays the number of requests still queued.
  \<open>sched_pop\<close> and \<open>sched_call\<close> are the two halves of the loop body.
\<close>

definition sched_pending :: "'w round_state \<Rightarrow> PendingCopy list list" where
  "sched_pending s = map en_pending (sc_entries s)"

definition sched_ok :: "'w round_state \<Rightarrow> bool" where
  "sched_ok s \<longleftrightarrow> sc_remaining s = map (\<lambda>e. length (en_pending e)) (sc_entries s)"

definition sched_pop :: "nat \<Rightarrow> 'w round_state \<Rightarrow> 'w round_state" where
  "sched_pop i s =
     (let e = sc_entries s ! i in
      s\<lparr>sc_entries := (sc_entries s)[i := e\<lparr>en_pending := tl (en_pending e)\<rparr>],
        sc_remaining := (sc_remaining s)[i := sc_remaining s ! i - 1]\<rparr>)"

definition sched_call :: "'w kernel \<Rightarrow> (buf_ref \<Rightarrow> Buffer) \<Rightarrow> nat \<Rightarrow> PendingCopy \<Rightarrow> 'w round_state
    \<Rightarrow> ('w round_state \<times> (exn + fence)) option" where
  "sched_call K bufs i req s =
     Option.bind (Context_submit K OPCODE_COPY (bufs (pc_src req)) (pc_src_offset req) (bufs (pc_dst req))
                   (pc_dst_offset req) (pc_len req) (en_ctx (sc_entries s ! i)) (sc_rt s))
       (\<lambda>((c, r), q). Some (s\<lparr>sc_entries := (sc_entries s)[i := (sc_entries s ! i)\<lparr>en_ctx := c\<rparr>], sc_rt := r\<rparr>, q))"

lemma sched_ok_nth:
  "sched_ok s \<Longrightarrow> i < length (sched_pending s) \<Longrightarrow> sc_remaining s ! i = length (en_pending (sc_entries s ! i))"
  by (simp add: sched_ok_def sched_pending_def)

interpretation sched: round_robin "\<lambda>i s. sc_remaining s ! i \<noteq> 0" "Scheduler_dispatch K bufs" sched_pending
    sched_pop "sched_call K bufs" sched_ok
  for K :: "'w kernel" and bufs :: "buf_ref \<Rightarrow> Buffer"
proof (unfold_locales, goal_cases)
  case (1 s i)
  then show ?case by (simp add: sched_ok_nth sched_pending_def)
next
  case (2 s i q qs)
  then show ?case by (simp add: Scheduler_dispatch_def sched_call_def sched_pop_def sched_pending_def Let_def)
next
  case (3 s i q qs)
  then show ?case by (simp add: sched_pop_def sched_ok_def sched_pending_def Let_def map_update)
next
  case (4 s i q s' x)
  then show ?case
    by (auto simp: sched_call_def sched_ok_def sched_pending_def map_update_same split: Option.bind_splits)
qed

lemma round_start_ok: "sched_ok (round_start entries r)"
  "sched_pending (round_start entries r) = map en_pending entries" "sc_entries (round_start entries r) = entries"
  by (simp_all add: sched_ok_def sched_pending_def round_start_def)

text \<open>
  C26: a round dispatches exactly the requests that were pending when it started, in round-robin
  order: the \<open>k\<close>-th request of every context before the \<open>(k+1)\<close>-th of any, contexts by registration,
  each context's own requests first in, first out. It ends, with the same state, results and
  exception as submitting them one by one in that order; without an exception the results name the
  contexts in that order and nothing is left pending.
\<close>

theorem run_round_order:
  "Scheduler_run_round K bufs entries r =
     map_option round_result (run_seq sched_pop (sched_call K bufs) (rr_order (map en_pending entries))
                               (round_start entries r))
   \<and> (i < length entries \<longrightarrow>
        map snd (filter (\<lambda>x. fst x = i) (rr_order (map en_pending entries))) = en_pending (entries ! i))
   \<and> (Scheduler_run_round K bufs entries r = Some ((entries', r'), Inr rs) \<longrightarrow>
        map fst rs = map fst (rr_order (map en_pending entries)) \<and> \<not> Scheduler_has_pending entries')"
proof -
  let ?loop = "rr_loop (\<lambda>i s. sc_remaining s ! i \<noteq> 0) (Scheduler_dispatch K bufs) (length entries) (round_start entries r)"
  let ?seq = "run_seq sched_pop (sched_call K bufs) (rr_order (map en_pending entries)) (round_start entries r)"
  have len: "length entries = length (sched_pending (round_start entries r))" by (simp add: round_start_ok)
  have eq: "?loop = ?seq"
    using sched.loop_eq [OF round_start_ok(1) len, of K bufs] by (simp add: round_start_ok)
  have "map fst rs = map fst (rr_order (map en_pending entries)) \<and> \<not> Scheduler_has_pending entries'"
    if run: "Scheduler_run_round K bufs entries r = Some ((entries', r'), Inr rs)"
  proof -
    obtain s where s: "?loop = Some (s, rs, None)" "entries' = sc_entries s"
      using run by (auto simp: Scheduler_run_round_def round_result_def split: option.splits)
    have "map fst rs = map fst (rr_order (map en_pending entries))"
      using run_seq_prefix(1,3) [OF s(1) [unfolded eq]] by simp
    moreover have "concat (sched_pending s) = []"
      using sched.loop_drains [OF s(1) round_start_ok(1) len] by simp
    ultimately show ?thesis
      by (auto simp: Scheduler_has_pending_def list_ex_iff s(2) sched_pending_def)
  qed
  with eq rr_order_fifo [of i "map en_pending entries"] show ?thesis
    by (auto simp: Scheduler_run_round_def)
qed

text \<open>Two contexts with one buffer each way; reference \<open>1\<close> is a buffer of neither.\<close>

definition demo_ctx :: "string \<Rightarrow> Context" where
  "demo_ctx n = \<lparr>cx_name = n, cx_stream = empty_stream, cx_owned = {0}\<rparr>"

definition demo_bufs :: "buf_ref \<Rightarrow> Buffer" where
  "demo_bufs i = some_buffer\<lparr>buf_id := (if i = 0 then 0 else 7)\<rparr>"

definition demo_copy :: "buf_ref \<Rightarrow> PendingCopy" where
  "demo_copy i = \<lparr>pc_src = i, pc_src_offset = 0, pc_dst = 0, pc_dst_offset = 0, pc_len = 64\<rparr>"

definition demo_entries :: scheduler where
  "demo_entries = [\<lparr>en_ctx = demo_ctx ''A'', en_pending = [demo_copy 0, demo_copy 0]\<rparr>,
     \<lparr>en_ctx = demo_ctx ''B'', en_pending = [demo_copy 0]\<rparr>]"

theorem run_round_order_witness:
  "case Scheduler_run_round counting_kernel demo_bufs demo_entries \<lparr>world = 0, heap = []\<rparr> of
     Some ((es, r), Inr rs) \<Rightarrow> map fst rs = [0, 1, 0] \<and> \<not> Scheduler_has_pending es | _ \<Rightarrow> False"
proof -
  let ?run = "Scheduler_run_round counting_kernel demo_bufs demo_entries \<lparr>world = 0, heap = []\<rparr>"
  have "case ?run of Some ((es, r), Inr rs) \<Rightarrow> True | _ \<Rightarrow> False" by code_simp
  then obtain es r rs where run: "?run = Some ((es, r), Inr rs)" by (auto split: option.splits prod.splits sum.splits)
  have ord: "map fst (rr_order (map en_pending demo_entries)) = [0, 1, 0]" by code_simp
  have "map fst rs = [0, 1, 0] \<and> \<not> Scheduler_has_pending es"
    using run_round_order [of counting_kernel demo_bufs demo_entries "\<lparr>world = 0, heap = []\<rparr>" 0 es r rs, unfolded ord]
      run by blast
  then show ?thesis unfolding run by simp
qed

text \<open>
  C27: a request whose submission throws is lost. The exception leaves everything behind it
  pending, but the request itself was taken off its queue before it was submitted: it was neither
  dispatched nor does it remain pending. Shown for a request with a foreign buffer at the front of
  the first context, with any kernel.
\<close>

theorem throw_loses_request:
  assumes "en_pending e = q # qs" and "buf_id (bufs (pc_src q)) \<notin> cx_owned (en_ctx e)"
  shows "\<exists>m. Scheduler_run_round K bufs (e # es) r = Some ((e\<lparr>en_pending := qs\<rparr> # es, r), Inl (LogicError m))"
proof -
  let ?s = "round_start (e # es) r"
  obtain m where "Context_submit K OPCODE_COPY (bufs (pc_src q)) (pc_src_offset q) (bufs (pc_dst q)) (pc_dst_offset q)
      (pc_len q) (en_ctx e) r = Some ((en_ctx e, r), Inl (LogicError m))"
    using assms(2) by (simp add: Context_submit_def checked_def check_owned_def)
  then have "Scheduler_dispatch K bufs 0 ?s = Some
      (?s\<lparr>sc_entries := e\<lparr>en_pending := qs\<rparr> # es, sc_remaining := length qs # map (\<lambda>e. length (en_pending e)) es\<rparr>,
       Inl (LogicError m))"
    using assms(1) by (simp add: Scheduler_dispatch_def round_start_def)
  moreover have "[0..<length (e # es)] = 0 # [1..<length (e # es)]"
    using upt_conv_Cons [of 0 "length (e # es)"] by (simp del: upt_Suc)
  ultimately have "rr_loop (\<lambda>i s. sc_remaining s ! i \<noteq> 0) (Scheduler_dispatch K bufs) (length (e # es)) ?s
      = Some (?s\<lparr>sc_entries := e\<lparr>en_pending := qs\<rparr> # es,
                 sc_remaining := length qs # map (\<lambda>e. length (en_pending e)) es\<rparr>, [], Some (LogicError m))"
    using assms(1) by (simp add: rr_loop.simps round_start_def del: upt_Suc)
  then show ?thesis by (simp add: Scheduler_run_round_def round_result_def round_start_def)
qed

theorem throw_loses_request_witness:
  "\<exists>m. Scheduler_run_round counting_kernel demo_bufs
         [\<lparr>en_ctx = demo_ctx ''A'', en_pending = [demo_copy 1, demo_copy 0]\<rparr>] \<lparr>world = 0, heap = []\<rparr>
       = Some (([\<lparr>en_ctx = demo_ctx ''A'', en_pending = [demo_copy 0]\<rparr>], \<lparr>world = 0, heap = []\<rparr>),
               Inl (LogicError m))"
  using throw_loses_request [of "\<lparr>en_ctx = demo_ctx ''A'', en_pending = [demo_copy 1, demo_copy 0]\<rparr>"
      "demo_copy 1" "[demo_copy 0]" demo_bufs counting_kernel "[]" "\<lparr>world = 0, heap = []\<rparr>"]
  by (simp add: demo_ctx_def demo_bufs_def demo_copy_def)

end
