(* ===== verification/Stream_Scheduler.thy ===== *)
theory Stream_Scheduler
  imports Round_Robin
begin

text \<open>
  \<^verbatim>\<open>StreamScheduler\<close> (\<^verbatim>\<open>track-c/runtime/dma_accel_stream_scheduler.hpp/.cpp\<close>): round-robin submission
  over registered streams. The queued commands are \<^verbatim>\<open>std::function<Fence()>\<close> objects of the caller:
  functions over the state \<open>'c\<close> they work on, which may throw or not return.
\<close>

section \<open>State and operations\<close>

type_synonym 'c thunk = "'c \<Rightarrow> ('c \<times> (exn + fence)) option"
type_synonym stream_ptr = nat

record 'c StreamScheduler =
  ss_streams :: "stream_ptr list"
  ss_queues :: "'c thunk list list"

record ScheduledResult =
  sr_stream_index :: nat
  sr_fence :: fence

definition StreamScheduler_add_stream :: "stream_ptr \<Rightarrow> 'c StreamScheduler \<Rightarrow> 'c StreamScheduler \<times> nat" where
  "StreamScheduler_add_stream stream s =
     (let s = s\<lparr>ss_streams := ss_streams s @ [stream], ss_queues := ss_queues s @ [[]]\<rparr>
      in (s, length (ss_streams s) - 1))"

definition StreamScheduler_enqueue :: "nat \<Rightarrow> 'c thunk \<Rightarrow> 'c StreamScheduler \<Rightarrow> 'c StreamScheduler \<times> (exn + unit)" where
  "StreamScheduler_enqueue i submit_fn s =
     (if length (ss_streams s) \<le> i
      then (s, Inl (OutOfRange (Some ''StreamScheduler::enqueue(): stream_index out of range'')))
      else (s\<lparr>ss_queues := (ss_queues s)[i := ss_queues s ! i @ [submit_fn]]\<rparr>, Inr ()))"

definition StreamScheduler_dispatch :: "nat \<Rightarrow> 'c StreamScheduler \<times> 'c
    \<Rightarrow> (('c StreamScheduler \<times> 'c) \<times> (exn + fence)) option" where
  "StreamScheduler_dispatch i sc =
     (case sc of (s, c) \<Rightarrow>
        (let fn = hd (ss_queues s ! i);
             s = s\<lparr>ss_queues := (ss_queues s)[i := tl (ss_queues s ! i)]\<rparr>
         in Option.bind (fn c) (\<lambda>(c, q). Some ((s, c), q))))"

definition run_result :: "('c StreamScheduler \<times> 'c, fence) rr_result
    \<Rightarrow> ('c StreamScheduler \<times> 'c) \<times> (exn + ScheduledResult list)" where
  "run_result x = (case x of (sc, rs, e) \<Rightarrow>
     (sc, case e of Some e \<Rightarrow> Inl e
          | None \<Rightarrow> Inr (map (\<lambda>(i, f). \<lparr>sr_stream_index = i, sr_fence = f\<rparr>) rs)))"

definition StreamScheduler_run :: "'c StreamScheduler \<Rightarrow> 'c
    \<Rightarrow> (('c StreamScheduler \<times> 'c) \<times> (exn + ScheduledResult list)) option" where
  "StreamScheduler_run s c =
     map_option run_result
       (rr_loop (\<lambda>i sc. ss_queues (fst sc) ! i \<noteq> []) StreamScheduler_dispatch (length (ss_queues s)) (s, c))"

text \<open>Streams and queues are registered together, and enqueueing keeps them in step.\<close>

definition ss_inv :: "'c StreamScheduler \<Rightarrow> bool" where
  "ss_inv s \<longleftrightarrow> length (ss_queues s) = length (ss_streams s)"

lemma ss_inv_keep:
  "ss_inv s \<Longrightarrow> ss_inv (fst (StreamScheduler_add_stream p s))"
  "ss_inv s \<Longrightarrow> ss_inv (fst (StreamScheduler_enqueue i fn s))"
  by (simp_all add: ss_inv_def StreamScheduler_add_stream_def StreamScheduler_enqueue_def)

section \<open>The second round-robin scheduler\<close>

definition ss_pop :: "nat \<Rightarrow> 'c StreamScheduler \<times> 'c \<Rightarrow> 'c StreamScheduler \<times> 'c" where
  "ss_pop i sc = ((fst sc)\<lparr>ss_queues := (ss_queues (fst sc))[i := tl (ss_queues (fst sc) ! i)]\<rparr>, snd sc)"

definition ss_call :: "nat \<Rightarrow> 'c thunk \<Rightarrow> 'c StreamScheduler \<times> 'c \<Rightarrow> (('c StreamScheduler \<times> 'c) \<times> (exn + fence)) option" where
  "ss_call i fn sc = Option.bind (fn (snd sc)) (\<lambda>(c, q). Some ((fst sc, c), q))"

interpretation streams: round_robin "\<lambda>i sc. ss_queues (fst sc) ! i \<noteq> []" StreamScheduler_dispatch
    "\<lambda>sc. ss_queues (fst sc)" ss_pop ss_call "\<lambda>sc. True"
  by unfold_locales
     (auto simp: StreamScheduler_dispatch_def ss_pop_def ss_call_def split: prod.splits Option.bind_splits)

text \<open>
  C27: \<^verbatim>\<open>run()\<close> submits the queued commands in round-robin order over the streams, each stream's own
  commands in the order they were enqueued, with the same effect as calling them one by one in that
  order. If none of them throws, every result is tagged with its stream and all queues are empty
  afterwards. Queueing for an index that was never handed out is rejected with \<^verbatim>\<open>std::out_of_range\<close>
  and changes nothing.
\<close>

theorem stream_scheduler_order:
  "StreamScheduler_run s c = map_option run_result (run_seq ss_pop ss_call (rr_order (ss_queues s)) (s, c))
   \<and> (i < length (ss_queues s) \<longrightarrow>
        map snd (filter (\<lambda>x. fst x = i) (rr_order (ss_queues s))) = ss_queues s ! i)
   \<and> (StreamScheduler_run s c = Some ((s', c'), Inr rs) \<longrightarrow>
        map sr_stream_index rs = map fst (rr_order (ss_queues s)) \<and> concat (ss_queues s') = [])
   \<and> (length (ss_streams s) \<le> j \<longrightarrow> fst (StreamScheduler_enqueue j fn s) = s
        \<and> snd (StreamScheduler_enqueue j fn s)
          = Inl (OutOfRange (Some ''StreamScheduler::enqueue(): stream_index out of range'')))"
proof -
  let ?loop = "rr_loop (\<lambda>i sc. ss_queues (fst sc) ! i \<noteq> []) StreamScheduler_dispatch (length (ss_queues s)) (s, c)"
  have eq: "?loop = run_seq ss_pop ss_call (rr_order (ss_queues s)) (s, c)"
    using streams.loop_eq [where s = "(s, c)"] by simp
  have "map sr_stream_index rs = map fst (rr_order (ss_queues s)) \<and> concat (ss_queues s') = []"
    if run: "StreamScheduler_run s c = Some ((s', c'), Inr rs)"
  proof -
    obtain xs where x: "?loop = Some ((s', c'), xs, None)"
      "rs = map (\<lambda>(i, f). \<lparr>sr_stream_index = i, sr_fence = f\<rparr>) xs"
      using run by (auto simp: StreamScheduler_run_def run_result_def split: option.splits)
    have "map fst xs = map fst (rr_order (ss_queues s))"
      using run_seq_prefix(1,3) [OF x(1) [unfolded eq]] by simp
    moreover have "map sr_stream_index rs = map fst xs" by (auto simp: x(2))
    moreover have "concat (ss_queues s') = []"
      using streams.loop_drains [OF x(1)] by simp
    ultimately show ?thesis by simp
  qed
  with eq rr_order_fifo [of i "ss_queues s"] show ?thesis
    by (simp add: StreamScheduler_run_def StreamScheduler_enqueue_def)
qed

text \<open>Commands that number themselves.\<close>

definition demo_thunk :: "nat thunk" where
  "demo_thunk n = Some (Suc n, Inr n)"

theorem stream_scheduler_order_witness:
  "case StreamScheduler_run \<lparr>ss_streams = [10, 11], ss_queues = [[demo_thunk, demo_thunk], [demo_thunk]]\<rparr> 0 of
     Some ((s, c), Inr rs) \<Rightarrow> map sr_stream_index rs = [0, 1, 0] \<and> concat (ss_queues s) = [] | _ \<Rightarrow> False"
proof -
  let ?s = "\<lparr>ss_streams = [10, 11], ss_queues = [[demo_thunk, demo_thunk], [demo_thunk]]\<rparr>"
  have "case StreamScheduler_run ?s 0 of Some ((s, c), Inr rs) \<Rightarrow> True | _ \<Rightarrow> False" by code_simp
  then obtain s c rs where run: "StreamScheduler_run ?s 0 = Some ((s, c), Inr rs)"
    by (auto split: option.splits prod.splits sum.splits)
  have ord: "map fst (rr_order (ss_queues ?s)) = [0, 1, 0]" by code_simp
  have "map sr_stream_index rs = [0, 1, 0] \<and> concat (ss_queues s) = []"
    using stream_scheduler_order [of ?s 0 0 s c rs, unfolded ord] run by blast
  then show ?thesis unfolding run by simp
qed

end
