(* ===== verification/Commands.thy ===== *)
theory Commands
  imports Runtime_Correct
begin

text \<open>
  Deferred submissions. \<^verbatim>\<open>CommandBatch\<close> and \<^verbatim>\<open>DependencyEngine\<close> keep a \<^verbatim>\<open>std::function<Fence()>\<close> that
  captures the stream, the arguments and the addresses of the buffers; the three lambdas they write
  are the constructors of \<open>command\<close>, and calling one is \<open>run_command\<close>. The buffers are read when the
  command runs: \<open>bufs\<close> are the caller's objects at that time.
\<close>

datatype command =
    Submit u32 buf_ref u32 buf_ref u32 u32
  | SubmitScaleAdd buf_ref u32 buf_ref u32 buf_ref u32 u32 float_bits
  | SubmitTileMatmul buf_ref u32 buf_ref u32 buf_ref u32

fun run_command :: "'w kernel \<Rightarrow> (buf_ref \<Rightarrow> Buffer) \<Rightarrow> command \<Rightarrow> Stream \<Rightarrow> 'w rt \<Rightarrow> ('w, fence) outcome option" where
  "run_command K bufs (Submit opcode src src_offset dst dst_offset len) s r =
     Stream_submit K opcode (bufs src) src_offset (bufs dst) dst_offset len s r"
| "run_command K bufs (SubmitScaleAdd a a_offset b b_offset dst dst_offset len scalar) s r =
     Stream_submit_scale_add K (bufs a) a_offset (bufs b) b_offset (bufs dst) dst_offset len scalar s r"
| "run_command K bufs (SubmitTileMatmul a a_offset b b_offset c c_offset) s r =
     Stream_submit_tile_matmul K (bufs a) a_offset (bufs b) b_offset (bufs c) c_offset s r"

lemma run_command_throttled: "\<exists>req. run_command K bufs c = throttled_submit K req"
  by (cases c) (auto simp: submit_defs fun_eq_iff)

text \<open>The throttle pumps, then takes one settled command off the bookkeeping.\<close>

lemma throttle_le:
  assumes run: "Stream_throttle_before_submit K s r = Some ((s', r'), q)"
  obtains s1 where "rt_le (s, r) (s1, r')" "\<And>c f. st_outstanding s' c = Some f \<Longrightarrow> st_outstanding s1 c = Some f"
proof (cases "length (st_order s) < DMA_ACCEL_QUEUE_DEPTH")
  case True
  with run show ?thesis by (intro that [of s]) (simp_all add: Stream_throttle_before_submit_def)
next
  case False
  let ?f = "hd (st_order s)"
  obtain s1 r1 x where w: "(if \<not> fs_ready (heap r ! ?f) then Stream_wait_state_blocking K ?f s r
      else Some ((s, r), Inr ())) = Some ((s1, r1), x)"
    using run False by (auto simp: Stream_throttle_before_submit_def Let_def split: Option.bind_splits)
  have le: "rt_le (s, r) (s1, r1)" using w wait_blocking_le [of K ?f s r] by (fastforce split: if_splits)
  have "r' = r1 \<and> (\<forall>c f. st_outstanding s' c = Some f \<longrightarrow> st_outstanding s1 c = Some f)"
    using run w False by (cases x) (auto simp: Stream_throttle_before_submit_def Let_def split: if_splits)
  with le that [of s1] show ?thesis by auto
qed

text \<open>
  What a submission does to the heap of fences: it only adds, at the end, the fence it returns, and
  that fence is not ready; an exception adds none.
\<close>

lemma throttled_submit_heap:
  assumes inv: "stream_inv s (heap r)" and run: "throttled_submit K req s r = Some ((s', r'), q)"
  shows "heap_le (heap r) (heap r')"
    and "q = Inr f \<Longrightarrow> f = length (heap r) \<and> length (heap r') = Suc f \<and> \<not> fs_ready (heap r' ! f)"
    and "q = Inl e \<Longrightarrow> length (heap r') = length (heap r)"
proof -
  obtain s1 r1 x where t: "Stream_throttle_before_submit K s r = Some ((s1, r1), x)"
    using run by (auto simp: throttled_submit_def split: Option.bind_splits)
  have len: "length (heap r1) = length (heap r)" by (rule throttle_inv(3) [OF inv t])
  have le: "heap_le (heap r) (heap r1)" by (rule throttle_le [OF t]) (simp add: rt_le_def)
  have grow: "heap_le (heap r1) (heap r1 @ [fs])" for fs by (simp add: heap_le_def nth_append)
  have "heap_le (heap r) (heap r')
    \<and> (q = Inr f \<longrightarrow> f = length (heap r) \<and> length (heap r') = Suc f \<and> \<not> fs_ready (heap r' ! f))
    \<and> (q = Inl e \<longrightarrow> length (heap r') = length (heap r))"
  proof (cases x)
    case (Inl e)
    with run t le len show ?thesis by (auto simp: throttled_submit_def)
  next
    case (Inr u)
    with run t obtain w y where d: "ioctl_submit K (st_fd s1) req (world r1) = Some (w, y)"
      "Stream_do_submit K req s1 r1 = Some ((s', r'), q)"
      by (auto simp: throttled_submit_def Stream_do_submit_def split: Option.bind_splits)
    then show ?thesis
      using le len heap_le_trans [OF le grow]
      by (cases y) (auto simp: Stream_do_submit_def Let_def nth_append)
  qed
  then show "heap_le (heap r) (heap r')"
    and "q = Inr f \<Longrightarrow> f = length (heap r) \<and> length (heap r') = Suc f \<and> \<not> fs_ready (heap r' ! f)"
    and "q = Inl e \<Longrightarrow> length (heap r') = length (heap r)" by auto
qed

lemma run_command_heap:
  assumes "stream_inv s (heap r)" and "run_command K bufs c s r = Some ((s', r'), q)"
  shows "stream_inv s' (heap r')" and "heap_le (heap r) (heap r')"
    and "q = Inr f \<Longrightarrow> f = length (heap r) \<and> length (heap r') = Suc f \<and> \<not> fs_ready (heap r' ! f)"
    and "q = Inl e \<Longrightarrow> length (heap r') = length (heap r)"
proof -
  obtain req where "throttled_submit K req s r = Some ((s', r'), q)"
    using run_command_throttled [of K bufs c] assms(2) by metis
  note t = this
  show "stream_inv s' (heap r')" "heap_le (heap r) (heap r')"
    "q = Inr f \<Longrightarrow> f = length (heap r) \<and> length (heap r') = Suc f \<and> \<not> fs_ready (heap r' ! f)"
    "q = Inl e \<Longrightarrow> length (heap r') = length (heap r)"
    using throttled_submit_inv [OF assms(1) t] throttled_submit_heap [OF assms(1) t] by blast+
qed

declare Stream_pump.simps [code] Stream_wait_state_blocking.simps [code] wait_loop.simps [code]

section \<open>Settled fences stay as they are\<close>

text \<open>
  A stream tracks no fence that is ready. Then the state of a ready fence is final: no operation of
  the stream changes it any more.
\<close>

definition stream_ok :: "Stream \<Rightarrow> fence_heap \<Rightarrow> bool" where
  "stream_ok s h \<longleftrightarrow> stream_inv s h \<and> (\<forall>f \<in> ran (st_outstanding s). \<not> fs_ready (h ! f))"

definition heap_stable :: "fence_heap \<Rightarrow> fence_heap \<Rightarrow> bool" where
  "heap_stable h h' \<longleftrightarrow> length h \<le> length h' \<and> (\<forall>f < length h. fs_ready (h ! f) \<longrightarrow> h' ! f = h ! f)"

lemma heap_stable_refl [simp]: "heap_stable h h"
  by (simp add: heap_stable_def)

lemma heap_stable_trans: "heap_stable h h' \<Longrightarrow> heap_stable h' h'' \<Longrightarrow> heap_stable h h''"
  by (auto simp: heap_stable_def)

lemma stream_inv_own_ids: "stream_inv s h \<Longrightarrow> own_ids s h"
  using stream_invD(4,5) by (simp add: own_ids_def)

lemma rt_le_ok:
  assumes "rt_le (s, r) (s', r')" and "stream_ok s (heap r)"
  shows "stream_ok s' (heap r')" and "heap_stable (heap r) (heap r')"
proof -
  have own: "own_ids s (heap r)" using assms(2) stream_inv_own_ids by (simp add: stream_ok_def)
  have out: "f \<in> ran (st_outstanding s)" if "f \<in> ran (st_outstanding s')" for f
    using that assms(1) by (auto simp: rt_le_def ran_def)
  show "stream_ok s' (heap r')"
    using rt_le_inv [OF assms(1)] assms own out by (simp add: stream_ok_def rt_le_def)
  show "heap_stable (heap r) (heap r')"
    using assms own by (auto simp: stream_ok_def rt_le_def heap_stable_def)
qed

lemma run_command_ok:
  assumes ok: "stream_ok s (heap r)" and run: "run_command K bufs c s r = Some ((s', r'), q)"
  shows "stream_ok s' (heap r')" and "heap_stable (heap r) (heap r')"
proof -
  obtain req where t: "throttled_submit K req s r = Some ((s', r'), q)"
    using run_command_throttled [of K bufs c] run by metis
  have inv: "stream_inv s (heap r)" using ok by (simp add: stream_ok_def)
  obtain s1 r1 x where th: "Stream_throttle_before_submit K s r = Some ((s1, r1), x)"
    using t by (auto simp: throttled_submit_def split: Option.bind_splits)
  obtain s0 where s0: "rt_le (s, r) (s0, r1)" "\<And>c f. st_outstanding s1 c = Some f \<Longrightarrow> st_outstanding s0 c = Some f"
    using throttle_le [OF th] by blast
  note ok0 = rt_le_ok [OF s0(1) ok]
  have unready: "\<not> fs_ready (heap r1 ! f)" if "st_outstanding s1 c = Some f" for c f
    using ok0(1) s0(2) [OF that] by (auto simp: stream_ok_def ran_def)
  have "(\<forall>c f. st_outstanding s' c = Some f \<longrightarrow> \<not> fs_ready (heap r' ! f)) \<and> heap_stable (heap r1) (heap r')"
  proof (cases x)
    case (Inl e)
    with t th unready show ?thesis by (auto simp: throttled_submit_def)
  next
    case (Inr u)
    with t th obtain w y where d: "ioctl_submit K (st_fd s1) req (world r1) = Some (w, y)"
      "Stream_do_submit K req s1 r1 = Some ((s', r'), q)"
      by (auto simp: throttled_submit_def Stream_do_submit_def split: Option.bind_splits)
    have lt: "f < length (heap r1)" if "st_outstanding s1 c = Some f" for c f
      using stream_invD(5) [OF throttle_inv(1) [OF inv th] that] .
    from d unready lt show ?thesis
      by (cases y) (auto simp: Stream_do_submit_def Let_def heap_stable_def nth_append split: option.splits if_splits)
  qed
  then show "stream_ok s' (heap r')" and "heap_stable (heap r) (heap r')"
    using throttled_submit_inv [OF inv t] ok0(2) by (auto simp: stream_ok_def ran_def intro: heap_stable_trans)
qed

end
