(* ===== verification/Command_Group.thy ===== *)
theory Command_Group
  imports Commands Client_Context Stream_Scheduler
begin

text \<open>
  \<^verbatim>\<open>CommandGroup\<close> (\<^verbatim>\<open>track-c/runtime/dma_accel_command_group.hpp/.cpp\<close>): commands of one stream tracked as a
  unit. The stream the group is bound to is passed with the runtime state; \<open>cg_stream\<close> is the pointer
  itself, null after the group was moved from.
\<close>

section \<open>State and operations\<close>

datatype GroupStatus = Pending | AllOk | SomeFailed

record CommandGroup =
  cg_stream :: "stream_ptr option"
  cg_fences :: "fence list"
  cg_sealed :: bool

definition CommandGroup_new :: "stream_ptr \<Rightarrow> CommandGroup" where
  "CommandGroup_new p = \<lparr>cg_stream = Some p, cg_fences = [], cg_sealed = False\<rparr>"

definition CommandGroup_move :: "CommandGroup \<Rightarrow> CommandGroup \<times> CommandGroup" where
  "CommandGroup_move other = (other, \<lparr>cg_stream = None, cg_fences = [], cg_sealed = False\<rparr>)"

definition CommandGroup_assign :: "bool \<Rightarrow> CommandGroup \<Rightarrow> CommandGroup \<Rightarrow> CommandGroup \<times> CommandGroup" where
  "CommandGroup_assign same this other =
     (if same then (this, other) else (other, \<lparr>cg_stream = None, cg_fences = [], cg_sealed = False\<rparr>))"

definition CommandGroup_add :: "fence \<Rightarrow> CommandGroup \<Rightarrow> CommandGroup \<times> (exn + unit)" where
  "CommandGroup_add fence g =
     (if cg_sealed g
      then (g, Inl (LogicError (''CommandGroup::add() called after seal() '' @ em_dash @ '' a sealed group''
              @ [CHR 0x27] @ ''s membership is fixed; create a new group for further commands'')))
      else (g\<lparr>cg_fences := cg_fences g @ [fence]\<rparr>, Inr ()))"

definition CommandGroup_seal :: "CommandGroup \<Rightarrow> CommandGroup" where
  "CommandGroup_seal g = g\<lparr>cg_sealed := True\<rparr>"

definition require_sealed_for_query :: "CommandGroup \<Rightarrow> exn + unit" where
  "require_sealed_for_query g =
     (if \<not> cg_sealed g
      then Inl (LogicError (''CommandGroup::query()/wait() called before seal() '' @ em_dash
              @ '' aggregate state is only meaningful once membership is fixed''))
      else Inr ())"

text \<open>The scan of \<^verbatim>\<open>query()\<close>: the flags \<^verbatim>\<open>any_not_ready\<close> and \<^verbatim>\<open>any_failed\<close>.\<close>

primrec query_scan :: "fence_heap \<Rightarrow> fence list \<Rightarrow> bool \<times> bool \<Rightarrow> bool \<times> bool" where
  "query_scan h [] flags = flags"
| "query_scan h (f # fs) flags =
     (case flags of (any_not_ready, any_failed) \<Rightarrow>
        if \<not> Fence_is_ready h f then query_scan h fs (True, any_failed)
        else if Fence_status h f \<noteq> Inr DMA_ACCEL_OK then query_scan h fs (any_not_ready, True)
        else query_scan h fs flags)"

definition CommandGroup_query :: "'w kernel \<Rightarrow> CommandGroup \<Rightarrow> Stream \<Rightarrow> 'w rt \<Rightarrow> ('w, GroupStatus) outcome option" where
  "CommandGroup_query K g s r =
     (case require_sealed_for_query g of
        Inl e \<Rightarrow> Some ((s, r), Inl e)
      | Inr u \<Rightarrow>
          (case cg_stream g of None \<Rightarrow> None | Some p \<Rightarrow>
             Option.bind (Stream_pump K s r) (\<lambda>((s, r), q).
               case q of
                 Inl e \<Rightarrow> Some ((s, r), Inl e)
               | Inr u \<Rightarrow>
                   (case query_scan (heap r) (cg_fences g) (False, False) of
                      (any_not_ready, any_failed) \<Rightarrow>
                        Some ((s, r), Inr (if any_not_ready then Pending
                                           else if any_failed then SomeFailed else AllOk))))))"

text \<open>The scan of \<^verbatim>\<open>wait()\<close>: the first fence that is not ready, and \<^verbatim>\<open>any_failed\<close> before it.\<close>

primrec wait_scan :: "fence_heap \<Rightarrow> fence list \<Rightarrow> bool \<Rightarrow> fence option \<times> bool" where
  "wait_scan h [] any_failed = (None, any_failed)"
| "wait_scan h (f # fs) any_failed =
     (if \<not> Fence_is_ready h f then (Some f, any_failed)
      else if Fence_status h f \<noteq> Inr DMA_ACCEL_OK then wait_scan h fs True
      else wait_scan h fs any_failed)"

partial_function (option) group_wait_loop ::
  "'w kernel \<Rightarrow> int option \<Rightarrow> fence list \<Rightarrow> Stream \<Rightarrow> 'w rt \<Rightarrow> ('w, GroupStatus) outcome option" where
  "group_wait_loop K deadline fences s r =
     (case wait_scan (heap r) fences False of
        (None, any_failed) \<Rightarrow> Some ((s, r), Inr (if any_failed then SomeFailed else AllOk))
      | (Some pending, any_failed) \<Rightarrow>
          (let wt = (case deadline of
                       None \<Rightarrow> (world r, Some (- 1))
                     | Some d \<Rightarrow> (case clock_now K (world r) of
                         (w, now) \<Rightarrow> (w, if d - now \<le> 0 then None else Some ((d - now) div 1000000))))
           in case wt of
                (w, None) \<Rightarrow> Some ((s, r\<lparr>world := w\<rparr>), Inr Pending)
              | (w, Some ms) \<Rightarrow>
                  Option.bind (Stream_wait K pending ms s (r\<lparr>world := w\<rparr>)) (\<lambda>((s, r), q).
                    case q of
                      Inl e \<Rightarrow> Some ((s, r), Inl e)
                    | Inr done \<Rightarrow> if \<not> done then Some ((s, r), Inr Pending)
                                 else group_wait_loop K deadline fences s r)))"

definition CommandGroup_wait :: "'w kernel \<Rightarrow> int \<Rightarrow> CommandGroup \<Rightarrow> Stream \<Rightarrow> 'w rt
    \<Rightarrow> ('w, GroupStatus) outcome option" where
  "CommandGroup_wait K timeout_ms g s r =
     (case require_sealed_for_query g of
        Inl e \<Rightarrow> Some ((s, r), Inl e)
      | Inr u \<Rightarrow>
          (case clock_now K (world r) of (w, now) \<Rightarrow>
            (case cg_stream g of None \<Rightarrow> None | Some p \<Rightarrow>
               group_wait_loop K (if 0 \<le> timeout_ms then Some (now + timeout_ms * 1000000) else None)
                 (cg_fences g) s (r\<lparr>world := w\<rparr>))))"

text \<open>
  \<open>None\<close> in place of the call on a null \<^verbatim>\<open>stream_\<close>: such a group is never sealed, see \<open>group_inv\<close>. (A
  sealed group with no fences does not touch the stream in \<^verbatim>\<open>wait()\<close>; it is bound to one all the same.)
\<close>

section \<open>The aggregate status\<close>

definition group_status :: "fence_heap \<Rightarrow> fence list \<Rightarrow> GroupStatus" where
  "group_status h fs =
     (if list_all (Fence_is_ready h) fs
      then if list_all (\<lambda>f. fs_status (h ! f) = DMA_ACCEL_OK) fs then AllOk else SomeFailed
      else Pending)"

lemma Fence_status_ready: "Fence_is_ready h f \<Longrightarrow> Fence_status h f = Inr (fs_status (h ! f))"
  by (simp add: Fence_status_def Fence_is_ready_def)

lemma query_scan_eq:
  "query_scan h fs (a, b) = (a \<or> \<not> list_all (Fence_is_ready h) fs,
     b \<or> \<not> list_all (\<lambda>f. Fence_is_ready h f \<longrightarrow> fs_status (h ! f) = DMA_ACCEL_OK) fs)"
  by (induction fs arbitrary: a b) (auto simp: Fence_status_ready)

lemma query_scan_status:
  "(case query_scan h fs (False, False) of (any_not_ready, any_failed) \<Rightarrow>
      if any_not_ready then Pending else if any_failed then SomeFailed else AllOk) = group_status h fs"
  by (auto simp: query_scan_eq group_status_def list_all_iff)

lemma wait_scan_None:
  "wait_scan h fs b = (None, c) \<Longrightarrow> list_all (Fence_is_ready h) fs
     \<and> (c \<longleftrightarrow> b \<or> \<not> list_all (\<lambda>f. fs_status (h ! f) = DMA_ACCEL_OK) fs)"
  by (induction fs arbitrary: b) (auto simp: Fence_status_ready split: if_splits)

lemma wait_scan_Some:
  "wait_scan h fs b = (Some f, c) \<Longrightarrow> f \<in> set fs \<and> \<not> Fence_is_ready h f"
  by (induction fs arbitrary: b) (auto split: if_splits)

lemma not_ready_Pending: "f \<in> set fs \<Longrightarrow> \<not> Fence_is_ready h f \<Longrightarrow> group_status h fs = Pending"
  by (auto simp: group_status_def list_all_iff)

text \<open>A group that is sealed is bound to a stream; moving and sealing keep that.\<close>

definition group_inv :: "CommandGroup \<Rightarrow> bool" where
  "group_inv g \<longleftrightarrow> (cg_sealed g \<longrightarrow> cg_stream g \<noteq> None)"

lemma group_wait_loop_sound:
  assumes "group_wait_loop K dl fs s r = Some y"
  shows "rt_le (s, r) (fst y) \<and> (\<forall>st. snd y = Inr st \<longrightarrow> st = group_status (heap (snd (fst y))) fs)"
proof (rule group_wait_loop.raw_induct [of "\<lambda>K dl fs s r y. rt_le (s, r) (fst y)
    \<and> (\<forall>st. snd y = Inr st \<longrightarrow> st = group_status (heap (snd (fst y))) fs)", OF _ assms], goal_cases)
  case (1 rec K dl fs s r y)
  obtain po af where sc: "wait_scan (heap r) fs False = (po, af)" by fastforce
  show ?case
  proof (cases po)
    case None
    with 1(2) sc have y: "y = ((s, r), Inr (if af then SomeFailed else AllOk))" by simp
    from wait_scan_None [OF sc [unfolded None]] show ?thesis by (auto simp: y group_status_def)
  next
    case (Some f)
    note f = wait_scan_Some [OF sc [unfolded Some]]
    obtain w t where wt: "(case dl of None \<Rightarrow> (world r, Some (- 1))
        | Some d \<Rightarrow> (case clock_now K (world r) of
            (w, now) \<Rightarrow> (w, if d - now \<le> 0 then None else Some ((d - now) div 1000000)))) = (w, t)"
      by fastforce
    show ?thesis
    proof (cases t)
      case None
      have "y = ((s, r\<lparr>world := w\<rparr>), Inr Pending)" using 1(2) sc Some wt None by auto
      then show ?thesis using f by (auto simp: not_ready_Pending)
    next
      case t: (Some ms)
      with 1(2) sc Some wt obtain s1 r1 x where wa: "Stream_wait K f ms s (r\<lparr>world := w\<rparr>) = Some ((s1, r1), x)"
        by (auto split: Option.bind_splits)
      note le = Stream_wait_le [OF wa]
      have le1: "rt_le (s, r) (s1, r1)" using le by simp
      show ?thesis
      proof (cases x)
        case (Inl e)
        with 1(2) sc Some wt t wa le1 show ?thesis by auto
      next
        case (Inr b)
        show ?thesis
        proof (cases b)
          case False
          have y: "y = ((s1, r1), Inr Pending)" using 1(2) sc Some wt t wa Inr False by auto
          have "\<not> Fence_is_ready (heap r1) f" using le Inr False by (simp add: Fence_is_ready_def)
          then show ?thesis using le1 f by (auto simp: y not_ready_Pending)
        next
          case True
          then have "rec K dl fs s1 r1 = Some y" using 1(2) sc Some wt t wa Inr by auto
          with 1(1) le1 show ?thesis by (blast intro: rt_le_trans)
        qed
      qed
    qed
  qed
qed

section \<open>Waiting for a group ends\<close>

lemma count_if_ready_less:
  assumes "heap_le h h'" and "set fs \<subseteq> {..<length h}" and "f \<in> set fs" and "\<not> fs_ready (h ! f)" and "fs_ready (h' ! f)"
  shows "count_if (\<lambda>f. \<not> fs_ready (h' ! f)) fs < count_if (\<lambda>f. \<not> fs_ready (h ! f)) fs"
  using assms(2,3)
proof (induction fs)
  case (Cons g gs)
  have le: "count_if (\<lambda>f. \<not> fs_ready (h' ! f)) gs \<le> count_if (\<lambda>f. \<not> fs_ready (h ! f)) gs"
    using assms(1) Cons.prems(1) by (intro count_if_mono) (auto simp: heap_le_def)
  show ?case
  proof (cases "g = f")
    case True
    with le assms(4,5) show ?thesis by (simp add: less_Suc_eq_le)
  next
    case False
    with Cons have "count_if (\<lambda>f. \<not> fs_ready (h' ! f)) gs < count_if (\<lambda>f. \<not> fs_ready (h ! f)) gs" by simp
    moreover have "fs_ready (h ! g) \<Longrightarrow> fs_ready (h' ! g)" using assms(1) Cons.prems(1) by (simp add: heap_le_def)
    ultimately show ?thesis by auto
  qed
qed simp

section \<open>Properties of a group\<close>

text \<open>
  C28: the aggregate status is the truth, and only a sealed group has one. Whatever \<^verbatim>\<open>query()\<close> or
  \<^verbatim>\<open>wait()\<close> returns is the status of the group's fences at that moment: \<^verbatim>\<open>Pending\<close> if one is not
  ready, otherwise \<^verbatim>\<open>SomeFailed\<close> or \<^verbatim>\<open>AllOk\<close> by the statuses; and the stream's bookkeeping stays
  consistent. Before \<^verbatim>\<open>seal()\<close>, and on a group that was moved from, both throw without touching the
  stream; after it \<^verbatim>\<open>add()\<close> throws and leaves the group as it is.
\<close>

theorem group_status_sound:
  assumes "stream_inv s (heap r)"
  shows "(CommandGroup_query K g s r = Some ((s', r'), Inr st) \<longrightarrow>
            st = group_status (heap r') (cg_fences g) \<and> stream_inv s' (heap r') \<and> cg_sealed g)
     \<and> (CommandGroup_wait K t g s r = Some ((s', r'), Inr st) \<longrightarrow>
            st = group_status (heap r') (cg_fences g) \<and> stream_inv s' (heap r') \<and> cg_sealed g)
     \<and> (\<not> cg_sealed g \<longrightarrow> (\<exists>m. CommandGroup_query K g s r = Some ((s, r), Inl (LogicError m))
            \<and> CommandGroup_wait K t g s r = Some ((s, r), Inl (LogicError m))))
     \<and> \<not> cg_sealed (snd (CommandGroup_move g)) \<and> fst (CommandGroup_move g) = g
     \<and> (cg_sealed g \<longrightarrow> (\<exists>m. CommandGroup_add f g = (g, Inl (LogicError m))))"
proof (intro conjI impI)
  assume q: "CommandGroup_query K g s r = Some ((s', r'), Inr st)"
  then have sealed: "cg_sealed g" by (auto simp: CommandGroup_query_def require_sealed_for_query_def split: if_splits)
  with q obtain s1 r1 x where p: "Stream_pump K s r = Some ((s1, r1), x)"
    by (auto simp: CommandGroup_query_def require_sealed_for_query_def split: option.splits Option.bind_splits)
  have "st = group_status (heap r') (cg_fences g)" "s' = s1" "r' = r1"
    using q p sealed query_scan_status [of "heap r1" "cg_fences g"]
    by (auto simp: CommandGroup_query_def require_sealed_for_query_def split: option.splits sum.splits prod.splits)
  with sealed pump_le [OF p] rt_le_inv [OF _ assms] show "st = group_status (heap r') (cg_fences g)"
    "stream_inv s' (heap r')" "cg_sealed g" by auto
next
  assume q: "CommandGroup_wait K t g s r = Some ((s', r'), Inr st)"
  then have sealed: "cg_sealed g" by (auto simp: CommandGroup_wait_def require_sealed_for_query_def split: if_splits)
  obtain w now where c: "clock_now K (world r) = (w, now)" by fastforce
  with q sealed have "group_wait_loop K (if 0 \<le> t then Some (now + t * 1000000) else None) (cg_fences g) s
      (r\<lparr>world := w\<rparr>) = Some ((s', r'), Inr st)"
    by (auto simp: CommandGroup_wait_def require_sealed_for_query_def split: option.splits)
  from group_wait_loop_sound [OF this] sealed rt_le_inv [OF _ assms]
  show "st = group_status (heap r') (cg_fences g)" "stream_inv s' (heap r')" "cg_sealed g" by auto
qed (auto simp: CommandGroup_query_def CommandGroup_wait_def require_sealed_for_query_def CommandGroup_move_def
      CommandGroup_add_def)

theorem group_status_sound_witness:
  "CommandGroup_query counting_kernel \<lparr>cg_stream = Some 0, cg_fences = [0], cg_sealed = True\<rparr> empty_stream
     \<lparr>world = 0, heap = [\<lparr>fs_cmd_id = 1, fs_ready = True, fs_status = 4\<rparr>]\<rparr>
     = Some ((empty_stream, \<lparr>world = 0, heap = [\<lparr>fs_cmd_id = 1, fs_ready = True, fs_status = 4\<rparr>]\<rparr>), Inr SomeFailed)
   \<and> group_status [\<lparr>fs_cmd_id = 1, fs_ready = True, fs_status = 4\<rparr>] [0] = SomeFailed"
proof -
  let ?g = "\<lparr>cg_stream = Some 0, cg_fences = [0], cg_sealed = True\<rparr>"
  let ?r = "\<lparr>world = (0 :: u64), heap = [\<lparr>fs_cmd_id = 1, fs_ready = True, fs_status = 4\<rparr>]\<rparr>"
  have run: "CommandGroup_query counting_kernel ?g empty_stream ?r = Some ((empty_stream, ?r), Inr SomeFailed)"
    by (simp add: CommandGroup_query_def require_sealed_for_query_def Stream_pump.simps counting_kernel_def
        Fence_is_ready_def Fence_status_def accel_simps)
  have "stream_inv empty_stream (heap ?r)" by (rule stream_inv_empty)
  from group_status_sound [OF this, of counting_kernel ?g empty_stream ?r SomeFailed] run show ?thesis by simp
qed

end
