(* ===== verification/Command_Batch.thy ===== *)
theory Command_Batch
  imports Command_Group
begin

text \<open>
  \<^verbatim>\<open>CommandBatch\<close> (\<^verbatim>\<open>track-c/runtime/dma_accel_command_batch.hpp/.cpp\<close>): commands collected first and
  dispatched together, with the life cycle OPEN, FROZEN, SUBMITTED.
\<close>

section \<open>State and operations\<close>

record CommandBatch =
  cb_stream :: stream_ptr
  cb_commands :: "command list"
  cb_frozen :: bool
  cb_submitted :: bool

definition CommandBatch_new :: "stream_ptr \<Rightarrow> CommandBatch" where
  "CommandBatch_new p = \<lparr>cb_stream = p, cb_commands = [], cb_frozen = False, cb_submitted = False\<rparr>"

definition push_command :: "string \<Rightarrow> command \<Rightarrow> CommandBatch \<Rightarrow> CommandBatch \<times> (exn + unit)" where
  "push_command what c b =
     (if cb_frozen b then (b, Inl (LogicError (''CommandBatch::'' @ what @ ''() called after freeze()'')))
      else (b\<lparr>cb_commands := cb_commands b @ [c]\<rparr>, Inr ()))"

definition CommandBatch_append :: "u32 \<Rightarrow> buf_ref \<Rightarrow> u32 \<Rightarrow> buf_ref \<Rightarrow> u32 \<Rightarrow> u32 \<Rightarrow> CommandBatch
    \<Rightarrow> CommandBatch \<times> (exn + unit)" where
  "CommandBatch_append opcode src src_offset dst dst_offset len =
     push_command ''append'' (Submit opcode src src_offset dst dst_offset len)"

definition CommandBatch_append_scale_add :: "buf_ref \<Rightarrow> u32 \<Rightarrow> buf_ref \<Rightarrow> u32 \<Rightarrow> buf_ref \<Rightarrow> u32 \<Rightarrow> u32 \<Rightarrow> float_bits
    \<Rightarrow> CommandBatch \<Rightarrow> CommandBatch \<times> (exn + unit)" where
  "CommandBatch_append_scale_add a a_offset b b_offset dst dst_offset len scalar =
     push_command ''append_scale_add'' (SubmitScaleAdd a a_offset b b_offset dst dst_offset len scalar)"

definition CommandBatch_append_tile_matmul :: "buf_ref \<Rightarrow> u32 \<Rightarrow> buf_ref \<Rightarrow> u32 \<Rightarrow> buf_ref \<Rightarrow> u32
    \<Rightarrow> CommandBatch \<Rightarrow> CommandBatch \<times> (exn + unit)" where
  "CommandBatch_append_tile_matmul a a_offset b b_offset c c_offset =
     push_command ''append_tile_matmul'' (SubmitTileMatmul a a_offset b b_offset c c_offset)"

definition CommandBatch_freeze :: "CommandBatch \<Rightarrow> CommandBatch" where
  "CommandBatch_freeze b = b\<lparr>cb_frozen := True\<rparr>"

text \<open>The loop of \<^verbatim>\<open>submit()\<close>: an exception abandons the group built so far.\<close>

primrec batch_loop :: "'w kernel \<Rightarrow> (buf_ref \<Rightarrow> Buffer) \<Rightarrow> command list \<Rightarrow> CommandGroup \<Rightarrow> Stream \<Rightarrow> 'w rt
    \<Rightarrow> ('w, CommandGroup) outcome option" where
  "batch_loop K bufs [] grp s r = Some ((s, r), Inr grp)"
| "batch_loop K bufs (c # cs) grp s r =
     Option.bind (run_command K bufs c s r) (\<lambda>((s, r), q).
       case q of
         Inl e \<Rightarrow> Some ((s, r), Inl e)
       | Inr f \<Rightarrow> (case CommandGroup_add f grp of
                     (grp, Inl e) \<Rightarrow> Some ((s, r), Inl e)
                   | (grp, Inr u) \<Rightarrow> batch_loop K bufs cs grp s r))"

definition CommandBatch_submit :: "'w kernel \<Rightarrow> (buf_ref \<Rightarrow> Buffer) \<Rightarrow> CommandBatch \<Rightarrow> Stream \<Rightarrow> 'w rt
    \<Rightarrow> (CommandBatch \<times> ('w, CommandGroup) outcome) option" where
  "CommandBatch_submit K bufs b s r =
     (if \<not> cb_frozen b
      then Some (b, (s, r), Inl (LogicError ''CommandBatch::submit() called before freeze()''))
      else if cb_submitted b
      then Some (b, (s, r), Inl (LogicError (''CommandBatch::submit() called more than once '' @ em_dash
             @ '' commands from the first call may already be on hardware; refusing to risk double-submission'')))
      else let b = b\<lparr>cb_submitted := True\<rparr> in
        Option.bind (batch_loop K bufs (cb_commands b) (CommandGroup_new (cb_stream b)) s r) (\<lambda>((s, r), q).
          Some (b, (s, r), map_sum id CommandGroup_seal q)))"

section \<open>What a submission returns\<close>

lemma batch_loop_fences:
  assumes "stream_inv s (heap r)" and "\<not> cg_sealed g"
    and "batch_loop K bufs cs g s r = Some ((s', r'), q)"
  shows "stream_inv s' (heap r') \<and> heap_le (heap r) (heap r')
    \<and> (case q of
         Inr g' \<Rightarrow> g' = g\<lparr>cg_fences := cg_fences g @ [length (heap r)..<length (heap r) + length cs]\<rparr>
                  \<and> length (heap r') = length (heap r) + length cs
       | Inl e \<Rightarrow> length (heap r') < length (heap r) + length cs)"
  using assms
proof (induction cs arbitrary: g s r)
  case Nil
  then show ?case by auto
next
  case (Cons c cs)
  obtain s1 r1 x where c: "run_command K bufs c s r = Some ((s1, r1), x)"
    using Cons.prems(3) by (auto split: Option.bind_splits)
  note h = run_command_heap [OF Cons.prems(1) c]
  show ?case
  proof (cases x)
    case (Inl e)
    with Cons.prems(3) c h show ?thesis by auto
  next
    case (Inr f)
    let ?g = "g\<lparr>cg_fences := cg_fences g @ [f]\<rparr>"
    have f: "f = length (heap r)" "length (heap r1) = Suc (length (heap r))" using h(3) Inr by auto
    have "batch_loop K bufs cs ?g s1 r1 = Some ((s', r'), q)"
      using Cons.prems c Inr by (simp add: CommandGroup_add_def)
    note ih = Cons.IH [OF h(1) _ this]
    have "[length (heap r)..<length (heap r) + length (c # cs)]
        = length (heap r) # [length (heap r1)..<length (heap r1) + length cs]"
      using upt_conv_Cons [of "length (heap r)" "length (heap r) + length (c # cs)"] f(2) by (simp del: upt_Suc)
    with ih Cons.prems(2) h(2) f show ?thesis
      by (auto simp del: upt_Suc intro: heap_le_trans split: sum.splits)
  qed
qed


text \<open>A batch of two copies on a kernel that accepts everything.\<close>

definition demo_batch :: CommandBatch where
  "demo_batch = CommandBatch_freeze (fst (CommandBatch_append OPCODE_COPY 0 0 0 64 64
     (fst (CommandBatch_append OPCODE_COPY 0 0 0 64 64 (CommandBatch_new 0)))))"


end
