(* ===== verification/Group_Driver.thy ===== *)
theory Group_Driver
  imports Command_Batch Runtime_Driver
begin

text \<open>
  A command group on the driver: waiting for it without a timeout returns, with the verdict the
  device's completions give.
\<close>

text \<open>From the contract with the descriptor alone: each wait settles one more fence of the group.\<close>

context device_progress
begin

lemma group_wait_loop_returns:
  assumes "ok (world r)" and "st_fd s = fd" and "stream_inv s (heap r)"
    and "\<And>f. f \<in> set fs \<Longrightarrow> finishes f (status f) s r"
  shows "\<exists>s' r'. group_wait_loop K None fs s r
    = Some ((s', r'), Inr (if list_all (\<lambda>f. status f = DMA_ACCEL_OK) fs then AllOk else SomeFailed))"
  using assms
proof (induction "count_if (\<lambda>f. \<not> fs_ready (heap r ! f)) fs" arbitrary: s r rule: less_induct)
  case less
  obtain po af where sc: "wait_scan (heap r) fs False = (po, af)" by fastforce
  show ?case
  proof (cases po)
    case None
    have st: "fs_status (heap r ! f) = status f" if "f \<in> set fs" for f
      using less.prems(4) [OF that] wait_scan_None [OF sc [unfolded None]] that
      by (auto simp: finishes_def will_finish_def list_all_iff Fence_is_ready_def)
    have "af \<longleftrightarrow> \<not> list_all (\<lambda>f. status f = DMA_ACCEL_OK) fs"
      using wait_scan_None [OF sc [unfolded None]] st by (auto simp: list_all_iff)
    with sc None show ?thesis by (simp add: group_wait_loop.simps [of K None fs s r])
  next
    case (Some f)
    note f = wait_scan_Some [OF sc [unfolded Some]]
    have wf: "will_finish f (status f) s r" using less.prems(4) f by (simp add: finishes_def)
    obtain s1 r1 where w: "Stream_wait K f (- 1) s r = Some ((s1, r1), Inr True)" "fs_ready (heap r1 ! f)"
      "ok (world r1)" "st_fd s1 = fd" "stream_inv s1 (heap r1)" "\<And>g st'. finishes g st' s r \<Longrightarrow> finishes g st' s1 r1"
      using wait_returns_all [OF less.prems(1-3) wf, of "- 1"] by auto
    have "heap_le (heap r) (heap r1)" using Stream_wait_le [OF w(1)] by (simp add: rt_le_def)
    then have "count_if (\<lambda>f. \<not> fs_ready (heap r1 ! f)) fs < count_if (\<lambda>f. \<not> fs_ready (heap r ! f)) fs"
      by (rule count_if_ready_less)
         (use f w(2) less.prems(4) in \<open>auto simp: finishes_def will_finish_def Fence_is_ready_def\<close>)
    from less.hyps [OF this w(3-5)] less.prems(4) w(6) have "\<exists>s' r'. group_wait_loop K None fs s1 r1
        = Some ((s', r'), Inr (if list_all (\<lambda>f. status f = DMA_ACCEL_OK) fs then AllOk else SomeFailed))" by blast
    with sc Some w(1) show ?thesis by (simp add: group_wait_loop.simps [of K None fs s r])
  qed
qed

end

text \<open>
  The outcome of a fence is due with status \<open>st\<close>: it is settled and no longer tracked, or it is tracked
  and the first completion for its command, among those the session has not read and those the
  device is going to post, has that status.
\<close>

definition fence_due :: "sess_ptr \<Rightarrow> fence \<Rightarrow> u32 \<Rightarrow> Stream \<Rightarrow> drv_world rt \<Rightarrow> bool" where
  "fence_due p f st s r \<longleftrightarrow> f < length (heap r) \<and>
     (let c = fs_cmd_id (heap r ! f) in
      if fs_ready (heap r ! f) then fs_status (heap r ! f) = st \<and> st_outstanding s c \<noteq> Some f
      else st_outstanding s c = Some f
        \<and> map_option ucomp_status (find (\<lambda>x. ucomp_cmd_id x = c)
             (drv_pending p (world r) @ drv_later (world r))) = Some st)"

lemma fence_due_finishes: "fence_due p f st s r = drv.finishes p f st s r"
  by (auto simp: fence_due_def drv.finishes_def drv.will_finish_def Let_def)

text \<open>
  C29: waiting for a sealed group on the driver ends. If the outcome of every fence of the group is
  due, \<^verbatim>\<open>wait()\<close> without a timeout returns, with \<^verbatim>\<open>AllOk\<close> if all of them are \<^verbatim>\<open>DMA_ACCEL_OK\<close> and with
  \<^verbatim>\<open>SomeFailed\<close> otherwise, never \<^verbatim>\<open>Pending\<close> and with no exception.
\<close>

theorem group_wait_complete:
  assumes "drv_ok p (world r)" and "st_fd s = int p" and "stream_inv s (heap r)" and "cg_sealed g" and "group_inv g"
    and "\<And>f. f \<in> set (cg_fences g) \<Longrightarrow> fence_due p f (status f) s r" and "t < 0"
  shows "\<exists>s' r'. CommandGroup_wait (driver_kernel mem fresh) t g s r
    = Some ((s', r'), Inr (if list_all (\<lambda>f. status f = DMA_ACCEL_OK) (cg_fences g) then AllOk else SomeFailed))"
proof -
  let ?K = "driver_kernel mem fresh"
  obtain w now where c: "clock_now ?K (world r) = (w, now)" "drv_ok p w" "drv_pending p w = drv_pending p (world r)"
    "drv_later w = drv_later (world r)" using drv.clock_still [OF assms(1)] by blast
  have "fence_due p f (status f) s (r\<lparr>world := w\<rparr>)" if "f \<in> set (cg_fences g)" for f
    using assms(6) [OF that] c(3,4) by (simp only: fence_due_finishes drv.finishes_world)
  then have "\<exists>s' r'. group_wait_loop ?K None (cg_fences g) s (r\<lparr>world := w\<rparr>)
      = Some ((s', r'), Inr (if list_all (\<lambda>f. status f = DMA_ACCEL_OK) (cg_fences g) then AllOk else SomeFailed))"
    using assms(2,3) c(2) by (intro drv.group_wait_loop_returns [where p = p]) (simp_all flip: fence_due_finishes)
  moreover obtain q where "cg_stream g = Some q" using assms(4,5) by (auto simp: group_inv_def)
  ultimately show ?thesis
    using assms(4,7) c(1) by (simp add: CommandGroup_wait_def require_sealed_for_query_def)
qed

theorem group_wait_complete_witness:
  "\<exists>s' r'. CommandGroup_wait (driver_kernel None None) (- 1) \<lparr>cg_stream = Some 0, cg_fences = [0], cg_sealed = True\<rparr>
     \<lparr>st_fd = 1, st_outstanding = [2 \<mapsto> 0], st_order = [0]\<rparr>
     \<lparr>world = start_world (run_setup @ run_submit 0) [\<lparr>comp_cmd_id = 2, comp_status = 4, comp_reserved = 0\<rparr>],
      heap = [\<lparr>fs_cmd_id = 2, fs_ready = False, fs_status = 0\<rparr>]\<rparr> = Some ((s', r'), Inr SomeFailed)"
proof -
  let ?c = "\<lparr>comp_cmd_id = 2, comp_status = 4, comp_reserved = 0\<rparr>"
  let ?w = "start_world (run_setup @ run_submit 0) [?c]"
  let ?g = "\<lparr>cg_stream = Some 0, cg_fences = [0], cg_sealed = True\<rparr>"
  let ?s = "\<lparr>st_fd = 1, st_outstanding = [2 \<mapsto> 0], st_order = [0]\<rparr>"
  let ?r = "\<lparr>world = ?w, heap = [\<lparr>fs_cmd_id = 2, fs_ready = False, fs_status = 0\<rparr>]\<rparr>"
  let ?x = "the (sessions (dk ?w) 1)"
  have x: "sessions (dk ?w) 1 = Some ?x" by (rule is_some_the) code_simp
  have u: "unread ?x = []" "wf_session ?x" "table_ids_ok (kdev (dk ?w))" "script_ok 1 [?c] (kdev (dk ?w))"
    by code_simp+
  have sc: "dscript ?w = [?c]" by (simp add: start_world_def)
  have ok: "drv_ok 1 (world ?r)" using x u sc by (auto intro!: drv_okI simp: accel_simps)
  have none: "drv_pending 1 ?w = []" using u(1) by (auto simp: drv_pending_def split: option.split)
  have due: "fence_due 1 0 4 ?s ?r" using none by (simp add: fence_due_def Let_def drv_later_def sc to_uapi_def)
  have inv: "stream_inv ?s (heap ?r)" by (simp add: stream_inv_def accel_simps)
  have "\<exists>s' r'. CommandGroup_wait (driver_kernel None None) (- 1) ?g ?s ?r
    = Some ((s', r'), Inr (if list_all (\<lambda>f. (4 :: u32) = DMA_ACCEL_OK) (cg_fences ?g) then AllOk else SomeFailed))"
    by (rule group_wait_complete [where p = 1 and status = "\<lambda>_. 4"])
       (use ok inv due in \<open>simp_all add: group_inv_def\<close>)
  then show ?thesis by (simp add: accel_simps)
qed

end
