(* ===== verification/Dependency.thy ===== *)
theory Dependency
  imports Command_Group
begin

text \<open>
  \<^verbatim>\<open>PendingCommand\<close> and \<^verbatim>\<open>DependencyEngine\<close> (\<^verbatim>\<open>track-c/runtime/dma_accel_dependency.hpp/.cpp\<close>): commands that
  are submitted once what they depend on has completed well.

  A \<^verbatim>\<open>shared_ptr<PendingCommandState>\<close> is an index into a heap of command states, and a
  \<^verbatim>\<open>const CommandGroup *\<close> a reference that \<open>groups\<close> resolves, the caller's groups at the time of the
  call.
\<close>

section \<open>State\<close>

type_synonym pcmd = nat
type_synonym group_ref = nat

record PendingCommandState =
  pd_submit_fn :: command
  pd_fence_deps :: "fence list"
  pd_group_deps :: "group_ref list"
  pd_pending_deps :: "pcmd list"
  pd_fence :: "fence option"
  pd_submitted :: bool
  pd_blocked :: bool

type_synonym pcmd_heap = "PendingCommandState list"

record DependencyEngine =
  de_stream :: stream_ptr
  de_registry :: "pcmd list"

section \<open>Adding dependencies\<close>

text \<open>
  The search of \<^verbatim>\<open>reachable()\<close>: \<open>reach_any\<close> is its loop over \<^verbatim>\<open>pending_deps\<close> with the recursive call
  inlined. On a cyclic graph it need not return.
\<close>

partial_function (option) reach_any :: "pcmd_heap \<Rightarrow> pcmd \<Rightarrow> pcmd list \<Rightarrow> bool option" where
  "reach_any ph target ds =
     (case ds of
        [] \<Rightarrow> Some False
      | d # ds \<Rightarrow>
          if d = target then Some True
          else Option.bind (reach_any ph target (pd_pending_deps (ph ! d))) (\<lambda>b.
            if b then Some True else reach_any ph target ds))"

declare reach_any.simps [code]

definition pc_reachable :: "pcmd_heap \<Rightarrow> pcmd \<Rightarrow> pcmd \<Rightarrow> bool option" where
  "pc_reachable ph from target =
     (if from = target then Some True else reach_any ph target (pd_pending_deps (ph ! from)))"

definition depends_on_fence :: "pcmd \<Rightarrow> fence \<Rightarrow> pcmd_heap \<Rightarrow> pcmd_heap \<times> (exn + unit)" where
  "depends_on_fence c fence ph =
     (if pd_submitted (ph ! c)
      then (ph, Inl (LogicError (''PendingCommand::depends_on() called after this command was already submitted ''
              @ em_dash @ '' dependencies only make sense before submission'')))
      else (ph[c := (ph ! c)\<lparr>pd_fence_deps := pd_fence_deps (ph ! c) @ [fence]\<rparr>], Inr ()))"

definition depends_on_group :: "pcmd \<Rightarrow> group_ref \<Rightarrow> pcmd_heap \<Rightarrow> pcmd_heap \<times> (exn + unit)" where
  "depends_on_group c g ph =
     (if pd_submitted (ph ! c)
      then (ph, Inl (LogicError ''PendingCommand::depends_on() called after this command was already submitted''))
      else (ph[c := (ph ! c)\<lparr>pd_group_deps := pd_group_deps (ph ! c) @ [g]\<rparr>], Inr ()))"

definition depends_on_pending :: "pcmd \<Rightarrow> pcmd \<Rightarrow> pcmd_heap \<Rightarrow> (pcmd_heap \<times> (exn + unit)) option" where
  "depends_on_pending c other ph =
     (if pd_submitted (ph ! c)
      then Some (ph, Inl (LogicError ''PendingCommand::depends_on() called after this command was already submitted''))
      else Option.bind (pc_reachable ph other c) (\<lambda>b.
        if b
        then Some (ph, Inl (LogicError (''depends_on() rejected: this edge would create a dependency cycle ''
               @ ''(target is already reachable from the given dependency, including ''
               @ ''the self-dependency case)'')))
        else Some (ph[c := (ph ! c)\<lparr>pd_pending_deps := pd_pending_deps (ph ! c) @ [other]\<rparr>], Inr ())))"

definition PendingCommand_fence :: "pcmd \<Rightarrow> pcmd_heap \<Rightarrow> exn + fence" where
  "PendingCommand_fence c ph =
     (if \<not> pd_submitted (ph ! c)
      then Inl (LogicError ''PendingCommand::fence() called before it has been submitted'')
      else Inr (the (pd_fence (ph ! c))))"

section \<open>Registering commands\<close>

definition register :: "command \<Rightarrow> DependencyEngine \<times> pcmd_heap \<Rightarrow> (DependencyEngine \<times> pcmd_heap) \<times> pcmd" where
  "register fn ep =
     (case ep of (e, ph) \<Rightarrow>
        (let st = \<lparr>pd_submit_fn = fn, pd_fence_deps = [], pd_group_deps = [], pd_pending_deps = [], pd_fence = None,
                   pd_submitted = False, pd_blocked = False\<rparr>
         in ((e\<lparr>de_registry := de_registry e @ [length ph]\<rparr>, ph @ [st]), length ph)))"

definition defer_submit :: "u32 \<Rightarrow> buf_ref \<Rightarrow> u32 \<Rightarrow> buf_ref \<Rightarrow> u32 \<Rightarrow> u32
    \<Rightarrow> DependencyEngine \<times> pcmd_heap \<Rightarrow> (DependencyEngine \<times> pcmd_heap) \<times> pcmd" where
  "defer_submit opcode src src_offset dst dst_offset len = register (Submit opcode src src_offset dst dst_offset len)"

definition defer_submit_scale_add :: "buf_ref \<Rightarrow> u32 \<Rightarrow> buf_ref \<Rightarrow> u32 \<Rightarrow> buf_ref \<Rightarrow> u32 \<Rightarrow> u32 \<Rightarrow> float_bits
    \<Rightarrow> DependencyEngine \<times> pcmd_heap \<Rightarrow> (DependencyEngine \<times> pcmd_heap) \<times> pcmd" where
  "defer_submit_scale_add a a_offset b b_offset dst dst_offset len scalar =
     register (SubmitScaleAdd a a_offset b b_offset dst dst_offset len scalar)"

definition defer_submit_tile_matmul :: "buf_ref \<Rightarrow> u32 \<Rightarrow> buf_ref \<Rightarrow> u32 \<Rightarrow> buf_ref \<Rightarrow> u32
    \<Rightarrow> DependencyEngine \<times> pcmd_heap \<Rightarrow> (DependencyEngine \<times> pcmd_heap) \<times> pcmd" where
  "defer_submit_tile_matmul a a_offset b b_offset c c_offset = register (SubmitTileMatmul a a_offset b b_offset c c_offset)"

section \<open>Progress\<close>

text \<open>The three dependency scans; the result is the pair \<^verbatim>\<open>any_pending\<close>, \<^verbatim>\<open>any_failed\<close>.\<close>

primrec scan_fences :: "fence_heap \<Rightarrow> fence list \<Rightarrow> bool \<times> bool" where
  "scan_fences h [] = (False, False)"
| "scan_fences h (f # fs) =
     (if \<not> Fence_is_ready h f then (True, False)
      else if Fence_status h f \<noteq> Inr DMA_ACCEL_OK then (False, True)
      else scan_fences h fs)"

primrec scan_groups :: "fence_heap \<Rightarrow> (group_ref \<Rightarrow> CommandGroup) \<Rightarrow> group_ref list \<Rightarrow> bool \<times> bool" where
  "scan_groups h groups [] = (False, False)"
| "scan_groups h groups (g # gs) =
     (case scan_fences h (cg_fences (groups g)) of
        (any_pending, any_failed) \<Rightarrow>
          if any_pending \<or> any_failed then (any_pending, any_failed) else scan_groups h groups gs)"

primrec scan_pending :: "fence_heap \<Rightarrow> pcmd_heap \<Rightarrow> pcmd list \<Rightarrow> bool \<times> bool" where
  "scan_pending h ph [] = (False, False)"
| "scan_pending h ph (d # ds) =
     (if pd_blocked (ph ! d) then (False, True)
      else if \<not> pd_submitted (ph ! d) then (True, False)
      else if \<not> Fence_is_ready h (the (pd_fence (ph ! d))) then (True, False)
      else if Fence_status h (the (pd_fence (ph ! d))) \<noteq> Inr DMA_ACCEL_OK then (False, True)
      else scan_pending h ph ds)"

definition eval_deps :: "fence_heap \<Rightarrow> (group_ref \<Rightarrow> CommandGroup) \<Rightarrow> pcmd_heap \<Rightarrow> PendingCommandState \<Rightarrow> bool \<times> bool" where
  "eval_deps h groups ph st =
     (let x = scan_fences h (pd_fence_deps st);
          x = (if \<not> fst x \<and> \<not> snd x then scan_groups h groups (pd_group_deps st) else x)
      in if \<not> fst x \<and> \<not> snd x then scan_pending h ph (pd_pending_deps st) else x)"

text \<open>The body of the loop over the registry; an exception of \<^verbatim>\<open>submit_fn()\<close> leaves the command unsubmitted.\<close>

definition progress_one :: "'w kernel \<Rightarrow> (buf_ref \<Rightarrow> Buffer) \<Rightarrow> (group_ref \<Rightarrow> CommandGroup) \<Rightarrow> pcmd \<Rightarrow> pcmd_heap \<Rightarrow> Stream
    \<Rightarrow> 'w rt \<Rightarrow> (pcmd_heap \<times> ('w, unit) outcome) option" where
  "progress_one K bufs groups i ph s r =
     (let st = ph ! i in
      if pd_submitted st \<or> pd_blocked st then Some (ph, (s, r), Inr ())
      else case eval_deps (heap r) groups ph st of
        (any_pending, any_failed) \<Rightarrow>
          if any_failed then Some (ph[i := st\<lparr>pd_blocked := True\<rparr>], (s, r), Inr ())
          else if any_pending then Some (ph, (s, r), Inr ())
          else Option.bind (run_command K bufs (pd_submit_fn st) s r) (\<lambda>((s, r), q).
            case q of
              Inl e \<Rightarrow> Some (ph, (s, r), Inl e)
            | Inr f \<Rightarrow> Some (ph[i := st\<lparr>pd_fence := Some f, pd_submitted := True\<rparr>], (s, r), Inr ())))"

primrec progress_loop :: "'w kernel \<Rightarrow> (buf_ref \<Rightarrow> Buffer) \<Rightarrow> (group_ref \<Rightarrow> CommandGroup) \<Rightarrow> pcmd list \<Rightarrow> pcmd_heap \<Rightarrow> Stream
    \<Rightarrow> 'w rt \<Rightarrow> (pcmd_heap \<times> ('w, unit) outcome) option" where
  "progress_loop K bufs groups [] ph s r = Some (ph, (s, r), Inr ())"
| "progress_loop K bufs groups (i # is) ph s r =
     Option.bind (progress_one K bufs groups i ph s r) (\<lambda>(ph, (s, r), q).
       case q of Inl e \<Rightarrow> Some (ph, (s, r), Inl e) | Inr u \<Rightarrow> progress_loop K bufs groups is ph s r)"

definition progress :: "'w kernel \<Rightarrow> (buf_ref \<Rightarrow> Buffer) \<Rightarrow> (group_ref \<Rightarrow> CommandGroup) \<Rightarrow> DependencyEngine \<Rightarrow> pcmd_heap
    \<Rightarrow> Stream \<Rightarrow> 'w rt \<Rightarrow> (pcmd_heap \<times> ('w, unit) outcome) option" where
  "progress K bufs groups e ph s r =
     Option.bind (Stream_pump K s r) (\<lambda>((s, r), q).
       case q of
         Inl x \<Rightarrow> Some (ph, (s, r), Inl x)
       | Inr u \<Rightarrow> progress_loop K bufs groups (de_registry e) ph s r)"

section \<open>The dependency graph stays acyclic\<close>

definition dep_edges :: "pcmd_heap \<Rightarrow> (pcmd \<times> pcmd) set" where
  "dep_edges ph = {(x, y). x < length ph \<and> y \<in> set (pd_pending_deps (ph ! x))}"

definition dag_inv :: "pcmd_heap \<Rightarrow> bool" where
  "dag_inv ph \<longleftrightarrow> dep_edges ph \<subseteq> {..<length ph} \<times> {..<length ph} \<and> acyclic (dep_edges ph)"

lemma dag_inv_wf: "dag_inv ph \<Longrightarrow> wf ((dep_edges ph)\<inverse>)"
  unfolding dag_inv_def
  by (intro finite_acyclic_wf_converse) (auto intro: finite_subset)

lemma reach_step:
  assumes "d < length ph"
  shows "(d, target) \<in> (dep_edges ph)\<^sup>* \<longleftrightarrow>
    d = target \<or> (\<exists>d' \<in> set (pd_pending_deps (ph ! d)). (d', target) \<in> (dep_edges ph)\<^sup>*)"
proof -
  have "(d, target) \<in> (dep_edges ph)\<^sup>* \<longleftrightarrow> d = target \<or> (\<exists>d'. (d, d') \<in> dep_edges ph \<and> (d', target) \<in> (dep_edges ph)\<^sup>*)"
    by (metis converse_rtranclE converse_rtrancl_into_rtrancl rtrancl.rtrancl_refl)
  with assms show ?thesis by (auto simp: dep_edges_def)
qed

text \<open>On an acyclic graph the search returns, and says whether the target is reachable.\<close>

lemma reach_any_list:
  assumes "\<And>d. d \<in> set ds \<Longrightarrow> d < length ph"
    and "\<And>d. d \<in> set ds \<Longrightarrow> reach_any ph target (pd_pending_deps (ph ! d))
           = Some (\<exists>d' \<in> set (pd_pending_deps (ph ! d)). (d', target) \<in> (dep_edges ph)\<^sup>*)"
  shows "reach_any ph target ds = Some (\<exists>d \<in> set ds. (d, target) \<in> (dep_edges ph)\<^sup>*)"
  using assms
proof (induction ds)
  case Nil
  show ?case by (simp add: reach_any.simps)
next
  case (Cons d ds)
  with reach_step [of d ph target] show ?case by (simp add: reach_any.simps [of ph target "d # ds"])
qed

lemma reach_any_returns:
  assumes "dag_inv ph" and "x < length ph"
  shows "reach_any ph target (pd_pending_deps (ph ! x))
    = Some (\<exists>d \<in> set (pd_pending_deps (ph ! x)). (d, target) \<in> (dep_edges ph)\<^sup>*)"
  using assms(2)
proof (induction x rule: wf_induct_rule [OF dag_inv_wf [OF assms(1)]])
  case (1 x)
  have e: "(x, d) \<in> dep_edges ph" if "d \<in> set (pd_pending_deps (ph ! x))" for d
    using that 1(2) by (simp add: dep_edges_def)
  have d: "d < length ph" if "d \<in> set (pd_pending_deps (ph ! x))" for d
    using e [OF that] assms(1) by (auto simp: dag_inv_def)
  show ?case
  proof (rule reach_any_list)
    fix d assume m: "d \<in> set (pd_pending_deps (ph ! x))"
    show "d < length ph" by (rule d [OF m])
    show "reach_any ph target (pd_pending_deps (ph ! d))
        = Some (\<exists>d' \<in> set (pd_pending_deps (ph ! d)). (d', target) \<in> (dep_edges ph)\<^sup>*)"
      by (rule 1(1)) (use e [OF m] d [OF m] in simp_all)
  qed
qed

lemma pc_reachable_iff:
  assumes "dag_inv ph" and "from < length ph"
  shows "pc_reachable ph from target = Some ((from, target) \<in> (dep_edges ph)\<^sup>*)"
  using reach_any_returns [OF assms] reach_step [OF assms(2)] by (simp add: pc_reachable_def)

lemma dep_edges_add:
  "c < length ph \<Longrightarrow> dep_edges (ph[c := (ph ! c)\<lparr>pd_pending_deps := pd_pending_deps (ph ! c) @ [d]\<rparr>])
     = insert (c, d) (dep_edges ph)"
  by (auto simp: dep_edges_def nth_update_if split: if_splits)

lemma dep_edges_same:
  "pd_pending_deps st = pd_pending_deps (ph ! c) \<Longrightarrow> dep_edges (ph[c := st]) = dep_edges ph"
  by (auto simp: dep_edges_def nth_update_if split: if_splits)

lemma dep_edges_register: "dep_edges (ph @ [st\<lparr>pd_pending_deps := []\<rparr>]) = dep_edges ph"
  by (auto simp: dep_edges_def nth_append split: if_splits)

text \<open>
  C31: the dependency graph between deferred commands never has a cycle. On an acyclic graph
  \<^verbatim>\<open>depends_on()\<close> returns; it throws, changing nothing, exactly when the command is already submitted or
  the new edge would close a cycle, the self-dependency included, and otherwise adds that edge;
  the other two \<^verbatim>\<open>depends_on()\<close> and the registration of a command keep the graph acyclic as well.
\<close>

theorem dependency_graph_acyclic:
  assumes inv: "dag_inv ph" and c: "c < length ph" and d: "other < length ph"
  shows "(\<exists>ph' q. depends_on_pending c other ph = Some (ph', q) \<and> dag_inv ph'
           \<and> (case q of
                Inl e \<Rightarrow> ph' = ph \<and> (pd_submitted (ph ! c) \<or> \<not> acyclic (insert (c, other) (dep_edges ph)))
              | Inr u \<Rightarrow> \<not> pd_submitted (ph ! c) \<and> dep_edges ph' = insert (c, other) (dep_edges ph)))
     \<and> dag_inv (fst (depends_on_fence c f ph)) \<and> dag_inv (fst (depends_on_group c g ph))
     \<and> dag_inv (snd (fst (register fn (e, ph))))"
proof (intro conjI)
  have sub: "dep_edges ph \<subseteq> {..<length ph} \<times> {..<length ph}" and ac: "acyclic (dep_edges ph)"
    using inv by (simp_all add: dag_inv_def)
  show "dag_inv (fst (depends_on_fence c f ph))" "dag_inv (fst (depends_on_group c g ph))"
    using inv by (simp_all add: depends_on_fence_def depends_on_group_def dag_inv_def dep_edges_same)
  have "\<exists>st. snd (fst (register fn (e, ph))) = ph @ [st\<lparr>pd_pending_deps := []\<rparr>]"
    by (auto simp: register_def Let_def intro!: exI [of _ "\<lparr>pd_submit_fn = fn, pd_fence_deps = [], pd_group_deps = [],
        pd_pending_deps = [], pd_fence = None, pd_submitted = False, pd_blocked = False\<rparr>"])
  then show "dag_inv (snd (fst (register fn (e, ph))))"
    using sub ac by (auto simp: dag_inv_def dep_edges_register)
  have cyc: "acyclic (insert (c, other) (dep_edges ph)) \<longleftrightarrow> (other, c) \<notin> (dep_edges ph)\<^sup>*"
    using ac by (simp add: acyclic_insert)
  show "\<exists>ph' q. depends_on_pending c other ph = Some (ph', q) \<and> dag_inv ph'
      \<and> (case q of
           Inl e \<Rightarrow> ph' = ph \<and> (pd_submitted (ph ! c) \<or> \<not> acyclic (insert (c, other) (dep_edges ph)))
         | Inr u \<Rightarrow> \<not> pd_submitted (ph ! c) \<and> dep_edges ph' = insert (c, other) (dep_edges ph))"
  proof (cases "pd_submitted (ph ! c) \<or> (other, c) \<in> (dep_edges ph)\<^sup>*")
    case True
    then show ?thesis using inv cyc by (auto simp: depends_on_pending_def pc_reachable_iff [OF inv d])
  next
    case False
    let ?ph = "ph[c := (ph ! c)\<lparr>pd_pending_deps := pd_pending_deps (ph ! c) @ [other]\<rparr>]"
    have "dag_inv ?ph" using sub ac cyc False c d by (simp add: dag_inv_def dep_edges_add)
    then show ?thesis using False by (simp add: depends_on_pending_def pc_reachable_iff [OF inv d] dep_edges_add [OF c])
  qed
qed

text \<open>Two commands, the second depending on the first.\<close>

definition demo_pending :: "pcmd list \<Rightarrow> PendingCommandState" where
  "demo_pending ds = \<lparr>pd_submit_fn = Submit OPCODE_COPY 0 0 0 64 64, pd_fence_deps = [], pd_group_deps = [],
     pd_pending_deps = ds, pd_fence = None, pd_submitted = False, pd_blocked = False\<rparr>"

lemma demo_dag: "dag_inv [demo_pending [], demo_pending [0]]"
proof -
  have "dep_edges [demo_pending [], demo_pending [0]] = {(1, 0)}"
    by (auto simp: dep_edges_def demo_pending_def less_Suc_eq)
  then show ?thesis by (simp add: dag_inv_def acyclic_def trancl_insert)
qed

theorem dependency_graph_acyclic_witness:
  "\<exists>m. depends_on_pending 0 1 [demo_pending [], demo_pending [0]]
     = Some ([demo_pending [], demo_pending [0]], Inl (LogicError m))"
proof -
  let ?ph = "[demo_pending [], demo_pending [0]]"
  have "case depends_on_pending 0 1 ?ph of Some (ph', Inl (LogicError m)) \<Rightarrow> True | _ \<Rightarrow> False"
    by code_simp
  then obtain ph' m where run: "depends_on_pending 0 1 ?ph = Some (ph', Inl (LogicError m))"
    by (auto split: option.splits prod.splits sum.splits exn.splits)
  with dependency_graph_acyclic [OF demo_dag, of 0 1] show ?thesis by simp
qed

section \<open>What a command waits for\<close>

definition fence_ok :: "fence_heap \<Rightarrow> fence \<Rightarrow> bool" where
  "fence_ok h f \<longleftrightarrow> fs_ready (h ! f) \<and> fs_status (h ! f) = DMA_ACCEL_OK"

definition fence_failed :: "fence_heap \<Rightarrow> fence \<Rightarrow> bool" where
  "fence_failed h f \<longleftrightarrow> fs_ready (h ! f) \<and> fs_status (h ! f) \<noteq> DMA_ACCEL_OK"

text \<open>The fences a command waits for directly: its own and those of its groups.\<close>

definition direct_fences :: "(group_ref \<Rightarrow> CommandGroup) \<Rightarrow> PendingCommandState \<Rightarrow> fence list" where
  "direct_fences groups st = pd_fence_deps st @ concat (map (\<lambda>g. cg_fences (groups g)) (pd_group_deps st))"

definition deps_done :: "fence_heap \<Rightarrow> (group_ref \<Rightarrow> CommandGroup) \<Rightarrow> pcmd_heap \<Rightarrow> PendingCommandState \<Rightarrow> bool" where
  "deps_done h groups ph st \<longleftrightarrow> (\<forall>f \<in> set (direct_fences groups st). fence_ok h f)
     \<and> (\<forall>d \<in> set (pd_pending_deps st). \<not> pd_blocked (ph ! d) \<and> pd_submitted (ph ! d) \<and> fence_ok h (the (pd_fence (ph ! d))))"

definition dep_failed :: "fence_heap \<Rightarrow> (group_ref \<Rightarrow> CommandGroup) \<Rightarrow> pcmd_heap \<Rightarrow> PendingCommandState \<Rightarrow> bool" where
  "dep_failed h groups ph st \<longleftrightarrow> (\<exists>f \<in> set (direct_fences groups st). fence_failed h f)
     \<or> (\<exists>d \<in> set (pd_pending_deps st). pd_blocked (ph ! d)
          \<or> pd_submitted (ph ! d) \<and> fence_failed h (the (pd_fence (ph ! d))))"

lemma scan_fences_ok: "scan_fences h fs = (False, False) \<longleftrightarrow> (\<forall>f \<in> set fs. fence_ok h f)"
  by (induction fs) (auto simp: fence_ok_def Fence_status_ready Fence_is_ready_def)

lemma scan_fences_failed: "snd (scan_fences h fs) \<Longrightarrow> \<exists>f \<in> set fs. fence_failed h f"
  by (induction fs) (auto simp: fence_failed_def Fence_status_ready Fence_is_ready_def split: if_splits)

lemma scan_fences_append:
  "scan_fences h (xs @ ys) = (case scan_fences h xs of (p, e) \<Rightarrow> if p \<or> e then (p, e) else scan_fences h ys)"
  by (induction xs) auto

lemma scan_groups_fences:
  "scan_groups h groups gs = scan_fences h (concat (map (\<lambda>g. cg_fences (groups g)) gs))"
  by (induction gs) (auto simp: scan_fences_append split: prod.splits)

lemma scan_direct:
  "eval_deps h groups ph st =
     (case scan_fences h (direct_fences groups st) of (p, e) \<Rightarrow>
        if p \<or> e then (p, e) else scan_pending h ph (pd_pending_deps st))"
  by (auto simp: eval_deps_def Let_def direct_fences_def scan_groups_fences scan_fences_append split: prod.splits)

lemma scan_pending_ok: "scan_pending h ph ds = (False, False) \<longleftrightarrow>
    (\<forall>d \<in> set ds. \<not> pd_blocked (ph ! d) \<and> pd_submitted (ph ! d) \<and> fence_ok h (the (pd_fence (ph ! d))))"
  by (induction ds) (auto simp: fence_ok_def Fence_status_ready Fence_is_ready_def)

lemma scan_pending_failed: "snd (scan_pending h ph ds) \<Longrightarrow>
    \<exists>d \<in> set ds. pd_blocked (ph ! d) \<or> pd_submitted (ph ! d) \<and> fence_failed h (the (pd_fence (ph ! d)))"
  by (induction ds) (auto simp: fence_failed_def Fence_status_ready Fence_is_ready_def split: if_splits)

lemma eval_deps_done: "eval_deps h groups ph st = (False, False) \<longleftrightarrow> deps_done h groups ph st"
  using scan_fences_ok [of h "direct_fences groups st"] scan_pending_ok [of h ph "pd_pending_deps st"]
  by (cases "scan_fences h (direct_fences groups st)") (auto simp: scan_direct deps_done_def)

lemma eval_deps_failed: "snd (eval_deps h groups ph st) \<Longrightarrow> dep_failed h groups ph st"
  using scan_fences_failed [of h "direct_fences groups st"] scan_pending_failed [of h ph "pd_pending_deps st"]
  by (cases "scan_fences h (direct_fences groups st)") (auto simp: scan_direct dep_failed_def split: if_splits)

text \<open>
  A command is \<open>resolved\<close> when the outcome of everything it waits for is known: then the scans find
  nothing pending.
\<close>

definition settled :: "PendingCommandState \<Rightarrow> bool" where
  "settled st \<longleftrightarrow> pd_submitted st \<or> pd_blocked st"

definition resolved :: "fence_heap \<Rightarrow> (group_ref \<Rightarrow> CommandGroup) \<Rightarrow> pcmd_heap \<Rightarrow> PendingCommandState \<Rightarrow> bool" where
  "resolved h groups ph st \<longleftrightarrow> (\<forall>f \<in> set (direct_fences groups st). fs_ready (h ! f))
     \<and> (\<forall>d \<in> set (pd_pending_deps st). pd_blocked (ph ! d)
          \<or> pd_submitted (ph ! d) \<and> fs_ready (h ! the (pd_fence (ph ! d))))"

lemma scan_fences_resolved: "\<forall>f \<in> set fs. fs_ready (h ! f) \<Longrightarrow> \<not> fst (scan_fences h fs)"
  by (induction fs) (auto simp: Fence_is_ready_def)

lemma scan_pending_resolved:
  "\<forall>d \<in> set ds. pd_blocked (ph ! d) \<or> pd_submitted (ph ! d) \<and> fs_ready (h ! the (pd_fence (ph ! d))) \<Longrightarrow>
   \<not> fst (scan_pending h ph ds)"
  by (induction ds) (auto simp: Fence_is_ready_def)

lemma eval_deps_resolved: "resolved h groups ph st \<Longrightarrow> \<not> fst (eval_deps h groups ph st)"
  using scan_fences_resolved [of "direct_fences groups st" h] scan_pending_resolved [of "pd_pending_deps st" ph h]
  by (cases "scan_fences h (direct_fences groups st)") (auto simp: scan_direct resolved_def)

lemma deps_done_resolved: "deps_done h groups ph st \<Longrightarrow> resolved h groups ph st"
  and deps_done_not_failed: "deps_done h groups ph st \<Longrightarrow> \<not> dep_failed h groups ph st"
  by (auto simp: deps_done_def resolved_def dep_failed_def fence_ok_def fence_failed_def)

section \<open>A pass over the registry\<close>

text \<open>Dependencies point to fences and commands that exist; a submitted command has its fence.\<close>

definition pc_inv :: "fence_heap \<Rightarrow> (group_ref \<Rightarrow> CommandGroup) \<Rightarrow> pcmd_heap \<Rightarrow> bool" where
  "pc_inv h groups ph \<longleftrightarrow> (\<forall>st \<in> set ph. set (direct_fences groups st) \<subseteq> {..<length h}
     \<and> set (pd_pending_deps st) \<subseteq> {..<length ph}
     \<and> (pd_submitted st \<longrightarrow> (\<exists>f < length h. pd_fence st = Some f)))"

lemma pc_invD:
  assumes "pc_inv h groups ph" and "j < length ph"
  shows "f \<in> set (direct_fences groups (ph ! j)) \<Longrightarrow> f < length h"
    and "d \<in> set (pd_pending_deps (ph ! j)) \<Longrightarrow> d < length ph"
    and "pd_submitted (ph ! j) \<Longrightarrow> the (pd_fence (ph ! j)) < length h"
  using assms by (fastforce simp: pc_inv_def)+

lemma pc_inv_update:
  assumes "pc_inv h groups ph" and "i < length ph" and "direct_fences groups st = direct_fences groups (ph ! i)"
    and "pd_pending_deps st = pd_pending_deps (ph ! i)" and "pd_submitted st \<Longrightarrow> \<exists>f < length h. pd_fence st = Some f"
  shows "pc_inv h groups (ph[i := st])"
proof -
  have "set (direct_fences groups st) \<subseteq> {..<length h}" "set (pd_pending_deps st) \<subseteq> {..<length ph}"
    using assms(3,4) pc_invD(1,2) [OF assms(1,2)] by auto
  with assms(5) have new: "set (direct_fences groups st) \<subseteq> {..<length h} \<and> set (pd_pending_deps st) \<subseteq> {..<length ph}
      \<and> (pd_submitted st \<longrightarrow> (\<exists>f < length h. pd_fence st = Some f))" by blast
  show ?thesis
    unfolding pc_inv_def length_list_update
  proof
    fix x assume "x \<in> set (ph[i := st])"
    then have "x = st \<or> x \<in> set ph" using set_update_subset_insert [of ph i st] by blast
    with new assms(1) show "set (direct_fences groups x) \<subseteq> {..<length h} \<and> set (pd_pending_deps x) \<subseteq> {..<length ph}
        \<and> (pd_submitted x \<longrightarrow> (\<exists>f < length h. pd_fence x = Some f))" unfolding pc_inv_def by blast
  qed
qed

text \<open>
  How the commands and fences move on. A command changes only from waiting to submitted, with its
  dependencies done, or to blocked, with one of them failed; either is final.
\<close>

definition advance :: "(group_ref \<Rightarrow> CommandGroup) \<Rightarrow> fence_heap \<times> pcmd_heap \<Rightarrow> fence_heap \<times> pcmd_heap \<Rightarrow> bool" where
  "advance groups x y \<longleftrightarrow> heap_stable (fst x) (fst y) \<and> length (snd y) = length (snd x)
     \<and> (\<forall>j < length (snd x). let st = snd x ! j; st' = snd y ! j in
          direct_fences groups st' = direct_fences groups st \<and> pd_pending_deps st' = pd_pending_deps st
          \<and> (pd_submitted st \<or> pd_blocked st \<longrightarrow> st' = st)
          \<and> (\<not> pd_submitted st \<and> pd_submitted st' \<longrightarrow> \<not> pd_blocked st' \<and> deps_done (fst y) groups (snd y) st')
          \<and> (\<not> pd_blocked st \<and> pd_blocked st' \<longrightarrow> \<not> pd_submitted st' \<and> dep_failed (fst y) groups (snd y) st'))"

lemma advanceD:
  assumes "advance groups (h, ph) (h', ph')"
  shows "heap_stable h h'" and "length ph' = length ph"
    and "j < length ph \<Longrightarrow> direct_fences groups (ph' ! j) = direct_fences groups (ph ! j)"
    and "j < length ph \<Longrightarrow> pd_pending_deps (ph' ! j) = pd_pending_deps (ph ! j)"
    and "j < length ph \<Longrightarrow> pd_submitted (ph ! j) \<or> pd_blocked (ph ! j) \<Longrightarrow> ph' ! j = ph ! j"
    and "j < length ph \<Longrightarrow> \<not> pd_submitted (ph ! j) \<Longrightarrow> pd_submitted (ph' ! j) \<Longrightarrow>
         \<not> pd_blocked (ph' ! j) \<and> deps_done h' groups ph' (ph' ! j)"
    and "j < length ph \<Longrightarrow> \<not> pd_blocked (ph ! j) \<Longrightarrow> pd_blocked (ph' ! j) \<Longrightarrow>
         \<not> pd_submitted (ph' ! j) \<and> dep_failed h' groups ph' (ph' ! j)"
  using assms unfolding advance_def Let_def fst_conv snd_conv by blast+

text \<open>What is done or failed stays so.\<close>

lemma fence_ok_stable: "heap_stable h h' \<Longrightarrow> f < length h \<Longrightarrow> fence_ok h f \<Longrightarrow> fence_ok h' f"
  and fence_failed_stable: "heap_stable h h' \<Longrightarrow> f < length h \<Longrightarrow> fence_failed h f \<Longrightarrow> fence_failed h' f"
  by (simp_all add: heap_stable_def fence_ok_def fence_failed_def)

lemma deps_done_stable:
  assumes inv: "pc_inv h groups ph" and adv: "advance groups (h, ph) (h', ph')" and j: "j < length ph"
    and "deps_done h groups ph (ph ! j)"
  shows "deps_done h' groups ph' (ph ! j)"
  unfolding deps_done_def
proof (intro conjI ballI)
  fix f assume "f \<in> set (direct_fences groups (ph ! j))"
  with assms(4) pc_invD(1) [OF inv j] show "fence_ok h' f"
    by (auto simp: deps_done_def intro: fence_ok_stable [OF advanceD(1) [OF adv]])
next
  fix d assume d: "d \<in> set (pd_pending_deps (ph ! j))"
  have lt: "d < length ph" by (rule pc_invD(2) [OF inv j d])
  have sub: "\<not> pd_blocked (ph ! d)" "pd_submitted (ph ! d)" "fence_ok h (the (pd_fence (ph ! d)))"
    using assms(4) d by (simp_all add: deps_done_def)
  moreover have "ph' ! d = ph ! d" using advanceD(5) [OF adv lt] sub by simp
  moreover have "fence_ok h' (the (pd_fence (ph ! d)))"
    using fence_ok_stable [OF advanceD(1) [OF adv]] pc_invD(3) [OF inv lt] sub by blast
  ultimately show "\<not> pd_blocked (ph' ! d)" "pd_submitted (ph' ! d)" "fence_ok h' (the (pd_fence (ph' ! d)))"
    by simp_all
qed

lemma resolved_stable:
  assumes inv: "pc_inv h groups ph" and adv: "advance groups (h, ph) (h', ph')" and j: "j < length ph"
    and "resolved h groups ph (ph ! j)"
  shows "resolved h' groups ph' (ph ! j)"
  unfolding resolved_def
proof (intro conjI ballI)
  have ready: "fs_ready (h' ! f)" if "f < length h" "fs_ready (h ! f)" for f
    using advanceD(1) [OF adv] that by (simp add: heap_stable_def)
  then show "fs_ready (h' ! f)" if "f \<in> set (direct_fences groups (ph ! j))" for f
    using assms(4) pc_invD(1) [OF inv j] that by (auto simp: resolved_def)
  fix d assume d: "d \<in> set (pd_pending_deps (ph ! j))"
  have lt: "d < length ph" by (rule pc_invD(2) [OF inv j d])
  have "pd_blocked (ph ! d) \<or> pd_submitted (ph ! d) \<and> fs_ready (h ! the (pd_fence (ph ! d)))"
    using assms(4) d by (simp add: resolved_def)
  with ready advanceD(5) [OF adv lt] pc_invD(3) [OF inv lt]
  show "pd_blocked (ph' ! d) \<or> pd_submitted (ph' ! d) \<and> fs_ready (h' ! the (pd_fence (ph' ! d)))" by auto
qed

lemma dep_failed_stable:
  assumes inv: "pc_inv h groups ph" and adv: "advance groups (h, ph) (h', ph')" and j: "j < length ph"
    and "dep_failed h groups ph (ph ! j)"
  shows "dep_failed h' groups ph' (ph ! j)"
proof -
  note st = fence_failed_stable [OF advanceD(1) [OF adv]]
  consider f where "f \<in> set (direct_fences groups (ph ! j))" "fence_failed h f"
    | d where "d \<in> set (pd_pending_deps (ph ! j))" "pd_blocked (ph ! d) \<or> pd_submitted (ph ! d) \<and> fence_failed h (the (pd_fence (ph ! d)))"
    using assms(4) by (auto simp: dep_failed_def)
  then show ?thesis
  proof cases
    case 1
    with st pc_invD(1) [OF inv j] show ?thesis by (auto simp: dep_failed_def)
  next
    case 2
    have lt: "d < length ph" by (rule pc_invD(2) [OF inv j 2(1)])
    have "ph' ! d = ph ! d" using advanceD(5) [OF adv lt] 2(2) by blast
    with 2 st pc_invD(3) [OF inv lt] show ?thesis by (fastforce simp: dep_failed_def)
  qed
qed

lemma advance_refl: "advance groups x x"
  by (simp add: advance_def Let_def)

lemma advance_trans:
  assumes inv: "pc_inv h' groups ph'" and a: "advance groups (h, ph) (h', ph')" and b: "advance groups (h', ph') (h'', ph'')"
  shows "advance groups (h, ph) (h'', ph'')"
  unfolding advance_def Let_def fst_conv snd_conv
proof (intro conjI allI impI)
  show "heap_stable h h''" by (rule heap_stable_trans [OF advanceD(1) [OF a] advanceD(1) [OF b]])
  show "length ph'' = length ph" using advanceD(2) [OF a] advanceD(2) [OF b] by simp
  fix j assume j: "j < length ph"
  have j': "j < length ph'" using j advanceD(2) [OF a] by simp
  show "direct_fences groups (ph'' ! j) = direct_fences groups (ph ! j)" "pd_pending_deps (ph'' ! j) = pd_pending_deps (ph ! j)"
    using advanceD(3,4) [OF a j] advanceD(3,4) [OF b j'] by simp_all
  show "ph'' ! j = ph ! j" if "pd_submitted (ph ! j) \<or> pd_blocked (ph ! j)"
    using advanceD(5) [OF a j] advanceD(5) [OF b j'] that by simp
  show "\<not> pd_blocked (ph'' ! j)" "deps_done h'' groups ph'' (ph'' ! j)"
    if n: "\<not> pd_submitted (ph ! j) \<and> pd_submitted (ph'' ! j)"
    using n advanceD(5,6) [OF b j'] advanceD(6) [OF a j] deps_done_stable [OF inv b j']
    by (cases "pd_submitted (ph' ! j)"; simp)+
  show "\<not> pd_submitted (ph'' ! j)" "dep_failed h'' groups ph'' (ph'' ! j)"
    if n: "\<not> pd_blocked (ph ! j) \<and> pd_blocked (ph'' ! j)"
    using n advanceD(5,7) [OF b j'] advanceD(7) [OF a j] dep_failed_stable [OF inv b j']
    by (cases "pd_blocked (ph' ! j)"; simp)+
qed

text \<open>Marking an entry blocked, and handing it to the stream, as steps of the dependency graph.\<close>

lemma advance_blocked:
  assumes inv: "pc_inv H groups ph" and i: "i < length ph"
    and new: "\<not> pd_submitted (ph ! i)" "\<not> pd_blocked (ph ! i)" and dep: "dep_failed H groups ph (ph ! i)"
  defines "ph' \<equiv> ph[i := (ph ! i)\<lparr>pd_blocked := True\<rparr>]"
  shows "pc_inv H groups ph'" and "advance groups (H, ph) (H, ph')"
proof -
  let ?st = "(ph ! i)\<lparr>pd_blocked := True\<rparr>"
  have same: "direct_fences groups ?st = direct_fences groups (ph ! i)" by (simp add: direct_fences_def)
  have "dep_failed H groups ph' ?st"
    using dep by (fastforce simp: dep_failed_def same ph'_def nth_update_if split: if_splits)
  then show "advance groups (H, ph) (H, ph')"
    using new same by (auto simp: advance_def Let_def ph'_def nth_update_if)
  show "pc_inv H groups ph'" using pc_inv_update [OF inv i same] new by (simp add: ph'_def)
qed

lemma advance_submitted:
  assumes inv: "pc_inv H groups ph" and i: "i < length ph" and st: "heap_stable H H'" and f: "f < length H'"
    and new: "\<not> pd_submitted (ph ! i)" "\<not> pd_blocked (ph ! i)" and dep: "deps_done H groups ph (ph ! i)"
  defines "ph' \<equiv> ph[i := (ph ! i)\<lparr>pd_fence := Some f, pd_submitted := True\<rparr>]"
  shows "pc_inv H' groups ph'" and "advance groups (H, ph) (H', ph')"
proof -
  let ?st = "(ph ! i)\<lparr>pd_fence := Some f, pd_submitted := True\<rparr>"
  have same: "direct_fences groups ?st = direct_fences groups (ph ! i)" by (simp add: direct_fences_def)
  have "deps_done H' groups ph' ?st"
    using dep new st pc_invD [OF inv i] pc_invD(3) [OF inv]
    unfolding deps_done_def same ph'_def by (auto simp: nth_update_if intro: fence_ok_stable)
  then show "advance groups (H, ph) (H', ph')"
    using new same st by (auto simp: advance_def Let_def ph'_def nth_update_if)
  have "pc_inv H' groups ph" using inv st by (fastforce simp: pc_inv_def heap_stable_def)
  from pc_inv_update [OF this i same] f show "pc_inv H' groups ph'" by (simp add: ph'_def)
qed

lemma progress_one_step:
  assumes ok: "stream_ok s (heap r)" and inv: "pc_inv (heap r) groups ph" and i: "i < length ph"
    and run: "progress_one K bufs groups i ph s r = Some (ph', (s', r'), q)"
  shows "stream_ok s' (heap r') \<and> pc_inv (heap r') groups ph' \<and> advance groups (heap r, ph) (heap r', ph')
    \<and> (\<forall>j. j \<noteq> i \<longrightarrow> ph' ! j = ph ! j)
    \<and> (q = Inr () \<longrightarrow> resolved (heap r) groups ph (ph ! i) \<longrightarrow> settled (ph' ! i))"
proof -
  obtain p e where ev: "eval_deps (heap r) groups ph (ph ! i) = (p, e)" by fastforce
  have fin: "deps_done (heap r) groups ph (ph ! i) \<longleftrightarrow> \<not> p \<and> \<not> e" using eval_deps_done [of "heap r" groups ph "ph ! i"] ev by simp
  have stay: "stream_ok s' (heap r') \<and> pc_inv (heap r') groups ph' \<and> advance groups (heap r, ph) (heap r', ph')"
    if "s' = s" "r' = r" "ph' = ph" using that ok inv by (simp add: advance_refl)
  show ?thesis
  proof (cases "pd_submitted (ph ! i) \<or> pd_blocked (ph ! i)")
    case True
    with run stay show ?thesis by (auto simp: progress_one_def Let_def settled_def)
  next
    case False
    then have new: "\<not> pd_submitted (ph ! i)" "\<not> pd_blocked (ph ! i)" by auto
    consider "e" | "\<not> e" "p" | "\<not> e" "\<not> p" by blast
    then show ?thesis
    proof cases
      case 1
      have x: "ph' = ph[i := (ph ! i)\<lparr>pd_blocked := True\<rparr>]" "s' = s" "r' = r" "q = Inr ()"
        using run new ev 1 by (auto simp: progress_one_def Let_def)
      have "dep_failed (heap r) groups ph (ph ! i)" using eval_deps_failed [of "heap r" groups ph "ph ! i"] ev 1 by simp
      from advance_blocked [OF inv i new this] show ?thesis using ok i by (simp add: x settled_def)
    next
      case 2
      have "\<not> resolved (heap r) groups ph (ph ! i)" using eval_deps_resolved [of "heap r" groups ph "ph ! i"] ev 2 by auto
      with 2 run stay False ev show ?thesis by (auto simp: progress_one_def Let_def)
    next
      case 3
      obtain s1 r1 y where c: "run_command K bufs (pd_submit_fn (ph ! i)) s r = Some ((s1, r1), y)"
        using run new ev 3 by (auto simp: progress_one_def Let_def split: Option.bind_splits)
      note cok = run_command_ok [OF ok c]
      show ?thesis
      proof (cases y)
        case (Inl e)
        with run new ev 3 c have x: "ph' = ph" "s' = s1" "r' = r1" "q = Inl e"
          by (auto simp: progress_one_def Let_def)
        have "pc_inv (heap r1) groups ph" using inv cok(2) by (fastforce simp: pc_inv_def heap_stable_def)
        then show ?thesis using cok by (simp add: x advance_def Let_def)
      next
        case (Inr f)
        have x: "ph' = ph[i := (ph ! i)\<lparr>pd_fence := Some f, pd_submitted := True\<rparr>]" "s' = s1" "r' = r1" "q = Inr ()"
          using run new ev 3 c Inr by (auto simp: progress_one_def Let_def)
        have f: "f < length (heap r1)" using run_command_heap(3) [OF _ c Inr] ok by (simp add: stream_ok_def)
        have "deps_done (heap r) groups ph (ph ! i)" using fin 3 by simp
        from advance_submitted [OF inv i cok(2) f new this] show ?thesis using cok i by (simp add: x settled_def)
      qed
    qed
  qed
qed

lemma progress_loop_step:
  assumes "stream_ok s (heap r)" and "pc_inv (heap r) groups ph" and "set is \<subseteq> {..<length ph}"
    and "progress_loop K bufs groups is ph s r = Some (ph', (s', r'), q)"
  shows "stream_ok s' (heap r') \<and> pc_inv (heap r') groups ph' \<and> advance groups (heap r, ph) (heap r', ph')
    \<and> (\<forall>j. j \<notin> set is \<longrightarrow> ph' ! j = ph ! j)
    \<and> (q = Inr () \<longrightarrow> (\<forall>i \<in> set is. resolved (heap r) groups ph (ph ! i) \<longrightarrow> settled (ph' ! i)))"
  using assms
proof (induction "is" arbitrary: ph s r)
  case Nil
  then show ?case by (simp add: advance_refl)
next
  case (Cons i "is")
  obtain ph1 s1 r1 q1 where one: "progress_one K bufs groups i ph s r = Some (ph1, (s1, r1), q1)"
    using Cons.prems(4) by (auto split: Option.bind_splits)
  have i: "i < length ph" using Cons.prems(3) by simp
  note st = progress_one_step [OF Cons.prems(1,2) i one]
  show ?case
  proof (cases q1)
    case (Inl e)
    with Cons.prems(4) one have "ph' = ph1 \<and> s' = s1 \<and> r' = r1 \<and> q = Inl e" by simp
    with st show ?thesis by auto
  next
    case (Inr u)
    with Cons.prems(4) one have rest: "progress_loop K bufs groups is ph1 s1 r1 = Some (ph', (s', r'), q)" by simp
    have adv: "advance groups (heap r, ph) (heap r1, ph1)" using st by simp
    have sub: "set is \<subseteq> {..<length ph1}" using Cons.prems(3) advanceD(2) [OF adv] by simp
    note ih = Cons.IH [OF _ _ sub rest]
    have adv': "advance groups (heap r1, ph1) (heap r', ph')" using ih st by simp
    have "settled (ph' ! j)"
      if q: "q = Inr ()" and j: "j \<in> set (i # is)" and res: "resolved (heap r) groups ph (ph ! j)" for j
    proof (cases "j = i")
      case True
      then have "settled (ph1 ! i)" using st Inr res by simp
      moreover have "ph' ! i = ph1 ! i"
        using advanceD(5) [OF adv', of i] calculation i advanceD(2) [OF adv] by (simp add: settled_def)
      ultimately show ?thesis using True by simp
    next
      case False
      have lt: "j < length ph" using j Cons.prems(3) by auto
      have "ph1 ! j = ph ! j" using st False by simp
      with resolved_stable [OF Cons.prems(2) adv lt res] have "resolved (heap r1) groups ph1 (ph1 ! j)" by simp
      with ih st q j False show ?thesis by auto
    qed
    moreover have "advance groups (heap r, ph) (heap r', ph')"
      using advance_trans [OF _ adv adv'] st by simp
    ultimately show ?thesis using ih st by auto
  qed
qed

text \<open>Whatever is resolved once \<^verbatim>\<open>pump()\<close> has delivered what it finds is settled when \<^verbatim>\<open>progress()\<close> returns.\<close>

lemma progress_step:
  assumes "stream_ok s (heap r)" and "pc_inv (heap r) groups ph" and "set (de_registry e) \<subseteq> {..<length ph}"
    and "progress K bufs groups e ph s r = Some (ph', (s', r'), q)"
  shows "stream_ok s' (heap r') \<and> pc_inv (heap r') groups ph' \<and> advance groups (heap r, ph) (heap r', ph')
    \<and> (\<forall>j. j \<notin> set (de_registry e) \<longrightarrow> ph' ! j = ph ! j)
    \<and> (q = Inr () \<longrightarrow> (\<forall>s1 r1 u. Stream_pump K s r = Some ((s1, r1), Inr u) \<longrightarrow>
          (\<forall>i \<in> set (de_registry e). resolved (heap r1) groups ph (ph ! i) \<longrightarrow> settled (ph' ! i))))"
    and "q = Inr () \<Longrightarrow> i \<in> set (de_registry e) \<Longrightarrow> resolved (heap r) groups ph (ph ! i) \<Longrightarrow> settled (ph' ! i)"
proof -
  obtain s1 r1 x where p: "Stream_pump K s r = Some ((s1, r1), x)"
    using assms(4) by (auto simp: progress_def split: Option.bind_splits)
  have "rt_le (s, r) (s1, r1)" using pump_le [OF p] by simp
  note ok = rt_le_ok [OF this assms(1)]
  have inv: "pc_inv (heap r1) groups ph" using assms(2) ok(2) by (fastforce simp: pc_inv_def heap_stable_def)
  have adv: "advance groups (heap r, ph) (heap r1, ph)" using ok(2) by (simp add: advance_def Let_def)
  show main: "stream_ok s' (heap r') \<and> pc_inv (heap r') groups ph' \<and> advance groups (heap r, ph) (heap r', ph')
    \<and> (\<forall>j. j \<notin> set (de_registry e) \<longrightarrow> ph' ! j = ph ! j)
    \<and> (q = Inr () \<longrightarrow> (\<forall>s1 r1 u. Stream_pump K s r = Some ((s1, r1), Inr u) \<longrightarrow>
          (\<forall>i \<in> set (de_registry e). resolved (heap r1) groups ph (ph ! i) \<longrightarrow> settled (ph' ! i))))"
  proof (cases x)
    case (Inl y)
    with assms(4) p ok inv adv show ?thesis by (auto simp: progress_def)
  next
    case (Inr u)
    with assms(4) p have "progress_loop K bufs groups (de_registry e) ph s1 r1 = Some (ph', (s', r'), q)"
      by (simp add: progress_def)
    note lp = progress_loop_step [OF ok(1) inv assms(3) this]
    have "advance groups (heap r, ph) (heap r', ph')" using advance_trans [OF inv adv] lp by simp
    with lp p Inr show ?thesis by simp
  qed
  show "settled (ph' ! i)" if q: "q = Inr ()" and i: "i \<in> set (de_registry e)" and res: "resolved (heap r) groups ph (ph ! i)"
  proof -
    have "i < length ph" using assms(3) i by auto
    from resolved_stable [OF assms(2) adv this res] have "resolved (heap r1) groups ph (ph ! i)" .
    moreover obtain u where "x = Inr u" using assms(4) p q by (cases x) (auto simp: progress_def)
    ultimately show ?thesis using main q i p by blast
  qed
qed

section \<open>Properties of the engine\<close>

text \<open>
  C32: no command is submitted before everything it depends on has completed well. Whatever the
  kernel answers, and whether \<^verbatim>\<open>progress()\<close> returns or throws: a command that it submits is one of its
  registry that was not blocked, and all its fences, the fences of its groups and the commands it
  depends on are complete with \<^verbatim>\<open>DMA_ACCEL_OK\<close>; a command that it blocks has a failed or blocked
  dependency and is not submitted; and a command that is submitted or blocked is never touched again.
\<close>

theorem progress_respects_dependencies:
  assumes "stream_ok s (heap r)" and "pc_inv (heap r) groups ph" and "set (de_registry e) \<subseteq> {..<length ph}"
    and "progress K bufs groups e ph s r = Some (ph', (s', r'), q)" and "i < length ph"
  shows "(\<not> pd_submitted (ph ! i) \<and> pd_submitted (ph' ! i) \<longrightarrow>
            i \<in> set (de_registry e) \<and> \<not> pd_blocked (ph ! i) \<and> \<not> pd_blocked (ph' ! i) \<and> deps_done (heap r') groups ph' (ph' ! i))
     \<and> (\<not> pd_blocked (ph ! i) \<and> pd_blocked (ph' ! i) \<longrightarrow>
            i \<in> set (de_registry e) \<and> \<not> pd_submitted (ph' ! i) \<and> dep_failed (heap r') groups ph' (ph' ! i))
     \<and> (pd_submitted (ph ! i) \<or> pd_blocked (ph ! i) \<longrightarrow> ph' ! i = ph ! i)
     \<and> stream_ok s' (heap r') \<and> pc_inv (heap r') groups ph'"
proof -
  note st = progress_step(1) [OF assms(1-4)]
  then have adv: "advance groups (heap r, ph) (heap r', ph')" by simp
  show ?thesis
  proof (intro conjI impI; (elim conjE)?)
    assume n: "\<not> pd_submitted (ph ! i)" "pd_submitted (ph' ! i)"
    then show "i \<in> set (de_registry e)" using st by auto
    show "\<not> pd_blocked (ph ! i)" using n advanceD(5) [OF adv assms(5)] by auto
    show "\<not> pd_blocked (ph' ! i)" "deps_done (heap r') groups ph' (ph' ! i)"
      using advanceD(6) [OF adv assms(5) n] by simp_all
  next
    assume n: "\<not> pd_blocked (ph ! i)" "pd_blocked (ph' ! i)"
    then show "i \<in> set (de_registry e)" using st by auto
    show "\<not> pd_submitted (ph' ! i)" "dep_failed (heap r') groups ph' (ph' ! i)"
      using advanceD(7) [OF adv assms(5) n] by simp_all
  qed (use st advanceD(5) [OF adv assms(5)] in auto)
qed

text \<open>Two registered commands, the second depending on the first, on a kernel that completes nothing.\<close>

definition demo_engine :: DependencyEngine where
  "demo_engine = \<lparr>de_stream = 0, de_registry = [0, 1]\<rparr>"

definition demo_progress :: "(pcmd_heap \<times> (u64, unit) outcome) option" where
  "demo_progress = progress counting_kernel (\<lambda>_. some_buffer) (\<lambda>_. CommandGroup_new 0) demo_engine
     [demo_pending [], demo_pending [0]] empty_stream \<lparr>world = 0, heap = []\<rparr>"

lemma demo_progress_run:
  obtains ph s r where "demo_progress = Some (ph, (s, r), Inr ())" "pd_submitted (ph ! 0)" "\<not> pd_submitted (ph ! 1)"
proof -
  have "case demo_progress of Some (ph, sr, Inr u) \<Rightarrow> pd_submitted (ph ! 0) \<and> \<not> pd_submitted (ph ! 1) | _ \<Rightarrow> False"
    by code_simp
  with that show ?thesis by (auto split: option.splits prod.splits sum.splits)
qed

lemma demo_start:
  "stream_ok empty_stream (heap \<lparr>world = (0 :: u64), heap = []\<rparr>)"
  "pc_inv (heap \<lparr>world = (0 :: u64), heap = []\<rparr>) (\<lambda>_. CommandGroup_new 0) [demo_pending [], demo_pending [0]]"
  "set (de_registry demo_engine) \<subseteq> {..<length [demo_pending [], demo_pending [0]]}"
  by (simp_all add: stream_ok_def stream_inv_empty) (auto simp: empty_stream_def pc_inv_def direct_fences_def
      demo_pending_def demo_engine_def)

theorem progress_respects_dependencies_witness:
  "case demo_progress of Some (ph, (s, r), q) \<Rightarrow>
     pd_submitted (ph ! 0) \<and> deps_done (heap r) (\<lambda>_. CommandGroup_new 0) ph (ph ! 0) \<and> stream_ok s (heap r)
   | None \<Rightarrow> False"
proof -
  obtain ph s r where run: "demo_progress = Some (ph, (s, r), Inr ())" "pd_submitted (ph ! 0)"
    by (rule demo_progress_run)
  from progress_respects_dependencies [OF demo_start run(1) [unfolded demo_progress_def], of 0] run(2)
  have "pd_submitted (ph ! 0) \<and> deps_done (heap r) (\<lambda>_. CommandGroup_new 0) ph (ph ! 0) \<and> stream_ok s (heap r)"
    by (simp add: demo_pending_def)
  then show ?thesis by (simp add: run(1))
qed

text \<open>
  A command that may go goes: if everything a registered command depends on is complete with
  \<^verbatim>\<open>DMA_ACCEL_OK\<close> when \<^verbatim>\<open>progress()\<close> is called, and the command is not blocked, then it is submitted
  when \<^verbatim>\<open>progress()\<close> returns, and \<^verbatim>\<open>fence()\<close> gives its fence.
\<close>

lemma progress_submits_eligible:
  assumes "stream_ok s (heap r)" and "pc_inv (heap r) groups ph" and "set (de_registry e) \<subseteq> {..<length ph}"
    and "progress K bufs groups e ph s r = Some (ph', (s', r'), Inr u)"
    and "i \<in> set (de_registry e)" and "\<not> pd_blocked (ph ! i)" and "deps_done (heap r) groups ph (ph ! i)"
  shows "pd_submitted (ph' ! i) \<and> (\<exists>f < length (heap r'). PendingCommand_fence i ph' = Inr f)"
proof -
  note st = progress_step(1) [OF assms(1-4)]
  have i: "i < length ph" using assms(3,5) by auto
  have adv: "advance groups (heap r, ph) (heap r', ph')" using st by simp
  have "settled (ph' ! i)" by (rule progress_step(2) [OF assms(1-4) _ assms(5) deps_done_resolved [OF assms(7)]]) simp
  moreover have "\<not> pd_blocked (ph' ! i)"
    using advanceD(7) [OF adv i assms(6)] deps_done_not_failed [OF deps_done_stable [OF assms(2) adv i assms(7)]]
      advanceD(3,4) [OF adv i] by (auto simp: dep_failed_def)
  ultimately have "pd_submitted (ph' ! i)" by (simp add: settled_def)
  moreover have "i < length ph'" using i advanceD(2) [OF adv] by simp
  ultimately show ?thesis using st by (auto simp: PendingCommand_fence_def intro: pc_invD(3))
qed

end
