(* ===== verification/Engine_Settles.thy ===== *)
theory Engine_Settles
  imports Dependency
begin

text \<open>
  The dependency engine as a whole: a client that calls \<^verbatim>\<open>progress()\<close> again and again, while the device
  completes what it has between the calls, gets every command of the graph submitted or blocked. What
  this needs of the kernel below the stream is the locale \<open>command_sink\<close>.
\<close>

section \<open>A pass settles a command\<close>

abbreviation unsettled :: "pcmd_heap \<Rightarrow> nat" where
  "unsettled ph \<equiv> count_if (\<lambda>st. \<not> settled st) ph"

text \<open>Of the commands that are not settled, one waits only for settled ones.\<close>

lemma unsettled_minimal:
  assumes "dag_inv ph" and "unsettled ph \<noteq> 0"
  obtains j where "j < length ph" "\<not> settled (ph ! j)" "\<forall>d \<in> set (pd_pending_deps (ph ! j)). settled (ph ! d)"
proof -
  let ?U = "{j. j < length ph \<and> \<not> settled (ph ! j)}"
  obtain i where i: "i \<in> ?U" using assms(2) by (auto simp: count_if_zero_iff in_set_conv_nth)
  obtain j where j: "j \<in> ?U" "\<And>d. (d, j) \<in> (dep_edges ph)\<inverse> \<Longrightarrow> d \<notin> ?U"
    using wfE_min [OF dag_inv_wf [OF assms(1)] i] by blast
  have "settled (ph ! d)" if "d \<in> set (pd_pending_deps (ph ! j))" for d
  proof -
    have e: "(j, d) \<in> dep_edges ph" using that j(1) by (simp add: dep_edges_def)
    then have "d < length ph" using assms(1) by (auto simp: dag_inv_def)
    with j(2) [of d] e show ?thesis by simp
  qed
  with j(1) show ?thesis by (intro that) auto
qed

lemma advance_edges: "advance groups (h, ph) (h', ph') \<Longrightarrow> dep_edges ph' = dep_edges ph"
  using advanceD(2,4) by (fastforce simp: dep_edges_def)

lemma advance_dag: "advance groups (h, ph) (h', ph') \<Longrightarrow> dag_inv ph \<Longrightarrow> dag_inv ph'"
  using advanceD(2) advance_edges by (fastforce simp: dag_inv_def)

text \<open>With every fence complete once \<^verbatim>\<open>pump()\<close> has run, a pass over the whole graph settles a command.\<close>

lemma progress_settles_one:
  assumes ok: "stream_ok s (heap r)" and inv: "pc_inv (heap r) groups ph" and reg: "set (de_registry e) = {..<length ph}"
    and run: "progress K bufs groups e ph s r = Some (ph', (s', r'), Inr ())" and dag: "dag_inv ph"
    and pump: "Stream_pump K s r = Some ((s1, r1), Inr ())"
    and ready: "\<And>f. f < length (heap r1) \<Longrightarrow> fs_ready (heap r1 ! f)" and len: "length (heap r1) = length (heap r)"
  shows "unsettled ph' \<le> unsettled ph - 1"
proof (cases "unsettled ph = 0")
  case True
  have adv: "advance groups (heap r, ph) (heap r', ph')" using progress_step(1) [OF ok inv _ run] reg by simp
  have "settled (ph' ! i)" if "i < length ph" for i
    using True advanceD(5) [OF adv that] that nth_mem [OF that] by (auto simp: count_if_zero_iff settled_def)
  with advanceD(2) [OF adv] have "unsettled ph' = 0" by (auto simp: count_if_zero_iff in_set_conv_nth)
  then show ?thesis by simp
next
  case False
  have st: "advance groups (heap r, ph) (heap r', ph')"
    "\<And>i. i < length ph \<Longrightarrow> resolved (heap r1) groups ph (ph ! i) \<Longrightarrow> settled (ph' ! i)"
    using progress_step(1) [OF ok inv _ run] reg pump by auto
  obtain j where j: "j < length ph" "\<not> settled (ph ! j)" "\<forall>d \<in> set (pd_pending_deps (ph ! j)). settled (ph ! d)"
    by (rule unsettled_minimal [OF dag False])
  have "resolved (heap r1) groups ph (ph ! j)"
    unfolding resolved_def
    using ready j(3) pc_invD(1,2) [OF inv j(1)] pc_invD(3) [OF inv] by (fastforce simp: len settled_def)
  then have "settled (ph' ! j)" by (rule st(2) [OF j(1)])
  moreover have "\<not> settled (ph ! i)" if "i < length ph" "\<not> settled (ph' ! i)" for i
    using that advanceD(5) [OF st(1) that(1)] by (auto simp: settled_def)
  ultimately have "unsettled ph' < unsettled ph"
    using advanceD(2) [OF st(1)] j by (intro count_if_nth_less [of _ _ _ j]) auto
  then show ?thesis by simp
qed

text \<open>A command is blocked only because of a fence that failed, its own or that of a command before it.\<close>

lemma blocked_by_failure:
  assumes adv: "advance groups (h, ph) (h', ph')" and inv: "pc_inv h' groups ph'" and dag: "dag_inv ph'"
    and new: "\<And>i. i < length ph \<Longrightarrow> \<not> pd_blocked (ph ! i)" and ok: "\<And>f. f < length h' \<Longrightarrow> \<not> fence_failed h' f"
  shows "i < length ph \<Longrightarrow> \<not> pd_blocked (ph' ! i)"
proof (induction i rule: wf_induct_rule [OF dag_inv_wf [OF dag]])
  case (1 i)
  have i: "i < length ph'" using "1.prems" advanceD(2) [OF adv] by simp
  have "\<not> pd_blocked (ph' ! d)" if "d \<in> set (pd_pending_deps (ph' ! i))" for d
    using "1.IH" [of d] that i pc_invD(2) [OF inv i that] advanceD(2) [OF adv] by (simp add: dep_edges_def)
  moreover have "\<not> fence_failed h' (the (pd_fence (ph' ! d)))" if "d \<in> set (pd_pending_deps (ph' ! i))" "pd_submitted (ph' ! d)" for d
    by (rule ok [OF pc_invD(3) [OF inv pc_invD(2) [OF inv i that(1)] that(2)]])
  ultimately have "\<not> dep_failed h' groups ph' (ph' ! i)"
    using ok pc_invD(1) [OF inv i] by (auto simp: dep_failed_def)
  with advanceD(7) [OF adv "1.prems" new [OF "1.prems"]] show ?case by blast
qed

section \<open>What the engine needs of the kernel\<close>

text \<open>The request a deferred command makes.\<close>

fun request_of :: "(buf_ref \<Rightarrow> Buffer) \<Rightarrow> command \<Rightarrow> dma_accel_submit" where
  "request_of bufs (Submit opcode src src_offset dst dst_offset len) =
     \<lparr>sub_opcode = opcode, sub_len = len, sub_src_buffer_id = buf_id (bufs src), sub_src_offset = src_offset,
      sub_dst_buffer_id = buf_id (bufs dst), sub_dst_offset = dst_offset, sub_cmd_id = 0,
      sub_src2_buffer_id = 0, sub_src2_offset = 0, sub_scalar = 0\<rparr>"
| "request_of bufs (SubmitScaleAdd a a_offset b b_offset dst dst_offset len scalar) =
     \<lparr>sub_opcode = OPCODE_SCALE_ADD, sub_len = len, sub_src_buffer_id = buf_id (bufs a), sub_src_offset = a_offset,
      sub_dst_buffer_id = buf_id (bufs dst), sub_dst_offset = dst_offset, sub_cmd_id = 0,
      sub_src2_buffer_id = buf_id (bufs b), sub_src2_offset = b_offset, sub_scalar = scalar\<rparr>"
| "request_of bufs (SubmitTileMatmul a a_offset b b_offset c c_offset) =
     \<lparr>sub_opcode = OPCODE_TILE_MATMUL, sub_len = DMA_ACCEL_TILE_MATMUL_BYTES, sub_src_buffer_id = buf_id (bufs a),
      sub_src_offset = a_offset, sub_dst_buffer_id = buf_id (bufs c), sub_dst_offset = c_offset, sub_cmd_id = 0,
      sub_src2_buffer_id = buf_id (bufs b), sub_src2_offset = b_offset, sub_scalar = 0\<rparr>"

lemma run_command_request: "run_command K bufs c = throttled_submit K (request_of bufs c)"
  by (cases c) (auto simp: submit_defs fun_eq_iff)

text \<open>
  What the client can say of the kernel's state: which requests it takes, how many more at once
  (\<open>sv_room\<close>) and in all (\<open>sv_supply\<close>), the identifiers of the commands the device has not completed,
  and all identifiers given so far.
\<close>

record sink_view =
  sv_accepts :: "dma_accel_submit \<Rightarrow> bool"
  sv_room :: nat
  sv_supply :: nat
  sv_waiting :: "u64 set"
  sv_used :: "u64 set"

abbreviation pending_ids :: "dma_accel_completion_uapi list \<Rightarrow> u64 set" where
  "pending_ids cs \<equiv> ucomp_cmd_id ` set cs"

locale command_sink = completion_source K fd ok pending later
  for K :: "'w kernel" and fd :: int and ok :: "'w \<Rightarrow> bool"
    and pending later :: "'w \<Rightarrow> dma_accel_completion_uapi list" +
  fixes view :: "'w \<Rightarrow> sink_view" and completes :: "'w \<Rightarrow> 'w \<Rightarrow> bool"
  assumes submit_taken: "ok w \<Longrightarrow> pending w = [] \<Longrightarrow> sv_accepts (view w) req \<Longrightarrow> 0 < sv_room (view w) \<Longrightarrow>
      0 < sv_supply (view w) \<Longrightarrow>
      \<exists>w' c. ioctl_submit K fd req w = Some (w', Inr (req\<lparr>sub_cmd_id := c\<rparr>)) \<and> ok w' \<and> pending w' = []
        \<and> c \<notin> sv_used (view w)
        \<and> view w' = (view w)\<lparr>sv_room := sv_room (view w) - 1, sv_supply := sv_supply (view w) - 1,
             sv_waiting := insert c (sv_waiting (view w)), sv_used := insert c (sv_used (view w))\<rparr>"
    and read_view: "ok w \<Longrightarrow> 0 < n \<Longrightarrow> sys_read K fd n w = (w', x) \<Longrightarrow> view w' = view w"
    and capacity: "ok w \<Longrightarrow> finite (sv_waiting (view w)) \<and> sv_waiting (view w) \<subseteq> sv_used (view w)
        \<and> sv_room (view w) + card (sv_waiting (view w)) \<le> DMA_ACCEL_QUEUE_DEPTH"
    and device_completes: "ok w \<Longrightarrow> completes w w' \<Longrightarrow> ok w'
        \<and> sv_waiting (view w) \<union> pending_ids (pending w) \<subseteq> pending_ids (pending w')
        \<and> view w' = (view w)\<lparr>sv_room := sv_room (view w) + card (sv_waiting (view w)), sv_waiting := {}\<rparr>"
begin

text \<open>
  The stream and its fences as the engine leaves them: every fence is ready or tracked under an
  identifier of its own, and a tracked command is at the device or its completion unread.
\<close>

definition known :: "Stream \<Rightarrow> 'w rt \<Rightarrow> bool" where
  "known s r \<longleftrightarrow> ok (world r) \<and> st_fd s = fd \<and> stream_ok s (heap r)
     \<and> distinct (map fs_cmd_id (heap r)) \<and> fs_cmd_id ` set (heap r) \<subseteq> sv_used (view (world r))
     \<and> (\<forall>f < length (heap r). fs_ready (heap r ! f) \<or> st_outstanding s (fs_cmd_id (heap r ! f)) = Some f)
     \<and> dom (st_outstanding s) \<subseteq> sv_waiting (view (world r)) \<union> pending_ids (pending (world r))"

text \<open>During a pass, in addition, only fences of this pass can be pending, at the end of the submission order.\<close>

definition passing :: "Stream \<Rightarrow> 'w rt \<Rightarrow> bool" where
  "passing s r \<longleftrightarrow> known s r \<and> pending (world r) = []
     \<and> (\<exists>old new. st_order s = old @ new \<and> (\<forall>f \<in> set old. fs_ready (heap r ! f))
          \<and> length new \<le> card (sv_waiting (view (world r))))"

lemma knownD:
  assumes "known s r"
  shows "ok (world r)" and "st_fd s = fd" and "stream_ok s (heap r)" and "stream_inv s (heap r)"
    and "distinct (map fs_cmd_id (heap r))" and "fs_cmd_id ` set (heap r) \<subseteq> sv_used (view (world r))"
    and "f < length (heap r) \<Longrightarrow> fs_ready (heap r ! f) \<or> st_outstanding s (fs_cmd_id (heap r ! f)) = Some f"
    and "dom (st_outstanding s) \<subseteq> sv_waiting (view (world r)) \<union> pending_ids (pending (world r))"
  using assms unfolding known_def stream_ok_def by blast+

text \<open>Tracked fences are those with the identifier, and are not ready.\<close>

lemma known_tracked:
  assumes "known s r" and "st_outstanding s c = Some f"
  shows "f < length (heap r)" and "fs_cmd_id (heap r ! f) = c" and "\<not> fs_ready (heap r ! f)"
    and "c \<in> sv_used (view (world r))"
proof -
  show f: "f < length (heap r)" "fs_cmd_id (heap r ! f) = c"
    using stream_invD(4,5) [OF knownD(4) [OF assms(1)] assms(2)] by simp_all
  show "\<not> fs_ready (heap r ! f)" using knownD(3) [OF assms(1)] assms(2) by (auto simp: stream_ok_def ran_def)
  show "c \<in> sv_used (view (world r))" using knownD(6) [OF assms(1)] f nth_mem [OF f(1)] by auto
qed

lemma known_ready_untracked:
  assumes k: "known s r" and f: "f < length (heap r)" "fs_ready (heap r ! f)"
  shows "st_outstanding s (fs_cmd_id (heap r ! f)) = None"
proof (rule ccontr)
  assume "\<not> ?thesis"
  then obtain g where g: "st_outstanding s (fs_cmd_id (heap r ! f)) = Some g" by auto
  note t = known_tracked [OF k g]
  have "g = f" using t(1,2) f(1) nth_eq_iff_index_eq [OF knownD(5) [OF k], of g f] by simp
  with t(3) f(2) show False by simp
qed

text \<open>Reading all completions leaves the rest of the kernel's state as it is.\<close>

lemma pump_view:
  assumes k: "known s r"
  obtains w where "Stream_pump K s r = Some (apply_batch (pending (world r)) (s, r\<lparr>world := w\<rparr>), Inr ())"
    "ok w" "view w = view (world r)" "pending w = []"
proof -
  let ?V = "view (world r)"
  have "completion_source K fd (\<lambda>w. ok w \<and> view w = ?V) pending later"
  proof
    fix w and n :: nat
    assume w: "ok w \<and> view w = ?V" and n: "0 < n"
    show "sys_read K fd n w = (w, Inl EAGAIN)" if "pending w = []" using read_empty w n that by blast
    assume "pending w \<noteq> []"
    with w n obtain w' where "sys_read K fd n w = (w', Inr (take n (pending w)))" "ok w'"
      "pending w' = drop n (pending w)" "later w' = later w" using read_some by blast
    moreover from this w n have "view w' = ?V" using read_view by metis
    ultimately show "\<exists>w'. sys_read K fd n w = (w', Inr (take n (pending w))) \<and> (ok w' \<and> view w' = ?V)
        \<and> pending w' = drop n (pending w) \<and> later w' = later w" by blast
  qed
  from completion_source.pump_all [OF this, of r s] knownD(1,2) [OF k] show ?thesis using that by auto
qed

text \<open>Once the device has completed all it has, \<^verbatim>\<open>pump()\<close> makes every fence ready and the pass can begin.\<close>

lemma pump_passing:
  assumes k: "known s r" and none: "sv_waiting (view (world r)) = {}"
  obtains s1 r1 where "Stream_pump K s r = Some ((s1, r1), Inr ())" "passing s1 r1" "view (world r1) = view (world r)"
    "\<And>f. f < length (heap r1) \<Longrightarrow> fs_ready (heap r1 ! f)" "length (heap r1) = length (heap r)"
proof -
  let ?cs = "pending (world r)" and ?V = "view (world r)"
  obtain w where p: "Stream_pump K s r = Some (apply_batch ?cs (s, r\<lparr>world := w\<rparr>), Inr ())" "ok w" "view w = ?V" "pending w = []"
    by (rule pump_view [OF k])
  obtain s1 r1 where b: "apply_batch ?cs (s, r\<lparr>world := w\<rparr>) = (s1, r1)" by fastforce
  note fr = apply_batch_frame [OF b]
  have le: "rt_le (s, r) (s1, r1)" using rt_le_batch [OF b] by simp
  have so: "stream_ok s1 (heap r1)" by (rule rt_le_ok(1) [OF le knownD(3) [OF k]])
  have heap: "heap r1 = snd (pump_batch ?cs (st_outstanding s, heap r))"
    using b by (auto simp: apply_batch_def split: prod.splits)
  have ready: "fs_ready (heap r1 ! f)" if f: "f < length (heap r1)" for f
  proof (cases "fs_ready (heap r ! f)")
    case True
    then show ?thesis using fr(4,5) f by (simp add: heap_le_def)
  next
    case False
    let ?c = "fs_cmd_id (heap r ! f)"
    have t: "st_outstanding s ?c = Some f" "f < length (heap r)" using knownD(7) [OF k, of f] False f fr(4) by simp_all
    then have "?c \<in> pending_ids ?cs" using knownD(8) [OF k] none by auto
    then obtain x where "find (\<lambda>x. ucomp_cmd_id x = ?c) ?cs = Some x"
      by (cases "find (\<lambda>x. ucomp_cmd_id x = ?c) ?cs") (auto simp: find_None_iff)
    with pump_batch_fence [of "st_outstanding s" ?c f "heap r" ?cs, OF t known_tracked(2) [OF k]] show ?thesis
      by (simp add: heap)
  qed
  have empty: "st_outstanding s1 c = None" for c
    using so ready stream_invD(5) [of s1 "heap r1" c] by (cases "st_outstanding s1 c") (auto simp: stream_ok_def ran_def)
  have ids: "map fs_cmd_id (heap r1) = map fs_cmd_id (heap r)"
    using fr(4,5) by (intro nth_equalityI) (simp_all add: heap_le_def)
  have ids': "fs_cmd_id ` set (heap r1) = fs_cmd_id ` set (heap r)" using ids by (metis image_set)
  have w: "world r1 = w" "st_fd s1 = fd" using fr(1,3) knownD(2) [OF k] by simp_all
  have "known s1 r1" unfolding known_def using w p(2,3) so ready empty ids ids' knownD(5,6) [OF k] by (auto simp: dom_def)
  moreover have "\<forall>f \<in> set (st_order s1). fs_ready (heap r1 ! f)"
    using ready stream_invD(2) [of s1 "heap r1"] so by (auto simp: stream_ok_def)
  then have "\<exists>old new. st_order s1 = old @ new \<and> (\<forall>f \<in> set old. fs_ready (heap r1 ! f))
      \<and> length new \<le> card (sv_waiting (view (world r1)))"
    by (rule_tac exI [of _ "st_order s1"], rule_tac exI [of _ "[]"]) simp
  ultimately have "passing s1 r1" unfolding passing_def using w(1) p(4) by simp
  with p(1,3) b w(1) ready fr(4) show ?thesis by (intro that [of s1 r1]) simp_all
qed

text \<open>The throttle never has to wait in a pass: when the order is full its oldest fence is from before.\<close>

lemma throttle_passing:
  assumes p: "passing s r" and room: "0 < sv_room (view (world r))"
  obtains s1 where "Stream_throttle_before_submit K s r = Some ((s1, r), Inr ())" "passing s1 r"
    "length (st_order s1) < DMA_ACCEL_QUEUE_DEPTH"
proof (cases "length (st_order s) < DMA_ACCEL_QUEUE_DEPTH")
  case True
  with p show ?thesis by (intro that [of s]) (simp_all add: Stream_throttle_before_submit_def)
next
  case False
  have k: "known s r" using p by (simp add: passing_def)
  obtain old new where o: "st_order s = old @ new" "\<forall>f \<in> set old. fs_ready (heap r ! f)"
    "length new \<le> card (sv_waiting (view (world r)))" using p by (auto simp: passing_def)
  have "length new < DMA_ACCEL_QUEUE_DEPTH" using o(3) room capacity [OF knownD(1) [OF k]] by linarith
  then obtain f old' where f: "old = f # old'" using False o(1) by (cases old) auto
  have "f \<in> set (st_order s)" and rf: "fs_ready (heap r ! f)" using o(1,2) f by auto
  then have lt: "f < length (heap r)" using stream_invD(2) [OF knownD(4) [OF k]] by auto
  let ?s = "s\<lparr>st_order := tl (st_order s)\<rparr>"
  have "(st_outstanding s)(fs_cmd_id (heap r ! f) := None) = st_outstanding s"
    using known_ready_untracked [OF k lt rf] by (simp add: fun_upd_idem)
  then have run: "Stream_throttle_before_submit K s r = Some ((?s, r), Inr ())"
    using False o(1) f rf by (simp add: Stream_throttle_before_submit_def Let_def)
  have inv: "stream_inv ?s (heap r)" "length (st_order ?s) < DMA_ACCEL_QUEUE_DEPTH"
    using throttle_inv(1,2) [OF knownD(4) [OF k] run] by simp_all
  have "known ?s r" using k inv(1) by (simp add: known_def stream_ok_def)
  moreover have "\<exists>old new. st_order ?s = old @ new \<and> (\<forall>f \<in> set old. fs_ready (heap r ! f))
      \<and> length new \<le> card (sv_waiting (view (world r)))"
    using o f by (intro exI [of _ old'] exI [of _ new]) simp
  ultimately have "passing ?s r" using p by (simp add: passing_def)
  with run inv(2) show ?thesis by (intro that [of ?s]) simp_all
qed

text \<open>A command that is taken in a pass: it uses up one of the room and of the supply.\<close>

lemma command_passing:
  assumes p: "passing s r" and req: "sv_accepts (view (world r)) (request_of bufs c)"
    and room: "0 < sv_room (view (world r))" "0 < sv_supply (view (world r))"
  obtains s' r' f where "run_command K bufs c s r = Some ((s', r'), Inr f)" "passing s' r'"
    "sv_accepts (view (world r')) = sv_accepts (view (world r))"
    "Suc (sv_room (view (world r'))) = sv_room (view (world r))"
    "Suc (sv_supply (view (world r'))) = sv_supply (view (world r))"
    "card (sv_waiting (view (world r'))) = Suc (card (sv_waiting (view (world r))))"
proof -
  let ?V = "view (world r)" and ?req = "request_of bufs c"
  obtain s1 where t: "Stream_throttle_before_submit K s r = Some ((s1, r), Inr ())" and p1: "passing s1 r"
    and len: "length (st_order s1) < DMA_ACCEL_QUEUE_DEPTH" by (rule throttle_passing [OF p room(1)])
  have k: "known s1 r" and none: "pending (world r) = []" using p1 by (simp_all add: passing_def)
  obtain old new where o: "st_order s1 = old @ new" "\<forall>f \<in> set old. fs_ready (heap r ! f)"
    "length new \<le> card (sv_waiting ?V)" using p1 by (auto simp: passing_def)
  from submit_taken [OF knownD(1) [OF k] none req room] obtain w cid where io:
    "ioctl_submit K fd ?req (world r) = Some (w, Inr (?req\<lparr>sub_cmd_id := cid\<rparr>))" "ok w" "pending w = []"
    "cid \<notin> sv_used ?V" and v: "view w = ?V\<lparr>sv_room := sv_room ?V - 1, sv_supply := sv_supply ?V - 1,
       sv_waiting := insert cid (sv_waiting ?V), sv_used := insert cid (sv_used ?V)\<rparr>" by blast
  have new_id: "st_outstanding s1 cid = None"
    using known_tracked(4) [OF k, of cid] io(4) by (cases "st_outstanding s1 cid") auto
  let ?f = "length (heap r)" and ?st = "\<lparr>fs_cmd_id = cid, fs_ready = False, fs_status = 0\<rparr>"
  let ?s = "s1\<lparr>st_outstanding := (st_outstanding s1)(cid \<mapsto> ?f), st_order := st_order s1 @ [?f]\<rparr>"
  let ?r = "r\<lparr>world := w, heap := heap r @ [?st]\<rparr>"
  have run: "run_command K bufs c s r = Some ((?s, ?r), Inr ?f)"
    using t io(1) new_id knownD(2) [OF k]
    by (simp add: run_command_request throttled_submit_def Stream_do_submit_def Let_def)
  have so: "stream_ok ?s (heap ?r)"
    using run_command_ok(1) [OF _ run] p by (simp add: passing_def known_def)
  have fin: "finite (sv_waiting ?V)" "sv_waiting ?V \<subseteq> sv_used ?V" using capacity [OF knownD(1) [OF k]] by simp_all
  then have card: "card (insert cid (sv_waiting ?V)) = Suc (card (sv_waiting ?V))" using io(4) by (auto simp: card_insert_if)
  have old: "fs_cmd_id (heap r ! g) \<noteq> cid" if "g < length (heap r)" for g
    using knownD(6) [OF k] io(4) nth_mem [OF that] by auto
  have ids: "distinct (map fs_cmd_id (heap ?r))" "fs_cmd_id ` set (heap ?r) \<subseteq> insert cid (sv_used ?V)"
    using knownD(5,6) [OF k] io(4) by auto
  have tr: "fs_ready (heap ?r ! g) \<or> st_outstanding ?s (fs_cmd_id (heap ?r ! g)) = Some g" if "g < length (heap ?r)" for g
    using that knownD(7) [OF k, of g] old [of g] by (auto simp: nth_append less_Suc_eq)
  have dom: "dom (st_outstanding ?s) \<subseteq> insert cid (sv_waiting ?V)" using knownD(8) [OF k] none by auto
  have kn: "known ?s ?r" unfolding known_def using io(2,3) knownD(2) [OF k] so ids tr dom by (simp add: v)
  have ord: "\<forall>f \<in> set old. fs_ready (heap ?r ! f)"
    using o(1,2) stream_invD(2) [OF knownD(4) [OF k]] by (auto simp: nth_append)
  have "st_order ?s = old @ new @ [?f] \<and> length (new @ [?f]) \<le> card (sv_waiting (view w))" using o card by (simp add: v)
  then have "\<exists>old new. st_order ?s = old @ new \<and> (\<forall>f \<in> set old. fs_ready (heap ?r ! f))
      \<and> length new \<le> card (sv_waiting (view (world ?r)))" using ord by (intro exI [of _ old] exI [of _ "new @ [?f]"]) simp
  with kn io(3) have "passing ?s ?r" by (simp add: passing_def)
  then show ?thesis using card room by (intro that [OF run]) (simp_all add: v)
qed

text \<open>
  What holds between the steps of a pass: room and supply for all that is not settled, and \<open>A\<close> and
  \<open>n\<close>, the requests and the number of commands that can be in flight, do not change.
\<close>

definition fits :: "(buf_ref \<Rightarrow> Buffer) \<Rightarrow> (dma_accel_submit \<Rightarrow> bool) \<Rightarrow> nat \<Rightarrow> pcmd_heap \<Rightarrow> 'w \<Rightarrow> bool" where
  "fits bufs A n ph w \<longleftrightarrow> sv_accepts (view w) = A \<and> sv_room (view w) + card (sv_waiting (view w)) = n
     \<and> unsettled ph \<le> sv_supply (view w) \<and> (\<forall>st \<in> set ph. A (request_of bufs (pd_submit_fn st)))"

lemma fits_update:
  assumes "fits bufs A n ph w" and "i < length ph" and "unsettled (ph[i := st]) \<le> sv_supply (view w')"
    and "sv_accepts (view w') = sv_accepts (view w)" and "pd_submit_fn st = pd_submit_fn (ph ! i)"
    and "sv_room (view w') + card (sv_waiting (view w')) = sv_room (view w) + card (sv_waiting (view w))"
  shows "fits bufs A n (ph[i := st]) w'"
proof -
  have "A (request_of bufs (pd_submit_fn x))" if "x \<in> set (ph[i := st])" for x
    using that assms(1,2,5) set_update_subset_insert [of ph i st] nth_mem [OF assms(2)] by (auto simp: fits_def)
  then show ?thesis using assms by (simp add: fits_def)
qed

lemma progress_one_passing:
  assumes p: "passing s r" and i: "i < length ph" and fit: "fits bufs A n ph (world r)"
    and room: "unsettled ph \<le> sv_room (view (world r))"
  obtains ph' s' r' where "progress_one K bufs groups i ph s r = Some (ph', (s', r'), Inr ())" "passing s' r'"
    "fits bufs A n ph' (world r')" "unsettled ph' \<le> sv_room (view (world r'))" "length ph' = length ph"
proof (cases "settled (ph ! i)")
  case True
  with p fit room show ?thesis by (intro that [of ph s r]) (simp_all add: progress_one_def Let_def settled_def)
next
  case False
  obtain a b where ev: "eval_deps (heap r) groups ph (ph ! i) = (a, b)" by fastforce
  have less: "unsettled (ph[i := st]) = unsettled ph - 1" "0 < unsettled ph" if "settled st" for st
    using count_if_update_remove [OF i, of "\<lambda>st. \<not> settled st" st] False that count_if_pos_nth [OF i, of "\<lambda>st. \<not> settled st"] by simp_all
  consider "b" | "\<not> b" "a" | "\<not> b" "\<not> a" by blast
  then show ?thesis
  proof cases
    case 1
    let ?st = "(ph ! i)\<lparr>pd_blocked := True\<rparr>"
    have "settled ?st" by (simp add: settled_def)
    note less = less [OF this]
    have "progress_one K bufs groups i ph s r = Some (ph[i := ?st], (s, r), Inr ())"
      using False ev 1 by (simp add: progress_one_def Let_def settled_def)
    moreover have "fits bufs A n (ph[i := ?st]) (world r)"
      using fit less by (intro fits_update [OF fit i]) (auto simp: fits_def)
    ultimately show ?thesis using p room less by (intro that [of "ph[i := ?st]" s r]) simp_all
  next
    case 2
    with p fit room ev False show ?thesis by (intro that [of ph s r]) (simp_all add: progress_one_def Let_def settled_def)
  next
    case 3
    have "\<not> settled (ph ! i)" by (rule False)
    then have pos: "0 < unsettled ph" using count_if_pos_nth [OF i, of "\<lambda>st. \<not> settled st"] by simp
    have acc: "sv_accepts (view (world r)) (request_of bufs (pd_submit_fn (ph ! i)))"
      and sup: "0 < sv_room (view (world r))" "0 < sv_supply (view (world r))"
      using fit room pos i by (auto simp: fits_def)
    obtain s' r' f where c: "run_command K bufs (pd_submit_fn (ph ! i)) s r = Some ((s', r'), Inr f)" "passing s' r'"
      "sv_accepts (view (world r')) = sv_accepts (view (world r))"
      "Suc (sv_room (view (world r'))) = sv_room (view (world r))"
      "Suc (sv_supply (view (world r'))) = sv_supply (view (world r))"
      "card (sv_waiting (view (world r'))) = Suc (card (sv_waiting (view (world r))))"
      by (rule command_passing [OF p acc sup])
    let ?st = "(ph ! i)\<lparr>pd_fence := Some f, pd_submitted := True\<rparr>"
    have "settled ?st" by (simp add: settled_def)
    note less = less [OF this]
    have "progress_one K bufs groups i ph s r = Some (ph[i := ?st], (s', r'), Inr ())"
      using False ev 3 c(1) by (simp add: progress_one_def Let_def settled_def)
    moreover have "fits bufs A n (ph[i := ?st]) (world r')"
      using fit less c(3-6) by (intro fits_update [OF fit i]) (auto simp: fits_def)
    ultimately show ?thesis using c(2,4) room less by (intro that [of "ph[i := ?st]" s' r']) simp_all
  qed
qed

lemma progress_loop_passing:
  assumes "passing s r" and "set is \<subseteq> {..<length ph}" and "fits bufs A n ph (world r)"
    and "unsettled ph \<le> sv_room (view (world r))"
  shows "\<exists>ph' s' r'. progress_loop K bufs groups is ph s r = Some (ph', (s', r'), Inr ()) \<and> passing s' r'
    \<and> fits bufs A n ph' (world r')"
  using assms
proof (induction "is" arbitrary: ph s r)
  case Nil
  then show ?case by simp
next
  case (Cons i "is")
  have i: "i < length ph" using Cons.prems(2) by simp
  obtain ph1 s1 r1 where one: "progress_one K bufs groups i ph s r = Some (ph1, (s1, r1), Inr ())" "passing s1 r1"
    "fits bufs A n ph1 (world r1)" "unsettled ph1 \<le> sv_room (view (world r1))" "length ph1 = length ph"
    by (rule progress_one_passing [OF Cons.prems(1) i Cons.prems(3,4)])
  have "set is \<subseteq> {..<length ph1}" using Cons.prems(2) one(5) by simp
  from Cons.IH [OF one(2) this one(3,4)] one(1) show ?case by simp
qed

text \<open>One round: the device completes what it has, then \<^verbatim>\<open>progress()\<close> is called. It returns, and settles a command.\<close>

lemma progress_round:
  assumes k: "known s r" and dev: "completes (world r) w" and inv: "pc_inv (heap r) groups ph" and dag: "dag_inv ph"
    and reg: "set (de_registry e) = {..<length ph}" and fit: "fits bufs A n ph (world r)" and n: "unsettled ph \<le> n"
  obtains ph' s' r' where "progress K bufs groups e ph s (r\<lparr>world := w\<rparr>) = Some (ph', (s', r'), Inr ())"
    "known s' r'" "fits bufs A n ph' (world r')" "pc_inv (heap r') groups ph'"
    "advance groups (heap r, ph) (heap r', ph')" "unsettled ph' \<le> unsettled ph - 1"
proof -
  let ?r = "r\<lparr>world := w\<rparr>"
  from device_completes [OF knownD(1) [OF k] dev] have d: "ok w"
    "sv_waiting (view (world r)) \<union> pending_ids (pending (world r)) \<subseteq> pending_ids (pending w)"
    "view w = (view (world r))\<lparr>sv_room := sv_room (view (world r)) + card (sv_waiting (view (world r))), sv_waiting := {}\<rparr>"
    by simp_all
  have "dom (st_outstanding s) \<subseteq> pending_ids (pending w)" by (rule subset_trans [OF knownD(8) [OF k] d(2)])
  then have k': "known s ?r" unfolding known_def using d(1) knownD(2-7) [OF k] by (simp add: d(3))
  have "sv_waiting (view (world ?r)) = {}" by (simp add: d(3))
  then obtain s1 r1 where p: "Stream_pump K s ?r = Some ((s1, r1), Inr ())" "passing s1 r1"
    "view (world r1) = view w" "\<And>f. f < length (heap r1) \<Longrightarrow> fs_ready (heap r1 ! f)" "length (heap r1) = length (heap ?r)"
    using pump_passing [OF k'] by auto
  have fit': "fits bufs A n ph (world r1)" and room: "unsettled ph \<le> sv_room (view (world r1))"
    using fit n by (simp_all add: fits_def p(3) d(3))
  from progress_loop_passing [OF p(2) _ fit' room, of "de_registry e" groups] reg obtain ph' s' r' where lp:
    "progress_loop K bufs groups (de_registry e) ph s1 r1 = Some (ph', (s', r'), Inr ())" "passing s' r'"
    "fits bufs A n ph' (world r')" by auto
  have run: "progress K bufs groups e ph s ?r = Some (ph', (s', r'), Inr ())" using p(1) lp(1) by (simp add: progress_def)
  have so: "stream_ok s (heap ?r)" and inv': "pc_inv (heap ?r) groups ph" using knownD(3) [OF k] inv by simp_all
  have "unsettled ph' \<le> unsettled ph - 1" by (rule progress_settles_one [OF so inv' reg run dag p(1,4,5)])
  moreover have "pc_inv (heap r') groups ph'" "advance groups (heap r, ph) (heap r', ph')"
    using progress_step(1) [OF so inv' _ run] reg by simp_all
  ultimately show ?thesis using lp(2,3) by (intro that [OF run]) (simp_all add: passing_def)
qed

end

section \<open>The client\<close>

text \<open>
  A client that calls \<^verbatim>\<open>progress()\<close> \<open>n\<close> times and passes an exception on. \<open>dev\<close> is what happens to the
  kernel's state before each call.
\<close>

primrec serve :: "'w kernel \<Rightarrow> (buf_ref \<Rightarrow> Buffer) \<Rightarrow> (group_ref \<Rightarrow> CommandGroup) \<Rightarrow> DependencyEngine \<Rightarrow> (nat \<Rightarrow> 'w \<Rightarrow> 'w)
    \<Rightarrow> nat \<Rightarrow> pcmd_heap \<Rightarrow> Stream \<Rightarrow> 'w rt \<Rightarrow> (pcmd_heap \<times> ('w, unit) outcome) option" where
  "serve K bufs groups e dev 0 ph s r = Some (ph, (s, r), Inr ())"
| "serve K bufs groups e dev (Suc n) ph s r =
     Option.bind (progress K bufs groups e ph s (r\<lparr>world := dev n (world r)\<rparr>)) (\<lambda>(ph, (s, r), q).
       case q of Inl x \<Rightarrow> Some (ph, (s, r), Inl x) | Inr u \<Rightarrow> serve K bufs groups e dev n ph s r)"

context command_sink
begin

lemma serve_settles:
  assumes "known s r" and "\<And>k w. ok w \<Longrightarrow> completes w (dev k w)" and "pc_inv (heap r) groups ph" and "dag_inv ph"
    and "set (de_registry e) = {..<length ph}" and "fits bufs A n ph (world r)" and "unsettled ph \<le> n"
  shows "\<exists>ph' s' r'. serve K bufs groups e dev m ph s r = Some (ph', (s', r'), Inr ())
    \<and> unsettled ph' \<le> unsettled ph - m \<and> advance groups (heap r, ph) (heap r', ph') \<and> pc_inv (heap r') groups ph'"
  using assms
proof (induction m arbitrary: ph s r)
  case 0
  then show ?case by (simp add: advance_refl)
next
  case (Suc m)
  obtain ph1 s1 r1 where one: "progress K bufs groups e ph s (r\<lparr>world := dev m (world r)\<rparr>) = Some (ph1, (s1, r1), Inr ())"
    "known s1 r1" "fits bufs A n ph1 (world r1)" "pc_inv (heap r1) groups ph1"
    "advance groups (heap r, ph) (heap r1, ph1)" "unsettled ph1 \<le> unsettled ph - 1"
    by (rule progress_round [OF Suc.prems(1) Suc.prems(2) [OF knownD(1) [OF Suc.prems(1)]] Suc.prems(3-7)])
  have reg: "set (de_registry e) = {..<length ph1}" using Suc.prems(5) advanceD(2) [OF one(5)] by simp
  have n: "unsettled ph1 \<le> n" using one(6) Suc.prems(7) by simp
  from Suc.IH [OF one(2) Suc.prems(2) one(4) advance_dag [OF one(5) Suc.prems(4)] reg one(3) n] obtain ph' s' r' where
    "serve K bufs groups e dev m ph1 s1 r1 = Some (ph', (s', r'), Inr ())" "unsettled ph' \<le> unsettled ph1 - m"
    "advance groups (heap r1, ph1) (heap r', ph')" "pc_inv (heap r') groups ph'" by blast
  with one show ?case by (auto intro: advance_trans [OF one(4)])
qed

end

end
