(* ===== verification/Engine_Driver.thy ===== *)
theory Engine_Driver
  imports Engine_Settles Runtime_Driver
begin

text \<open>
  The dependency engine on the driver. A session whose commands all fit into its quota at once gives
  the contract \<open>command_sink\<close>, so a client that keeps calling \<^verbatim>\<open>progress()\<close> gets its whole graph
  of commands settled, whatever the device answers and in whatever order.
\<close>

section \<open>The driver's state as the client sees it\<close>

definition waiting_ids :: "sess_ptr \<Rightarrow> dma_accel_dev \<Rightarrow> u64 set" where
  "waiting_ids p d = cc_cmd_id ` {e \<in> set (cmd_table d). valid_of p e}"

text \<open>How many commands the session can have in flight beside the \<open>m\<close> it has.\<close>

definition session_room :: "sess_ptr \<Rightarrow> dma_accel_dev \<Rightarrow> nat" where
  "session_room p d = nat (min (admission_quota (active_sessions d) - int (count_if (valid_of p) (cmd_table d)))
     (int DMA_ACCEL_QUEUE_DEPTH - total_inflight d))"

definition drv_view :: "sess_ptr \<Rightarrow> drv_world \<Rightarrow> sink_view" where
  "drv_view p w = (let d = kdev (dk w) in
     \<lparr>sv_accepts = (\<lambda>req. \<exists>a. submit_validate p req d = Inr a), sv_room = session_room p d,
      sv_supply = 2 ^ 64 - 1 - unat (next_cmd_id d), sv_waiting = waiting_ids p d, sv_used = {..next_cmd_id d}\<rparr>)"

text \<open>
  The counters agree with the command table and are within their bounds, and the session's ring has
  room for the completions of all its commands. No completion is on its way on its own: the device
  answers when it is asked to.
\<close>

definition sink_ok :: "sess_ptr \<Rightarrow> drv_world \<Rightarrow> bool" where
  "sink_ok p w \<longleftrightarrow> drv_ok p w \<and> dscript w = [] \<and>
     (let d = kdev (dk w); m = count_if (valid_of p) (cmd_table d) in
      wf_dev d \<and> total_inflight d = int (count_if cc_valid (cmd_table d)) \<and> total_inflight d \<le> int DMA_ACCEL_QUEUE_DEPTH
      \<and> inflight (the (sessions (dk w) p)) = int m \<and> int m \<le> admission_quota (active_sessions d)
      \<and> length (drv_pending p w) + m \<le> COMP_RING_SIZE)"

text \<open>The device answers every command of the session that is in flight, once, in any order and with any status.\<close>

definition answers :: "sess_ptr \<Rightarrow> dma_accel_completion list \<Rightarrow> dma_accel_dev \<Rightarrow> bool" where
  "answers p cs d \<longleftrightarrow> distinct (map comp_cmd_id cs) \<and> comp_cmd_id ` set cs = waiting_ids p d"

definition device_answers :: "dma_accel_completion list \<Rightarrow> drv_world \<Rightarrow> drv_world" where
  "device_answers cs w = (case complete_all cs (dk w) of None \<Rightarrow> w | Some k \<Rightarrow> w\<lparr>dk := k\<rparr>)"

lemma sink_okE:
  assumes "sink_ok p w"
  obtains x where "sessions (dk w) p = Some x" "wf_session x" "table_ids_ok (kdev (dk w))" "wf_dev (kdev (dk w))" "dscript w = []"
    "total_inflight (kdev (dk w)) = int (count_if cc_valid (cmd_table (kdev (dk w))))"
    "total_inflight (kdev (dk w)) \<le> int DMA_ACCEL_QUEUE_DEPTH"
    "inflight x = int (count_if (valid_of p) (cmd_table (kdev (dk w))))"
    "int (count_if (valid_of p) (cmd_table (kdev (dk w)))) \<le> admission_quota (active_sessions (kdev (dk w)))"
    "length (unread x) + count_if (valid_of p) (cmd_table (kdev (dk w))) \<le> COMP_RING_SIZE"
  using assms by (auto simp: sink_ok_def drv_ok_def drv_pending_def Let_def split: option.splits)

lemma sink_okI:
  assumes "sessions (dk w) p = Some x" "wf_session x" "table_ids_ok (kdev (dk w))" "wf_dev (kdev (dk w))" "dscript w = []"
    "total_inflight (kdev (dk w)) = int (count_if cc_valid (cmd_table (kdev (dk w))))"
    "total_inflight (kdev (dk w)) \<le> int DMA_ACCEL_QUEUE_DEPTH"
    "inflight x = int (count_if (valid_of p) (cmd_table (kdev (dk w))))"
    "int (count_if (valid_of p) (cmd_table (kdev (dk w)))) \<le> admission_quota (active_sessions (kdev (dk w)))"
    "length (unread x) + count_if (valid_of p) (cmd_table (kdev (dk w))) \<le> COMP_RING_SIZE"
  shows "sink_ok p w"
  using assms by (simp add: sink_ok_def drv_ok_def drv_pending_def Let_def script_ok_def)

text \<open>The identifiers in flight are as many as the entries.\<close>

lemma waiting_nth:
  "c \<in> waiting_ids p d \<longleftrightarrow> (\<exists>j < length (cmd_table d). valid_of p (cmd_table d ! j) \<and> cc_cmd_id (cmd_table d ! j) = c)"
  by (fastforce simp: waiting_ids_def in_set_conv_nth)

lemma waiting_distinct:
  assumes "table_ids_ok d"
  shows "distinct (map cc_cmd_id (filter (valid_of p) (cmd_table d)))"
  using assms
proof (induction "cmd_table d" arbitrary: d)
  case (Cons e es)
  have tl: "table_ids_ok (d\<lparr>cmd_table := es\<rparr>)"
  proof (rule table_ids_okI, goal_cases)
    case (1 i)
    then show ?case using table_ids_okD(1) [OF Cons.prems, of "Suc i"] Cons.hyps(2) [symmetric] by simp
  next
    case (2 i j)
    then show ?case using table_ids_okD(2) [OF Cons.prems, of "Suc i" "Suc j"] Cons.hyps(2) [symmetric] by simp
  qed
  have "cc_cmd_id e \<notin> cc_cmd_id ` {e' \<in> set es. valid_of p e'}" if v: "valid_of p e"
  proof
    assume "cc_cmd_id e \<in> cc_cmd_id ` {e' \<in> set es. valid_of p e'}"
    then obtain j where "j < length es" "valid_of p (es ! j)" "cc_cmd_id (es ! j) = cc_cmd_id e"
      by (auto simp: in_set_conv_nth)
    then show False using table_ids_okD(2) [OF Cons.prems, of 0 "Suc j"] Cons.hyps(2) [symmetric] v
      by (auto simp: valid_of_def)
  qed
  with Cons.hyps(1) [of "d\<lparr>cmd_table := es\<rparr>", OF _ tl] Cons.hyps(2) [symmetric] show ?case by auto
qed simp

lemma waiting_card:
  assumes "table_ids_ok d"
  shows "card (waiting_ids p d) = count_if (valid_of p) (cmd_table d)" and "finite (waiting_ids p d)"
    and "waiting_ids p d \<subseteq> {..next_cmd_id d}"
proof -
  note waiting_distinct [OF assms, of p]
  moreover have "waiting_ids p d = set (map cc_cmd_id (filter (valid_of p) (cmd_table d)))" by (simp add: waiting_ids_def)
  ultimately show "card (waiting_ids p d) = count_if (valid_of p) (cmd_table d)" "finite (waiting_ids p d)"
    by (simp_all only: distinct_card length_map count_if_def finite_set)
  show "waiting_ids p d \<subseteq> {..next_cmd_id d}"
    using table_ids_okD(1) [OF assms] by (auto simp: waiting_nth valid_of_def)
qed

text \<open>Clearing an entry takes its identifier out, filling a free one puts an identifier in.\<close>

lemma waiting_clear:
  assumes ids: "table_ids_ok d" and i: "i < length (cmd_table d)" "cc_valid (cmd_table d ! i)"
    and d': "cmd_table d' = (cmd_table d)[i := (cmd_table d ! i)\<lparr>cc_valid := False\<rparr>]"
  shows "waiting_ids p d' = waiting_ids p d - {cc_cmd_id (cmd_table d ! i)}"
proof (rule set_eqI)
  fix a
  let ?c = "cc_cmd_id (cmd_table d ! i)"
  have "(\<exists>j < length (cmd_table d). valid_of p (cmd_table d' ! j) \<and> cc_cmd_id (cmd_table d' ! j) = a) \<longleftrightarrow>
    (\<exists>j < length (cmd_table d). valid_of p (cmd_table d ! j) \<and> cc_cmd_id (cmd_table d ! j) = a \<and> a \<noteq> ?c)"
    (is "(\<exists>j. ?P j) \<longleftrightarrow> (\<exists>j. ?Q j)")
  proof (rule ex_cong1)
    fix j
    have "cc_cmd_id (cmd_table d ! j) \<noteq> ?c" if "j < length (cmd_table d)" "cc_valid (cmd_table d ! j)" "j \<noteq> i"
      using table_ids_okD(2) [OF ids i that(1,2)] that(3) by auto
    then show "?P j \<longleftrightarrow> ?Q j" using i(1) by (cases "j = i") (auto simp: d' valid_of_def)
  qed
  then show "a \<in> waiting_ids p d' \<longleftrightarrow> a \<in> waiting_ids p d - {?c}" by (simp add: waiting_nth d') blast
qed

lemma waiting_admit:
  assumes "i < length (cmd_table d)" and "\<not> cc_valid (cmd_table d ! i)"
    and d': "cmd_table d' = (cmd_table d)[i := \<lparr>cc_valid = True, cc_cmd_id = c, cc_sess = Some p\<rparr>]"
  shows "waiting_ids p d' = insert c (waiting_ids p d)"
proof -
  let ?t = "cmd_table d" and ?e = "\<lparr>cc_valid = True, cc_cmd_id = c, cc_sess = Some p\<rparr>"
  have "set (?t[i := ?e]) \<subseteq> insert ?e (set ?t)" by (rule set_update_subset_insert)
  moreover have "?e \<in> set (?t[i := ?e])" by (rule set_update_memI [OF assms(1)])
  moreover have "e \<in> set (?t[i := ?e])" if "e \<in> set ?t" "valid_of p e" for e
    using that assms(1,2) by (auto simp: in_set_conv_nth valid_of_def) (metis length_list_update nth_list_update_neq)
  ultimately show ?thesis unfolding waiting_ids_def d' by (force simp: valid_of_def)
qed

section \<open>The device answers\<close>

text \<open>One answer: its entry is cleared, the counters go down, and the completion is appended to the unread ones.\<close>

lemma answer_one:
  assumes ok: "sink_ok p w" and ans: "answers p (c # cs) (kdev (dk w))"
  obtains k' where "isr_completion c (dk w) = Some k'" "sink_ok p (w\<lparr>dk := k'\<rparr>)" "answers p cs (kdev k')"
    "drv_pending p (w\<lparr>dk := k'\<rparr>) = drv_pending p w @ [to_uapi c]"
    "drv_view p (w\<lparr>dk := k'\<rparr>) = (drv_view p w)\<lparr>sv_room := Suc (sv_room (drv_view p w)),
       sv_waiting := sv_waiting (drv_view p w) - {comp_cmd_id c}\<rparr>"
proof -
  let ?k = "dk w" and ?d = "kdev (dk w)" and ?t = "cmd_table (kdev (dk w))"
  from ok obtain x where x: "sessions ?k p = Some x" "wf_session x" "table_ids_ok ?d" "wf_dev ?d" "dscript w = []"
    "total_inflight ?d = int (count_if cc_valid ?t)" "total_inflight ?d \<le> int DMA_ACCEL_QUEUE_DEPTH"
    "inflight x = int (count_if (valid_of p) ?t)" "int (count_if (valid_of p) ?t) \<le> admission_quota (active_sessions ?d)"
    "length (unread x) + count_if (valid_of p) ?t \<le> COMP_RING_SIZE" by (rule sink_okE)
  have "comp_cmd_id a \<in> waiting_ids p ?d" if "a \<in> set (c # cs)" for a using ans that by (auto simp: answers_def)
  then have sc: "script_ok p (c # cs) ?d" using ans by (fastforce simp: answers_def script_ok_def waiting_ids_def)
  obtain i where i: "i < length ?t" "valid_of p (?t ! i)" "cc_cmd_id (?t ! i) = comp_cmd_id c"
    and run: "isr_completion c ?k = Some (?k\<lparr>kdev := total_inflight_dec (?d\<lparr>cmd_table := ?t[i := (?t ! i)\<lparr>cc_valid := False\<rparr>]\<rparr>),
       sessions := (sessions ?k)(p \<mapsto> session_inflight_dec (isr_deliver c x))\<rparr>)" by (rule script_entry [OF x(3) sc x(1)])
  let ?e = "(?t ! i)\<lparr>cc_valid := False\<rparr>" and ?x = "session_inflight_dec (isr_deliver c x)"
  let ?k' = "?k\<lparr>kdev := total_inflight_dec (?d\<lparr>cmd_table := ?t[i := ?e]\<rparr>), sessions := (sessions ?k)(p \<mapsto> ?x)\<rparr>"
  have d': "cmd_table (kdev ?k') = ?t[i := ?e]" "total_inflight (kdev ?k') = total_inflight ?d - 1"
    "buffers (kdev ?k') = buffers ?d" "next_cmd_id (kdev ?k') = next_cmd_id ?d"
    "active_sessions (kdev ?k') = active_sessions ?d" "wf_dev (kdev ?k')"
    using x(4) by (simp_all add: total_inflight_dec_def wf_dev_def)
  have v: "cc_valid (?t ! i)" using i(2) by (simp add: valid_of_def)
  have cnt: "Suc (count_if (valid_of p) (?t[i := ?e])) = count_if (valid_of p) ?t"
    "Suc (count_if cc_valid (?t[i := ?e])) = count_if cc_valid ?t"
    using i v by (auto intro!: count_if_update_remove simp: valid_of_def)
  have wait: "waiting_ids p (kdev ?k') = waiting_ids p ?d - {comp_cmd_id c}"
    using waiting_clear [OF x(3) i(1) v d'(1)] i(3) by simp
  have len: "length (unread x) < COMP_RING_SIZE" using x(10) cnt(1) by linarith
  have un: "unread ?x = unread x @ [c]" using isr_deliver_unread [OF x(2), of c] len by simp
  obtain k'' where "isr_completion c ?k = Some k''" "table_ids_ok (kdev k'')" "sessions k'' p = Some ?x"
    using script_completion [OF x(3) sc x(1)] by blast
  then have ids: "table_ids_ok (kdev ?k')" using run by simp
  have ok': "sink_ok p (w\<lparr>dk := ?k'\<rparr>)"
    by (rule sink_okI [of _ _ ?x]) (use x d' cnt un ids isr_deliver_wf [OF x(2), of c] in \<open>simp_all\<close>)
  have "distinct (map comp_cmd_id cs)" "comp_cmd_id c \<notin> comp_cmd_id ` set cs"
    "insert (comp_cmd_id c) (comp_cmd_id ` set cs) = waiting_ids p ?d" using ans by (simp_all add: answers_def)
  then have "answers p cs (kdev ?k')" unfolding answers_def wait by (metis Diff_insert_absorb)
  moreover have "drv_pending p (w\<lparr>dk := ?k'\<rparr>) = drv_pending p w @ [to_uapi c]" using x(1) un by (simp add: drv_pending_def)
  moreover have "session_room p (kdev ?k') = Suc (session_room p ?d)"
    using x(7,9) cnt(1) by (simp add: session_room_def d'(1,2,5) nat_eq_iff2 Suc_nat_eq_nat_zadd1 min_def)
  then have "drv_view p (w\<lparr>dk := ?k'\<rparr>) = (drv_view p w)\<lparr>sv_room := Suc (sv_room (drv_view p w)),
       sv_waiting := sv_waiting (drv_view p w) - {comp_cmd_id c}\<rparr>"
    using wait d' by (simp add: drv_view_def Let_def submit_validate_def)
  ultimately show ?thesis using run ok' by (intro that [of ?k']) simp_all
qed

lemma complete_answers:
  assumes "sink_ok p w" and "answers p cs (kdev (dk w))"
  shows "\<exists>k. complete_all cs (dk w) = Some k \<and> sink_ok p (w\<lparr>dk := k\<rparr>)
    \<and> drv_pending p (w\<lparr>dk := k\<rparr>) = drv_pending p w @ map to_uapi cs
    \<and> drv_view p (w\<lparr>dk := k\<rparr>) = (drv_view p w)\<lparr>sv_room := sv_room (drv_view p w) + length cs, sv_waiting := {}\<rparr>"
  using assms
proof (induction cs arbitrary: w)
  case Nil
  then have "sv_waiting (drv_view p w) = {}" by (simp add: answers_def drv_view_def Let_def)
  with Nil show ?case by simp
next
  case (Cons c cs)
  obtain k' where k': "isr_completion c (dk w) = Some k'" "sink_ok p (w\<lparr>dk := k'\<rparr>)" "answers p cs (kdev k')"
    "drv_pending p (w\<lparr>dk := k'\<rparr>) = drv_pending p w @ [to_uapi c]"
    "drv_view p (w\<lparr>dk := k'\<rparr>) = (drv_view p w)\<lparr>sv_room := Suc (sv_room (drv_view p w)),
       sv_waiting := sv_waiting (drv_view p w) - {comp_cmd_id c}\<rparr>" by (rule answer_one [OF Cons.prems])
  with Cons.IH [of "w\<lparr>dk := k'\<rparr>"] show ?case by auto
qed

text \<open>After the device has answered, no command is in flight and all completions are unread.\<close>

lemma device_answers_ok:
  assumes ok: "sink_ok p w" and ans: "answers p cs (kdev (dk w))"
  shows "sink_ok p (device_answers cs w)"
    and "sv_waiting (drv_view p w) \<union> pending_ids (drv_pending p w) \<subseteq> pending_ids (drv_pending p (device_answers cs w))"
    and "drv_view p (device_answers cs w) = (drv_view p w)\<lparr>sv_room := sv_room (drv_view p w) + card (sv_waiting (drv_view p w)),
       sv_waiting := {}\<rparr>"
proof -
  from complete_answers [OF assms] obtain k where k: "complete_all cs (dk w) = Some k" "sink_ok p (w\<lparr>dk := k\<rparr>)"
    "drv_pending p (w\<lparr>dk := k\<rparr>) = drv_pending p w @ map to_uapi cs"
    "drv_view p (w\<lparr>dk := k\<rparr>) = (drv_view p w)\<lparr>sv_room := sv_room (drv_view p w) + length cs, sv_waiting := {}\<rparr>" by blast
  have eq: "device_answers cs w = w\<lparr>dk := k\<rparr>" using k(1) by (simp add: device_answers_def)
  have wait: "sv_waiting (drv_view p w) = comp_cmd_id ` set cs" using ans by (simp add: answers_def drv_view_def Let_def)
  have "card (comp_cmd_id ` set cs) = length cs" using ans distinct_card [of "map comp_cmd_id cs"] by (simp add: answers_def)
  with k wait show "sink_ok p (device_answers cs w)"
    "drv_view p (device_answers cs w) = (drv_view p w)\<lparr>sv_room := sv_room (drv_view p w) + card (sv_waiting (drv_view p w)),
       sv_waiting := {}\<rparr>" by (simp_all add: eq)
  show "sv_waiting (drv_view p w) \<union> pending_ids (drv_pending p w) \<subseteq> pending_ids (drv_pending p (device_answers cs w))"
    by (simp add: eq k(3) wait image_Un image_image to_uapi_def)
qed

section \<open>The driver as a sink of commands\<close>

lemma drv_view_dev: "kdev (dk w') = kdev (dk w) \<Longrightarrow> drv_view p w' = drv_view p w"
  by (simp add: drv_view_def)

lemma read_dev: "sys_read (driver_kernel mem fresh) fd n w = (w', x) \<Longrightarrow> kdev (dk w') = kdev (dk w) \<and> dscript w' = dscript w"
  by (auto simp: driver_kernel_def split: option.splits prod.splits)

text \<open>Reading leaves the counters alone and only shortens the unread completions.\<close>

lemma read_sink_ok:
  assumes ok: "sink_ok p w" and n: "0 < n" and run: "sys_read (driver_kernel mem fresh) (int p) n w = (w', y)"
    and d: "drv_ok p w'" and le: "length (drv_pending p w') \<le> length (drv_pending p w)"
  shows "sink_ok p w'"
proof -
  from ok obtain x where x: "sessions (dk w) p = Some x" "wf_session x" by (rule sink_okE)
  obtain x' pos r where c: "dma_accel_chr_read (\<lambda>_. True) (n * sizeof_completion_uapi) 0 x = (x', pos, r)" by (metis prod_cases3)
  have w': "sessions (dk w') p = Some x'" using run c x(1) by (auto simp: driver_kernel_def)
  have "inflight x' = inflight x" using chr_read_session(3) [OF x(2) c] .
  with ok d le w' x(1) read_dev [OF run] show ?thesis by (simp add: sink_ok_def Let_def)
qed

lemma atMost_next:
  fixes n :: u64
  assumes "n \<noteq> - 1"
  shows "{..n + 1} = insert (n + 1) {..n}" and "n + 1 \<notin> {..n}" and "unat (n + 1) = Suc (unat n)"
proof -
  have "1 + n \<noteq> 0" using assms by (metis add_eq_0_iff minus_minus)
  then show u: "unat (n + 1) = Suc (unat n)" by (simp add: unatSuc add.commute [of _ 1])
  then show "n + 1 \<notin> {..n}" by (simp add: word_le_nat_alt)
  have "a \<le> n + 1 \<longleftrightarrow> a = n + 1 \<or> a \<le> n" for a
    using u by (auto simp: word_le_nat_alt word_unat_eq_iff)
  then show "{..n + 1} = insert (n + 1) {..n}" by auto
qed

text \<open>A request that is accepted while the session has room is admitted at once, under the next identifier.\<close>

lemma submit_sink:
  assumes ok: "sink_ok p w" and none: "drv_pending p w = []" and acc: "sv_accepts (drv_view p w) req"
    and room: "0 < sv_room (drv_view p w)" and sup: "0 < sv_supply (drv_view p w)"
  shows "\<exists>w' c. ioctl_submit (driver_kernel mem fresh) (int p) req w = Some (w', Inr (req\<lparr>sub_cmd_id := c\<rparr>))
    \<and> sink_ok p w' \<and> drv_pending p w' = [] \<and> c \<notin> sv_used (drv_view p w)
    \<and> drv_view p w' = (drv_view p w)\<lparr>sv_room := sv_room (drv_view p w) - 1, sv_supply := sv_supply (drv_view p w) - 1,
         sv_waiting := insert c (sv_waiting (drv_view p w)), sv_used := insert c (sv_used (drv_view p w))\<rparr>"
proof -
  let ?d = "kdev (dk w)" and ?t = "cmd_table (kdev (dk w))" and ?c = "next_cmd_id (kdev (dk w)) + 1"
  let ?m = "count_if (valid_of p) ?t" and ?e = "\<lparr>cc_valid = True, cc_cmd_id = ?c, cc_sess = Some p\<rparr>"
  from ok obtain x where x: "sessions (dk w) p = Some x" "wf_session x" "table_ids_ok ?d" "wf_dev ?d" "dscript w = []"
    "total_inflight ?d = int (count_if cc_valid ?t)" "total_inflight ?d \<le> int DMA_ACCEL_QUEUE_DEPTH"
    "inflight x = int ?m" "int ?m \<le> admission_quota (active_sessions ?d)"
    "length (unread x) + ?m \<le> COMP_RING_SIZE" by (rule sink_okE)
  obtain a where v: "submit_validate p req ?d = Inr a" using acc by (auto simp: drv_view_def Let_def)
  have lt: "int ?m < admission_quota (active_sessions ?d)" "total_inflight ?d < int DMA_ACCEL_QUEUE_DEPTH"
    using room by (simp_all add: drv_view_def Let_def session_room_def)
  have adm: "dma_accel_admission_likely_ok (?d, x)" using lt x(8) by (simp add: dma_accel_admission_likely_ok_def)
  have "count_if cc_valid ?t < length ?t" using lt(2) x(4,6) by (simp add: wf_dev_def accel_simps)
  then obtain slot where free: "first_index (\<lambda>c. \<not> cc_valid c) ?t = Some slot" by (rule count_if_lt_lengthE)
  note slot = first_index_SomeD [OF free]
  have nw: "next_cmd_id ?d \<noteq> - 1" using sup by (auto simp: drv_view_def Let_def unsigned_minus_1_eq_mask mask_eq_exp_minus_1)
  let ?w' = "\<lambda>d'. w\<lparr>dk := put_session (dk w) p (d', x\<lparr>inflight := inflight x + 1\<rparr>)\<rparr>"
  obtain d' where io: "ioctl_submit (driver_kernel mem fresh) (int p) req w = Some (?w' d', Inr (req\<lparr>sub_cmd_id := ?c\<rparr>))"
    and d': "next_cmd_id d' = ?c" "total_inflight d' = total_inflight ?d + 1" "cmd_table d' = ?t[slot := ?e]"
    "buffers d' = buffers ?d" "active_sessions d' = active_sessions ?d" "wf_dev d'" "table_ids_ok d'"
    by (rule drv_submit_runs [OF x(1) refl x(4,3) v adm free nw])
  let ?w = "?w' d'"
  have un: "unread (x\<lparr>inflight := inflight x + 1\<rparr>) = []" using none x(1) by (simp add: drv_pending_def unread_def)
  have cnt: "count_if (valid_of p) (cmd_table d') = Suc ?m" "count_if cc_valid (cmd_table d') = Suc (count_if cc_valid ?t)"
    unfolding d'(3) using slot by (auto intro!: count_if_update_add simp: valid_of_def)
  have "int ?m < 16" using lt(1) admission_quota_le [of "active_sessions ?d"] by (simp add: accel_simps)
  then have small: "Suc ?m \<le> COMP_RING_SIZE" by (simp add: accel_simps)
  have ok': "sink_ok p ?w"
    by (rule sink_okI [of _ _ "x\<lparr>inflight := inflight x + 1\<rparr>"])
       (use x d' cnt lt un small in \<open>simp_all add: wf_session_def\<close>)
  have wait: "waiting_ids p d' = insert ?c (waiting_ids p ?d)" by (rule waiting_admit [OF slot d'(3)])
  have "session_room p d' = session_room p ?d - 1" unfolding session_room_def cnt d'(2,5) by linarith
  then have "drv_view p ?w = (drv_view p w)\<lparr>sv_room := sv_room (drv_view p w) - 1, sv_supply := sv_supply (drv_view p w) - 1,
      sv_waiting := insert ?c (sv_waiting (drv_view p w)), sv_used := insert ?c (sv_used (drv_view p w))\<rparr>"
    using wait d'(1,4) atMost_next [OF nw] by (simp add: drv_view_def Let_def submit_validate_def)
  moreover have "drv_pending p ?w = []" using un by (simp add: drv_pending_def)
  moreover have "?c \<notin> sv_used (drv_view p w)" using atMost_next(2) [OF nw] by (simp add: drv_view_def Let_def)
  ultimately show ?thesis using io ok' by blast
qed

interpretation sink: command_sink "driver_kernel mem fresh" "int p" "sink_ok p" "drv_pending p" drv_later "drv_view p"
    "\<lambda>w w'. \<exists>cs. answers p cs (kdev (dk w)) \<and> w' = device_answers cs w"
  for mem :: "(u64 \<times> dma_addr_t) option" and fresh :: "sess_ptr option" and p :: sess_ptr
proof (unfold_locales, goal_cases)
  case (1 w n)
  then show ?case using drv.read_empty by (simp add: sink_ok_def)
next
  case (2 w n)
  then have "drv_ok p w" by (simp add: sink_ok_def)
  from drv.read_some [OF this 2(2,3), of mem fresh] obtain w' where
    r: "sys_read (driver_kernel mem fresh) (int p) n w = (w', Inr (take n (drv_pending p w)))" "drv_ok p w'"
    "drv_pending p w' = drop n (drv_pending p w)" "drv_later w' = drv_later w" by blast
  moreover have "sink_ok p w'" by (rule read_sink_ok [OF 2(1,2) r(1,2)]) (simp add: r(3))
  ultimately show ?case by blast
next
  case (3 w req)
  then show ?case by (rule submit_sink)
next
  case (4 w n w' x)
  then show ?case using read_dev by (intro drv_view_dev) blast
next
  case (5 w)
  from 5 obtain x where "table_ids_ok (kdev (dk w))" "total_inflight (kdev (dk w)) \<le> int DMA_ACCEL_QUEUE_DEPTH"
    "int (count_if (valid_of p) (cmd_table (kdev (dk w)))) \<le> admission_quota (active_sessions (kdev (dk w)))" by (rule sink_okE)
  with waiting_card [OF this(1), of p] admission_quota_le [of "active_sessions (kdev (dk w))"] show ?case
    by (auto simp: drv_view_def Let_def session_room_def)
next
  case (6 w w')
  then show ?case using device_answers_ok by blast
qed

section \<open>The engine on the driver\<close>

text \<open>
  A stream of session \<open>p\<close>: every fence is ready or tracked, under an identifier of its own that the
  driver has given, and a tracked command is at the device or its completion unread.
\<close>

definition stream_known :: "sess_ptr \<Rightarrow> Stream \<Rightarrow> drv_world rt \<Rightarrow> bool" where
  "stream_known p s r \<longleftrightarrow> sink_ok p (world r) \<and> st_fd s = int p \<and> stream_ok s (heap r)
     \<and> distinct (map fs_cmd_id (heap r)) \<and> (\<forall>st \<in> set (heap r). fs_cmd_id st \<le> next_cmd_id (kdev (dk (world r))))
     \<and> (\<forall>f < length (heap r). fs_ready (heap r ! f) \<or> st_outstanding s (fs_cmd_id (heap r ! f)) = Some f)
     \<and> dom (st_outstanding s) \<subseteq> waiting_ids p (kdev (dk (world r))) \<union> pending_ids (drv_pending p (world r))"

lemma stream_known_sink: "stream_known p s r \<longleftrightarrow> sink.known p s r"
  by (auto simp: stream_known_def sink.known_def drv_view_def Let_def)

text \<open>
  C33: the engine serves a whole graph of commands. A client that has registered the commands calls
  \<^verbatim>\<open>progress()\<close> as many times as there are commands, and before each call the device answers what the
  session has in flight, in any order and with any status. When the driver accepts the commands'
  requests, they fit into the session's quota, and the driver's identifiers do not run out: every call
  returns, and afterwards each command has been submitted, with everything it depends on complete with
  \<^verbatim>\<open>DMA_ACCEL_OK\<close>, or is blocked because a dependency has failed; if no fence has failed and no command
  was blocked before, every command has been submitted and \<^verbatim>\<open>fence()\<close> gives its fence.
\<close>

theorem engine_serves_graph:
  assumes start: "stream_known p s r" and graph: "pc_inv (heap r) groups ph" "dag_inv ph" "set (de_registry e) = {..<length ph}"
    and valid: "\<forall>st \<in> set ph. \<exists>a. submit_validate p (request_of bufs (pd_submit_fn st)) (kdev (dk (world r))) = Inr a"
    and room: "unsettled ph \<le> session_room p (kdev (dk (world r))) + card (waiting_ids p (kdev (dk (world r))))"
    and fresh_ids: "unsettled ph \<le> 2 ^ 64 - 1 - unat (next_cmd_id (kdev (dk (world r))))"
    and device: "\<forall>k w. sink_ok p w \<longrightarrow> answers p (cs k w) (kdev (dk w))"
  shows "\<exists>ph' s' r'. serve (driver_kernel mem fresh) bufs groups e (\<lambda>k w. device_answers (cs k w) w) (length ph) ph s r
        = Some (ph', (s', r'), Inr ())
     \<and> (\<forall>i < length ph.
          (pd_submitted (ph' ! i) \<or> pd_blocked (ph' ! i))
        \<and> (\<not> pd_submitted (ph ! i) \<and> pd_submitted (ph' ! i) \<longrightarrow> deps_done (heap r') groups ph' (ph' ! i))
        \<and> (\<not> pd_blocked (ph ! i) \<and> pd_blocked (ph' ! i) \<longrightarrow> dep_failed (heap r') groups ph' (ph' ! i)))
     \<and> ((\<forall>i < length ph. \<not> pd_blocked (ph ! i)) \<and> (\<forall>f < length (heap r'). \<not> fence_failed (heap r') f) \<longrightarrow>
          (\<forall>i < length ph. pd_submitted (ph' ! i) \<and> (\<exists>f. PendingCommand_fence i ph' = Inr f)))"
proof -
  let ?V = "drv_view p (world r)" and ?K = "driver_kernel mem fresh" and ?dev = "\<lambda>k w. device_answers (cs k w) w"
  have fit: "sink.fits p bufs (sv_accepts ?V) (sv_room ?V + card (sv_waiting ?V)) ph (world r)"
    using valid fresh_ids by (simp add: sink.fits_def drv_view_def Let_def)
  have k: "sink.known p s r" using start by (simp add: stream_known_sink)
  have n: "unsettled ph \<le> sv_room ?V + card (sv_waiting ?V)" using room by (simp add: drv_view_def Let_def)
  have d: "\<And>k w. sink_ok p w \<Longrightarrow> \<exists>cs. answers p cs (kdev (dk w)) \<and> ?dev k w = device_answers cs w" using device by blast
  from sink.serve_settles [where dev = ?dev and m = "length ph" and mem = mem and fresh = fresh, OF k d graph fit n] obtain ph' s' r' where
    run: "serve ?K bufs groups e ?dev (length ph) ph s r = Some (ph', (s', r'), Inr ())"
    and left: "unsettled ph' \<le> unsettled ph - length ph" and adv: "advance groups (heap r, ph) (heap r', ph')"
    and inv: "pc_inv (heap r') groups ph'" by blast
  note len = advanceD(2) [OF adv]
  have "unsettled ph' = 0" using left count_if_le_length [of "\<lambda>st. \<not> settled st" ph] by simp
  then have all: "settled (ph' ! i)" if "i < length ph" for i using that len by (auto simp: count_if_zero_iff)
  have "pd_submitted (ph' ! i) \<and> (\<exists>f. PendingCommand_fence i ph' = Inr f)"
    if "\<forall>i < length ph. \<not> pd_blocked (ph ! i)" "\<forall>f < length (heap r'). \<not> fence_failed (heap r') f" "i < length ph" for i
  proof -
    have "\<not> pd_blocked (ph' ! i)"
      using blocked_by_failure [OF adv inv advance_dag [OF adv graph(2)] _ _ that(3)] that(1,2) by blast
    then have "pd_submitted (ph' ! i)" using all [OF that(3)] by (simp add: settled_def)
    then show ?thesis by (simp add: PendingCommand_fence_def)
  qed
  then show ?thesis
    using run all advanceD(6,7) [OF adv] by (intro exI [of _ ph'] exI [of _ s'] exI [of _ r']) (auto simp: settled_def)
qed

text \<open>A device that completes everything well, in the order of the command table.\<close>

definition all_well :: "sess_ptr \<Rightarrow> drv_world \<Rightarrow> dma_accel_completion list" where
  "all_well p w = map (\<lambda>e. \<lparr>comp_cmd_id = cc_cmd_id e, comp_status = DMA_ACCEL_OK, comp_reserved = 0\<rparr>)
     (filter (valid_of p) (cmd_table (kdev (dk w))))"

lemma all_well_answers: "sink_ok p w \<Longrightarrow> answers p (all_well p w) (kdev (dk w))"
  by (erule sink_okE) (simp add: answers_def all_well_def waiting_ids_def comp_def waiting_distinct image_image)

definition demo_stream :: Stream where
  "demo_stream = \<lparr>st_fd = 1, st_outstanding = Map.empty, st_order = []\<rparr>"

definition demo_world :: drv_world where
  "demo_world = start_world run_setup []"

lemma demo_sink_ok: "sink_ok 1 demo_world"
proof -
  let ?w = demo_world
  have "sessions (dk ?w) 1 = Some (the (sessions (dk ?w) 1))" by (rule is_some_the) code_simp
  moreover have "wf_session (the (sessions (dk ?w) 1))" "table_ids_ok (kdev (dk ?w))" "wf_dev (kdev (dk ?w))"
    "total_inflight (kdev (dk ?w)) = int (count_if cc_valid (cmd_table (kdev (dk ?w))))"
    "total_inflight (kdev (dk ?w)) \<le> int DMA_ACCEL_QUEUE_DEPTH"
    "inflight (the (sessions (dk ?w) 1)) = int (count_if (valid_of 1) (cmd_table (kdev (dk ?w))))"
    "int (count_if (valid_of 1) (cmd_table (kdev (dk ?w)))) \<le> admission_quota (active_sessions (kdev (dk ?w)))"
    "length (unread (the (sessions (dk ?w) 1))) + count_if (valid_of 1) (cmd_table (kdev (dk ?w))) \<le> COMP_RING_SIZE"
    by code_simp+
  moreover have "dscript ?w = []" by (simp add: demo_world_def start_world_def)
  ultimately show ?thesis by - (rule sink_okI)
qed

theorem engine_serves_graph_witness:
  "\<exists>ph s r. serve (driver_kernel None None) (\<lambda>_. some_buffer) (\<lambda>_. CommandGroup_new 0) demo_engine
       (\<lambda>k w. device_answers (all_well 1 w) w) 2 [demo_pending [], demo_pending [0]] demo_stream
       \<lparr>world = demo_world, heap = []\<rparr> = Some (ph, (s, r), Inr ())
     \<and> (pd_submitted (ph ! 1) \<or> pd_blocked (ph ! 1))
     \<and> (pd_submitted (ph ! 1) \<longrightarrow> deps_done (heap r) (\<lambda>_. CommandGroup_new 0) ph (ph ! 1))"
proof -
  let ?ph = "[demo_pending [], demo_pending [0]]" and ?r = "\<lparr>world = demo_world, heap = []\<rparr>" and ?d = "kdev (dk demo_world)"
  have known: "stream_known 1 demo_stream ?r"
    using demo_sink_ok by (auto simp: stream_known_def demo_stream_def stream_ok_def stream_inv_def)
  have inv: "pc_inv (heap ?r) (\<lambda>_. CommandGroup_new 0) ?ph" and reg: "set (de_registry demo_engine) = {..<length ?ph}"
    using demo_start(2) by (auto simp: demo_engine_def)
  have "\<exists>a. submit_validate 1 (request_of (\<lambda>_. some_buffer) (Submit OPCODE_COPY 0 0 0 64 64)) ?d = Inr a"
    by (rule exI [of _ "(0x2000, 0x2040, 0)"]) code_simp
  then have valid: "\<forall>st \<in> set ?ph. \<exists>a. submit_validate 1 (request_of (\<lambda>_. some_buffer) (pd_submit_fn st)) (kdev (dk (world ?r))) = Inr a"
    by (simp add: demo_pending_def)
  have "session_room 1 ?d = 16" "next_cmd_id ?d = 1" by code_simp+
  then have room: "unsettled ?ph \<le> session_room 1 (kdev (dk (world ?r))) + card (waiting_ids 1 (kdev (dk (world ?r))))"
    "unsettled ?ph \<le> 2 ^ 64 - 1 - unat (next_cmd_id (kdev (dk (world ?r))))" by (simp_all add: demo_pending_def settled_def)
  have "\<forall>k w. sink_ok 1 w \<longrightarrow> answers 1 (all_well 1 w) (kdev (dk w))" by (simp add: all_well_answers)
  from engine_serves_graph [OF known inv demo_dag reg valid room, of "\<lambda>k. all_well 1", OF this, of None None]
  obtain ph s r where run: "serve (driver_kernel None None) (\<lambda>_. some_buffer) (\<lambda>_. CommandGroup_new 0) demo_engine
      (\<lambda>k w. device_answers (all_well 1 w) w) (length ?ph) ?ph demo_stream ?r = Some (ph, (s, r), Inr ())"
    and all: "\<forall>i < length ?ph. (pd_submitted (ph ! i) \<or> pd_blocked (ph ! i))
      \<and> (\<not> pd_submitted (?ph ! i) \<and> pd_submitted (ph ! i) \<longrightarrow> deps_done (heap r) (\<lambda>_. CommandGroup_new 0) ph (ph ! i))" by blast
  from all [rule_format, of 1] run show ?thesis
    by (intro exI [of _ ph] exI [of _ s] exI [of _ r]) (simp add: demo_pending_def numeral_2_eq_2)
qed

end
