(* ===== verification/Stream_Observer.thy ===== *)
theory Stream_Observer
  imports Runtime_Driver
begin

text \<open>
  \<^verbatim>\<open>StreamObserver\<close> (\<^verbatim>\<open>track-c/runtime/dma_accel_stream_observer.hpp/.cpp\<close>): non-blocking and bounded
  observation of a fence. The observer holds nothing but the stream it is bound to, which is passed
  with the runtime state.
\<close>

section \<open>Operations\<close>

datatype WaitResult = Completed | Pending

definition observer_result :: "('w, bool) outcome \<Rightarrow> ('w, WaitResult) outcome" where
  "observer_result x = (case x of (sr, q) \<Rightarrow>
     (sr, map_sum id (\<lambda>done. if done then Completed else Pending) q))"

definition StreamObserver_query :: "'w kernel \<Rightarrow> fence \<Rightarrow> Stream \<Rightarrow> 'w rt \<Rightarrow> ('w, WaitResult) outcome option" where
  "StreamObserver_query K f s r =
     Option.bind (Stream_pump K s r) (\<lambda>((s, r), q).
       Some ((s, r), map_sum id (\<lambda>_. if Fence_is_ready (heap r) f then Completed else Pending) q))"

text \<open>\<^verbatim>\<open>static_cast<int>\<close> of a 64-bit count: the low 32 bits, read as a signed number.\<close>

definition to_int :: "int \<Rightarrow> int" where
  "to_int n = sint (word_of_int n :: 32 word)"

definition StreamObserver_wait :: "'w kernel \<Rightarrow> fence \<Rightarrow> int \<Rightarrow> Stream \<Rightarrow> 'w rt \<Rightarrow> ('w, WaitResult) outcome option" where
  "StreamObserver_wait K f timeout s r = map_option observer_result (Stream_wait K f (to_int timeout) s r)"

definition StreamObserver_wait_forever :: "'w kernel \<Rightarrow> fence \<Rightarrow> Stream \<Rightarrow> 'w rt \<Rightarrow> ('w, WaitResult) outcome option" where
  "StreamObserver_wait_forever K f s r = map_option observer_result (Stream_wait K f (- 1) s r)"

section \<open>Properties\<close>

lemma to_int_id: "- (2 ^ 31) \<le> n \<Longrightarrow> n < 2 ^ 31 \<Longrightarrow> to_int n = n"
  by (simp add: to_int_def sint_sbintrunc' signed_take_bit_int_eq_self)

text \<open>
  C34: what the observer reports is the state of the fence. \<^verbatim>\<open>query()\<close> and both \<^verbatim>\<open>wait()\<close>s return
  \<^verbatim>\<open>Completed\<close> exactly if the fence is ready when they return, and leave the stream's bookkeeping
  consistent; and on the driver the unbounded \<^verbatim>\<open>wait()\<close> for a fence whose completion is still to come
  returns, with \<^verbatim>\<open>Completed\<close> and the status the device posted.
\<close>

theorem observer_truth:
  assumes inv: "stream_inv s (heap r)"
  shows "(StreamObserver_query K f s r = Some ((s', r'), Inr v) \<longrightarrow>
            (v = Completed \<longleftrightarrow> Fence_is_ready (heap r') f) \<and> stream_inv s' (heap r'))
     \<and> (StreamObserver_wait K f t s r = Some ((s', r'), Inr v) \<longrightarrow>
            (v = Completed \<longleftrightarrow> Fence_is_ready (heap r') f) \<and> stream_inv s' (heap r'))
     \<and> (drv_ok p (world q) \<and> st_fd s = int p \<and> heap q = heap r \<and> f < length (heap r) \<and> \<not> fs_ready (heap r ! f)
          \<and> st_outstanding s (fs_cmd_id (heap r ! f)) = Some f
          \<and> map_option ucomp_status (find (\<lambda>x. ucomp_cmd_id x = fs_cmd_id (heap r ! f))
               (drv_pending p (world q) @ drv_later (world q))) = Some st \<longrightarrow>
          (\<exists>s' q'. StreamObserver_wait_forever (driver_kernel mem fresh) f s q = Some ((s', q'), Inr Completed)
             \<and> Fence_status (heap q') f = Inr st))"
proof (intro conjI impI; (elim conjE)?)
  assume run: "StreamObserver_query K f s r = Some ((s', r'), Inr v)"
  then obtain x where p: "Stream_pump K s r = Some ((s', r'), x)"
    by (auto simp: StreamObserver_query_def split: Option.bind_splits)
  show "v = Completed \<longleftrightarrow> Fence_is_ready (heap r') f"
    using run p by (cases x) (auto simp: StreamObserver_query_def split: if_splits)
  show "stream_inv s' (heap r')" using rt_le_inv [OF _ inv] pump_le [OF p] by simp
next
  assume run: "StreamObserver_wait K f t s r = Some ((s', r'), Inr v)"
  then obtain x where w: "Stream_wait K f (to_int t) s r = Some ((s', r'), x)"
    by (auto simp: StreamObserver_wait_def observer_result_def)
  note le = Stream_wait_le [OF w]
  show "v = Completed \<longleftrightarrow> Fence_is_ready (heap r') f"
    using run w le by (cases x) (auto simp: StreamObserver_wait_def observer_result_def Fence_is_ready_def split: if_splits)
  show "stream_inv s' (heap r')" using rt_le_inv [OF _ inv] le by simp
next
  assume ok: "drv_ok p (world q)" and fd: "st_fd s = int p" and h: "heap q = heap r" "f < length (heap r)" "\<not> fs_ready (heap r ! f)"
    and out: "st_outstanding s (fs_cmd_id (heap r ! f)) = Some f"
    and due: "map_option ucomp_status (find (\<lambda>x. ucomp_cmd_id x = fs_cmd_id (heap r ! f))
               (drv_pending p (world q) @ drv_later (world q))) = Some st"
  have "drv.will_finish p f st s q" using h out due by (simp add: drv.will_finish_def)
  then have "\<exists>s' q'. Stream_wait (driver_kernel mem fresh) f (- 1) s q = Some ((s', q'), Inr True)
      \<and> fs_ready (heap q' ! f) \<and> fs_status (heap q' ! f) = st"
    by (intro drv.wait_returns [OF ok fd]) (use inv h(1) in simp_all)
  then obtain s' q' where
    "Stream_wait (driver_kernel mem fresh) f (- 1) s q = Some ((s', q'), Inr True)" "fs_ready (heap q' ! f)"
    "fs_status (heap q' ! f) = st" by blast
  then show "\<exists>s' q'. StreamObserver_wait_forever (driver_kernel mem fresh) f s q = Some ((s', q'), Inr Completed)
      \<and> Fence_status (heap q') f = Inr st"
    by (auto simp: StreamObserver_wait_forever_def observer_result_def Fence_status_def)
qed

theorem observer_truth_witness:
  "StreamObserver_query counting_kernel 0 empty_stream \<lparr>world = 0, heap = [\<lparr>fs_cmd_id = 1, fs_ready = True, fs_status = 0\<rparr>]\<rparr>
     = Some ((empty_stream, \<lparr>world = 0, heap = [\<lparr>fs_cmd_id = 1, fs_ready = True, fs_status = 0\<rparr>]\<rparr>), Inr Completed)
   \<and> Fence_is_ready [\<lparr>fs_cmd_id = 1, fs_ready = True, fs_status = 0\<rparr>] 0"
proof -
  let ?r = "\<lparr>world = (0 :: u64), heap = [\<lparr>fs_cmd_id = 1, fs_ready = True, fs_status = 0\<rparr>]\<rparr>"
  have run: "StreamObserver_query counting_kernel 0 empty_stream ?r = Some ((empty_stream, ?r), Inr Completed)"
    by (simp add: StreamObserver_query_def Stream_pump.simps counting_kernel_def Fence_is_ready_def)
  have "stream_inv empty_stream (heap ?r)" by (rule stream_inv_empty)
  from observer_truth [OF this, of counting_kernel 0 empty_stream ?r Completed] run show ?thesis by simp
qed

text \<open>
  The timeout of the bounded \<^verbatim>\<open>wait()\<close> passes through an \<^verbatim>\<open>int\<close>. For every number of milliseconds
  that fits, the deadline is that many milliseconds away; one past the largest, about 24.9 days, the
  bounded wait is the unbounded one, and twice that it polls without waiting at all.
\<close>

theorem observer_timeout_wraps:
  "(- (2 ^ 31) \<le> t \<and> t < 2 ^ 31 \<longrightarrow>
      StreamObserver_wait K f t s r = map_option observer_result (Stream_wait K f t s r))
   \<and> StreamObserver_wait K f (2 ^ 31) s r = map_option observer_result (Stream_wait K f (- (2 ^ 31)) s r)
   \<and> Stream_wait K f (- (2 ^ 31)) s r = Stream_wait K f (- 1) s r
   \<and> StreamObserver_wait K f (2 ^ 31) s r = StreamObserver_wait_forever K f s r
   \<and> StreamObserver_wait K f (2 ^ 32) s r = StreamObserver_wait K f 0 s r"
proof -
  have w: "to_int 2147483648 = - 2147483648" "to_int 4294967296 = 0" "to_int 0 = 0"
    by (simp_all add: to_int_def)
  have neg: "Stream_wait K f (- (2 ^ 31)) s r = Stream_wait K f (- 1) s r" by (simp add: Stream_wait_def)
  show ?thesis
    using neg by (simp add: StreamObserver_wait_def StreamObserver_wait_forever_def w to_int_id)
qed

theorem observer_timeout_wraps_witness:
  "StreamObserver_wait counting_kernel 0 1000 empty_stream \<lparr>world = 0, heap = []\<rparr>
     = map_option observer_result (Stream_wait counting_kernel 0 1000 empty_stream \<lparr>world = 0, heap = []\<rparr>)"
  using observer_timeout_wraps [of 1000 counting_kernel 0 empty_stream "\<lparr>world = 0, heap = []\<rparr>"] by simp

end
