(* ===== verification/Buffer_Pool.thy ===== *)
theory Buffer_Pool
  imports Runtime "HOL-Library.Multiset"
begin

text \<open>
  \<^verbatim>\<open>BufferPool\<close> and \<^verbatim>\<open>PooledBuffer\<close> (\<^verbatim>\<open>track-c/runtime/dma_accel_buffer_pool.hpp/.cpp\<close>): a fixed number of
  buffers allocated once and lent out through move-only handles. A \<^verbatim>\<open>Buffer *\<close> into the pool's storage is
  an index; the free list is a vector used as a stack, its top last.
\<close>

section \<open>The pool\<close>

record BufferPool =
  bp_buffers :: "Buffer list"
  bp_free :: "nat list"

text \<open>
  The allocation loop of the constructor. If an allocation throws, the buffers obtained so far are
  destroyed, which unmaps them.
\<close>

primrec pool_alloc :: "'w kernel \<Rightarrow> Stream \<Rightarrow> u32 \<Rightarrow> nat \<Rightarrow> Buffer list \<Rightarrow> 'w \<Rightarrow> 'w \<times> (exn + Buffer list)" where
  "pool_alloc K s sz 0 bs w = (w, Inr bs)"
| "pool_alloc K s sz (Suc n) bs w =
     (case Stream_alloc_buffer K s sz w of
        (w, Inl e) \<Rightarrow> (fold (\<lambda>b w. snd (Buffer_reset K b w)) bs w, Inl e)
      | (w, Inr b) \<Rightarrow> pool_alloc K s sz n (bs @ [b]) w)"

definition BufferPool_new :: "'w kernel \<Rightarrow> Stream \<Rightarrow> u32 \<Rightarrow> u32 \<Rightarrow> 'w \<Rightarrow> 'w \<times> (exn + BufferPool)" where
  "BufferPool_new K s buffer_size n w =
     (case pool_alloc K s buffer_size (unat n) [] w of
        (w, Inl e) \<Rightarrow> (w, Inl e)
      | (w, Inr bs) \<Rightarrow> (w, Inr \<lparr>bp_buffers = bs, bp_free = [0..<length bs]\<rparr>))"

definition capacity :: "BufferPool \<Rightarrow> nat" where
  "capacity p = length (bp_buffers p)"

definition available :: "BufferPool \<Rightarrow> nat" where
  "available p = length (bp_free p)"

definition checked_out :: "BufferPool \<Rightarrow> nat" where
  "checked_out p = capacity p - available p"

definition BufferPool_release :: "nat \<Rightarrow> BufferPool \<Rightarrow> BufferPool" where
  "BufferPool_release b p = p\<lparr>bp_free := bp_free p @ [b]\<rparr>"

section \<open>The handle\<close>

text \<open>\<open>pb_pool\<close>: whether \<^verbatim>\<open>pool_\<close> is set; it can only point to the pool the handle came from.\<close>

record PooledBuffer =
  pb_pool :: bool
  pb_buffer :: "nat option"

definition PooledBuffer_null :: PooledBuffer where
  "PooledBuffer_null = \<lparr>pb_pool = False, pb_buffer = None\<rparr>"

definition BufferPool_acquire :: "BufferPool \<Rightarrow> BufferPool \<times> PooledBuffer option" where
  "BufferPool_acquire p =
     (if bp_free p = [] then (p, None)
      else (p\<lparr>bp_free := butlast (bp_free p)\<rparr>, Some \<lparr>pb_pool = True, pb_buffer = Some (last (bp_free p))\<rparr>))"

definition PooledBuffer_move :: "PooledBuffer \<Rightarrow> PooledBuffer \<times> PooledBuffer" where
  "PooledBuffer_move other = (other, PooledBuffer_null)"

definition release_if_held :: "PooledBuffer \<Rightarrow> BufferPool \<Rightarrow> BufferPool \<times> PooledBuffer" where
  "release_if_held h p =
     (case pb_buffer h of
        Some b \<Rightarrow> (if pb_pool h then BufferPool_release b p else p, PooledBuffer_null)
      | None \<Rightarrow> (p, PooledBuffer_null))"

definition PooledBuffer_assign :: "bool \<Rightarrow> PooledBuffer \<Rightarrow> PooledBuffer \<Rightarrow> BufferPool
    \<Rightarrow> BufferPool \<times> PooledBuffer \<times> PooledBuffer" where
  "PooledBuffer_assign same this other p =
     (if same then (p, this, other)
      else (fst (release_if_held this p), other, PooledBuffer_null))"

definition PooledBuffer_destroy :: "PooledBuffer \<Rightarrow> BufferPool \<Rightarrow> BufferPool" where
  "PooledBuffer_destroy h p = fst (release_if_held h p)"

section \<open>What a client can do\<close>

text \<open>A pool and the handles that exist; each operation on them is a step.\<close>

inductive pool_step :: "BufferPool \<times> PooledBuffer list \<Rightarrow> BufferPool \<times> PooledBuffer list \<Rightarrow> bool" where
  acquire: "BufferPool_acquire p = (p', Some h) \<Longrightarrow> pool_step (p, hs) (p', hs @ [h])"
| exhausted: "BufferPool_acquire p = (p', None) \<Longrightarrow> pool_step (p, hs) (p', hs)"
| move: "i < length hs \<Longrightarrow> PooledBuffer_move (hs ! i) = (h, h') \<Longrightarrow> pool_step (p, hs) (p, hs[i := h'] @ [h])"
| self_assign: "i < length hs \<Longrightarrow> PooledBuffer_assign True (hs ! i) (hs ! i) p = (p', h, h') \<Longrightarrow>
    pool_step (p, hs) (p', hs[i := h])"
| assign: "i < length hs \<Longrightarrow> j < length hs \<Longrightarrow> i \<noteq> j \<Longrightarrow> PooledBuffer_assign False (hs ! i) (hs ! j) p = (p', h, h') \<Longrightarrow>
    pool_step (p, hs) (p', hs[i := h, j := h'])"
| destroy: "pool_step (p, xs @ h # ys) (PooledBuffer_destroy h p, xs @ ys)"

inductive_cases pool_stepE: "pool_step (p, hs) s'"

definition held :: "PooledBuffer \<Rightarrow> nat multiset" where
  "held h = (if pb_pool h then (case pb_buffer h of Some b \<Rightarrow> {#b#} | None \<Rightarrow> {#}) else {#})"

definition all_held :: "PooledBuffer list \<Rightarrow> nat multiset" where
  "all_held hs = sum_list (map held hs)"

text \<open>Every buffer is in the free list or held by exactly one handle.\<close>

definition pool_inv :: "BufferPool \<times> PooledBuffer list \<Rightarrow> bool" where
  "pool_inv x \<longleftrightarrow> mset (bp_free (fst x)) + all_held (snd x) = mset [0..<capacity (fst x)]"

lemma all_held_simps [simp]:
  "all_held [] = {#}" "all_held (h # hs) = held h + all_held hs" "all_held (xs @ ys) = all_held xs + all_held ys"
  by (simp_all add: all_held_def)

lemma held_null [simp]: "held PooledBuffer_null = {#}"
  by (simp add: held_def PooledBuffer_null_def)

lemma all_held_update: "i < length hs \<Longrightarrow> all_held (hs[i := h]) + held (hs ! i) = all_held hs + held h"
proof (induction hs arbitrary: i)
  case (Cons x xs)
  then show ?case by (cases i) (auto simp: ac_simps)
qed simp

lemma two_held:
  assumes "i < length hs" and "j < length hs" and "i \<noteq> j"
  shows "held (hs ! i) + held (hs ! j) \<subseteq># all_held hs"
proof -
  let ?hs = "hs[i := PooledBuffer_null]"
  have "all_held ?hs + held (hs ! i) = all_held hs"
    using all_held_update [OF assms(1), of PooledBuffer_null] by simp
  moreover have "all_held (?hs[j := PooledBuffer_null]) + held (hs ! j) = all_held ?hs"
    using all_held_update [of j ?hs PooledBuffer_null] assms by simp
  ultimately have "all_held hs = held (hs ! i) + held (hs ! j) + all_held (?hs[j := PooledBuffer_null])"
    by (metis add.assoc add.commute)
  then show ?thesis by simp
qed

lemma release_if_held_free:
  "mset (bp_free (fst (release_if_held h p))) = mset (bp_free p) + held h"
  "capacity (fst (release_if_held h p)) = capacity p" "snd (release_if_held h p) = PooledBuffer_null"
  by (auto simp: release_if_held_def BufferPool_release_def held_def capacity_def split: option.split)

lemma acquire_free:
  assumes "BufferPool_acquire p = (p', x)"
  shows "capacity p' = capacity p"
    and "mset (bp_free p') + (case x of Some h \<Rightarrow> held h | None \<Rightarrow> {#}) = mset (bp_free p)"
proof -
  have "mset (butlast xs) + {#last xs#} = mset xs" if "xs \<noteq> []" for xs :: "nat list"
    using that append_butlast_last_id [OF that] by (metis mset.simps mset_append add_mset_add_single)
  with assms show "capacity p' = capacity p"
    "mset (bp_free p') + (case x of Some h \<Rightarrow> held h | None \<Rightarrow> {#}) = mset (bp_free p)"
    by (auto simp: BufferPool_acquire_def capacity_def held_def split: if_splits)
qed

lemma pool_inv_step:
  assumes "pool_step x y" and "pool_inv x"
  shows "pool_inv y \<and> capacity (fst y) = capacity (fst x)"
  using assms
proof (induction rule: pool_step.induct)
  case (acquire p p' h hs)
  then show ?case using acquire_free [OF acquire(1)] by (simp add: pool_inv_def ac_simps)
next
  case (exhausted p p' hs)
  then show ?case using acquire_free [OF exhausted(1)] by (simp add: pool_inv_def)
next
  case (move i hs h h' p)
  have "all_held (hs[i := h']) + held h = all_held hs"
    using all_held_update [OF move(1), of h'] move(2) by (auto simp: PooledBuffer_move_def)
  then show ?case using move(3) by (simp add: pool_inv_def)
next
  case (self_assign i hs p p' h h')
  then show ?case by (auto simp: PooledBuffer_assign_def)
next
  case (assign i hs j p p' h h')
  note rel = release_if_held_free [of "hs ! i" p]
  have x: "h = hs ! j" "h' = PooledBuffer_null" "p' = fst (release_if_held (hs ! i) p)"
    using assign(4) by (auto simp: PooledBuffer_assign_def)
  have i: "all_held (hs[i := h]) + held (hs ! i) = all_held hs + held (hs ! j)"
    using all_held_update [OF assign(1), of h] by (simp add: x)
  have j: "all_held (hs[i := h, j := h']) + held (hs ! j) = all_held (hs[i := h])"
    using all_held_update [of j "hs[i := h]" h'] assign(2,3) by (simp add: x)
  have "all_held (hs[i := h, j := h']) + held (hs ! i) + held (hs ! j) = all_held hs + held (hs ! j)"
    using i j by (simp add: ac_simps)
  then have k: "all_held hs = held (hs ! i) + all_held (hs[i := h, j := h'])" by (simp add: ac_simps)
  from assign(5) have "mset (bp_free p) + all_held hs = mset [0..<capacity p]" by (simp add: pool_inv_def)
  then show ?case unfolding k by (simp add: pool_inv_def rel x(3) add.assoc)
next
  case (destroy p xs h ys)
  then show ?case
    using release_if_held_free [of h p] by (simp add: pool_inv_def PooledBuffer_destroy_def ac_simps)
qed

lemma pool_alloc_length:
  "pool_alloc K s sz n bs w = (w', Inr bs') \<Longrightarrow> length bs' = length bs + n"
  by (induction n arbitrary: bs w) (auto split: prod.splits sum.splits)

lemma pool_inv_new:
  "BufferPool_new K s sz n w = (w', Inr p) \<Longrightarrow> pool_inv (p, []) \<and> capacity p = unat n"
  using pool_alloc_length [of K s sz "unat n" "[]" w]
  by (auto simp: BufferPool_new_def pool_inv_def capacity_def split: prod.splits sum.splits)

section \<open>Property\<close>

text \<open>
  C35: a pool never lends the same buffer twice and never loses one. After any sequence of
  acquisitions, moves, assignments and destructions on a freshly built pool, two handles that hold
  a buffer hold different ones, none of them is in the free list, the buffers lent out and the free
  ones are together the \<^verbatim>\<open>count\<close> buffers of the constructor, \<^verbatim>\<open>checked_out()\<close> is the number of handles
  that hold one, and \<^verbatim>\<open>acquire()\<close> comes back empty exactly when all are lent out.
\<close>

theorem pool_lends_exclusively:
  assumes "BufferPool_new K s sz n w = (w', Inr p0)" and "pool_step\<^sup>*\<^sup>* (p0, []) (p, hs)"
  shows "(i < length hs \<and> j < length hs \<and> i \<noteq> j \<longrightarrow> held (hs ! i) \<inter># held (hs ! j) = {#})
     \<and> set (bp_free p) \<inter> set_mset (all_held hs) = {} \<and> distinct (bp_free p)
     \<and> set (bp_free p) \<union> set_mset (all_held hs) = {..<unat n}
     \<and> checked_out p = size (all_held hs)
     \<and> (snd (BufferPool_acquire p) = None \<longleftrightarrow> size (all_held hs) = unat n)"
proof -
  have "pool_inv (p, hs) \<and> capacity p = unat n"
    using assms(2) pool_inv_new [OF assms(1)]
    by (induction rule: rtranclp_induct2) (auto dest: pool_inv_step)
  then have eq: "mset (bp_free p) + all_held hs = mset [0..<unat n]" and cap: "capacity p = unat n"
    by (simp_all add: pool_inv_def)
  have cnt: "count (mset (bp_free p)) b + count (all_held hs) b \<le> 1" for b
    using arg_cong [OF eq, of "\<lambda>m. count m b"] distinct_count_atmost_1 [of "[0..<unat n]"] by simp
  have len: "length (bp_free p) + size (all_held hs) = unat n"
    using arg_cong [OF eq, of size] by simp
  show ?thesis
  proof (intro conjI impI; (elim conjE)?)
    assume ij: "i < length hs" "j < length hs" "i \<noteq> j"
    have two: "held (hs ! i) + held (hs ! j) \<subseteq># all_held hs" by (rule two_held [OF ij])
    show "held (hs ! i) \<inter># held (hs ! j) = {#}"
    proof (rule multiset_eqI)
      fix b
      have "count (held (hs ! i)) b + count (held (hs ! j)) b \<le> 1"
        using mset_subset_eq_count [OF two, of b] cnt [of b] by simp
      then show "count (held (hs ! i) \<inter># held (hs ! j)) b = count {#} b" by auto
    qed
  next
    show "set (bp_free p) \<inter> set_mset (all_held hs) = {}"
    proof (rule equals0I)
      fix b assume "b \<in> set (bp_free p) \<inter> set_mset (all_held hs)"
      then have "0 < count (mset (bp_free p)) b" "0 < count (all_held hs) b" by simp_all
      with cnt [of b] show False by simp
    qed
    have "count (mset (bp_free p)) b = (if b \<in> set (bp_free p) then 1 else 0)" for b
    proof (cases "b \<in> set (bp_free p)")
      case True
      then have "0 < count (mset (bp_free p)) b" by simp
      then have "count (mset (bp_free p)) b = 1" using cnt [of b] by linarith
      with True show ?thesis by simp
    qed (simp add: count_eq_zero_iff)
    then show "distinct (bp_free p)" unfolding distinct_count_atmost_1 by blast
    show "set (bp_free p) \<union> set_mset (all_held hs) = {..<unat n}"
      using arg_cong [OF eq, of set_mset] by (simp add: lessThan_atLeast0)
    show "checked_out p = size (all_held hs)" using len cap by (simp add: checked_out_def available_def)
    show "snd (BufferPool_acquire p) = None \<longleftrightarrow> size (all_held hs) = unat n"
      using len by (auto simp: BufferPool_acquire_def)
  qed
qed

text \<open>A kernel that hands out numbered buffers.\<close>

definition alloc_kernel :: "nat kernel" where
  "alloc_kernel = \<lparr>sys_open = (\<lambda>path w. (w, Inr 3)), sys_close = (\<lambda>fd w. w),
     ioctl_buffer_alloc = (\<lambda>fd req w. (Suc w, Inr (req\<lparr>ba_buffer_id := of_nat w\<rparr>))),
     ioctl_submit = (\<lambda>fd req w. None), sys_mmap = (\<lambda>fd len off w. (w, Inr 0x7000)), sys_munmap = (\<lambda>a len w. w),
     sys_read = (\<lambda>fd n w. (w, Inl EAGAIN)), sys_poll = (\<lambda>fd t w. None), clock_now = (\<lambda>w. (w, 0))\<rparr>"

theorem pool_lends_exclusively_witness:
  "\<exists>p0 p h. BufferPool_new alloc_kernel \<lparr>st_fd = 3, st_outstanding = Map.empty, st_order = []\<rparr> 4096 2 0 = (2, Inr p0)
     \<and> pool_step\<^sup>*\<^sup>* (p0, []) (p, [h]) \<and> checked_out p = 1"
proof -
  let ?new = "BufferPool_new alloc_kernel \<lparr>st_fd = 3, st_outstanding = Map.empty, st_order = []\<rparr> 4096 2 0"
  have "case ?new of (w, Inr p) \<Rightarrow> w = 2 \<and> bp_free p = [0, 1] | _ \<Rightarrow> False" by code_simp
  then obtain p0 where new: "?new = (2, Inr p0)" "bp_free p0 = [0, 1]" by (auto split: prod.splits sum.splits)
  let ?p = "p0\<lparr>bp_free := [0]\<rparr>" and ?h = "\<lparr>pb_pool = True, pb_buffer = Some 1\<rparr>"
  have "BufferPool_acquire p0 = (?p, Some ?h)" using new(2) by (simp add: BufferPool_acquire_def)
  then have "pool_step (p0, []) (?p, [] @ [?h])" by (rule pool_step.acquire)
  then have run: "pool_step\<^sup>*\<^sup>* (p0, []) (?p, [?h])" by simp
  from pool_lends_exclusively [OF new(1) run] have "checked_out ?p = size (all_held [?h])" by blast
  then have "checked_out ?p = 1" by (simp add: held_def)
  with new(1) run show ?thesis by blast
qed

end
