(* ===== verification/Gemm.thy ===== *)
theory Gemm
  imports Accel_Prelude
begin

text \<open>
  The arithmetic of the GEMM programs (\<^verbatim>\<open>track-a/dma_accel_gemm_stage1/2/3.cpp\<close>): the loops over
  row-major arrays, the fill of the tiles with their zero padding, the accumulation over K-tiles and
  the untiled reference. Indices are natural numbers (the \<^verbatim>\<open>uint32_t\<close> products of the sources stay far
  below \<open>2 ^ 32\<close>) and the elements integers: all inputs are small non-negative integers, and
  \<open>matmul_exact\<close> bounds every sum, so that each \<^verbatim>\<open>float\<close> of the programs is exact.
\<close>

section \<open>Loops over arrays\<close>

text \<open>\<^verbatim>\<open>for (j = 0; j < n; ++j) c[base + j] = f(j, c[base + j])\<close>\<close>

definition row_loop :: "nat \<Rightarrow> nat \<Rightarrow> (nat \<Rightarrow> 'a \<Rightarrow> 'a) \<Rightarrow> 'a list \<Rightarrow> 'a list" where
  "row_loop base n f c = fold (\<lambda>j c. c[base + j := f j (c ! (base + j))]) [0..<n] c"

lemma row_loop_length [simp]: "length (row_loop base n f c) = length c"
  by (induction n) (simp_all add: row_loop_def)

lemma row_loop_nth:
  "row_loop base n f c ! i = (if base \<le> i \<and> i < base + n \<and> i < length c then f (i - base) (c ! i) else c ! i)"
proof (induction n arbitrary: i)
  case 0
  then show ?case by (auto simp: row_loop_def)
next
  case (Suc n)
  have "row_loop base (Suc n) f c = (row_loop base n f c)[base + n := f n (row_loop base n f c ! (base + n))]"
    by (simp add: row_loop_def)
  then show ?case using Suc.IH by (auto simp: nth_update_if less_Suc_eq row_loop_length)
qed

text \<open>\<^verbatim>\<open>dst[r * stride + c] = v(r, c)\<close> for all \<open>r < rows\<close>, \<open>c < cols\<close>.\<close>

definition fill :: "nat \<Rightarrow> nat \<Rightarrow> nat \<Rightarrow> (nat \<Rightarrow> nat \<Rightarrow> int) \<Rightarrow> int list \<Rightarrow> int list" where
  "fill rows cols stride v dst = fold (\<lambda>r dst. row_loop (r * stride) cols (\<lambda>c _. v r c) dst) [0..<rows] dst"

text \<open>\<^verbatim>\<open>c[r * N + col] += a[r * K + k] * b[k * N + col]\<close> for all \<open>r < M\<close>, \<open>k < K\<close>, \<open>col < N\<close>, in that nesting.\<close>

definition gemm_loops :: "nat \<Rightarrow> nat \<Rightarrow> nat \<Rightarrow> int list \<Rightarrow> int list \<Rightarrow> int list \<Rightarrow> int list" where
  "gemm_loops M K N a b c =
     fold (\<lambda>r c. fold (\<lambda>k c. let a_rk = a ! (r * K + k)
                            in row_loop (r * N) N (\<lambda>col x. x + a_rk * b ! (k * N + col)) c) [0..<K] c) [0..<M] c"

text \<open>Row \<open>r\<close> of a row-major array with rows of length \<open>s\<close>.\<close>

lemma row_index:
  assumes "j < (s :: nat)"
  shows "(r' * s \<le> r * s + j \<and> r * s + j < r' * s + s) \<longleftrightarrow> r' = r"
proof
  assume h: "r' * s \<le> r * s + j \<and> r * s + j < r' * s + s"
  have "r' * s < (r + 1) * s" using h assms by simp
  then have "r' < r + 1" using mult_less_cancel2 by blast
  moreover have "r * s < (r' + 1) * s" using h by simp
  then have "r < r' + 1" using mult_less_cancel2 by blast
  ultimately show "r' = r" by simp
qed (use assms in simp)

lemma fill_length [simp]: "length (fill rows cols s v dst) = length dst"
  by (induction rows) (simp_all add: fill_def)

lemma fill_nth:
  assumes "j < s" and "cols \<le> s" and "r * s + j < length dst"
  shows "fill rows cols s v dst ! (r * s + j) = (if r < rows \<and> j < cols then v r j else dst ! (r * s + j))"
proof (induction rows)
  case 0
  then show ?case by (simp add: fill_def)
next
  case (Suc n)
  let ?d = "fill n cols s v dst"
  have step: "fill (Suc n) cols s v dst = row_loop (n * s) cols (\<lambda>c _. v n c) ?d" by (simp add: fill_def)
  have "n * s \<le> r * s + j \<and> r * s + j < n * s + cols \<longleftrightarrow> n = r \<and> j < cols"
    using row_index [OF assms(1), of n r] assms(2) by auto
  then show ?case unfolding step row_loop_nth using Suc.IH assms(3) by (auto simp: less_Suc_eq)
qed

text \<open>The two inner loops, for one row of the result.\<close>

definition gemm_row :: "nat \<Rightarrow> nat \<Rightarrow> nat \<Rightarrow> int list \<Rightarrow> int list \<Rightarrow> nat \<Rightarrow> int list \<Rightarrow> int list" where
  "gemm_row N base K as b aoff c =
     fold (\<lambda>k c. let a_rk = as ! (aoff + k)
                 in row_loop base N (\<lambda>col x. x + a_rk * b ! (k * N + col)) c) [0..<K] c"

lemma gemm_row_Suc:
  "gemm_row N base (Suc K) as b aoff c =
     row_loop base N (\<lambda>col x. x + as ! (aoff + K) * b ! (K * N + col)) (gemm_row N base K as b aoff c)"
  by (simp add: gemm_row_def Let_def)

lemma gemm_row_length [simp]: "length (gemm_row N base K as b aoff c) = length c"
  by (induction K) (simp_all add: gemm_row_Suc, simp add: gemm_row_def)

lemma gemm_row_nth:
  assumes "i < length c"
  shows "gemm_row N base K as b aoff c ! i
    = (if base \<le> i \<and> i < base + N then c ! i + (\<Sum>k<K. as ! (aoff + k) * b ! (k * N + (i - base))) else c ! i)"
proof (induction K)
  case 0
  then show ?case by (simp add: gemm_row_def)
next
  case (Suc K)
  show ?case
    unfolding gemm_row_Suc row_loop_nth gemm_row_length Suc.IH using assms by (simp only: sum.lessThan_Suc) auto
qed

lemma gemm_loops_row: "gemm_loops M K N a b c = fold (\<lambda>r. gemm_row N (r * N) K a b (r * K)) [0..<M] c"
  by (simp add: gemm_loops_def gemm_row_def [abs_def])

lemma gemm_loops_length [simp]: "length (gemm_loops M K N a b c) = length c"
  by (induction M) (simp_all add: gemm_loops_row)

lemma gemm_loops_nth:
  assumes "j < N" and "r * N + j < length c"
  shows "gemm_loops M K N a b c ! (r * N + j) =
    (if r < M then c ! (r * N + j) + (\<Sum>k<K. a ! (r * K + k) * b ! (k * N + j)) else c ! (r * N + j))"
proof (induction M)
  case 0
  then show ?case by (simp add: gemm_loops_def)
next
  case (Suc n)
  let ?c = "gemm_loops n K N a b c"
  have step: "gemm_loops (Suc n) K N a b c = gemm_row N (n * N) K a b (n * K) ?c"
    by (simp add: gemm_loops_row)
  have len: "r * N + j < length ?c" using assms(2) by simp
  have idx: "n * N \<le> r * N + j \<and> r * N + j < n * N + N \<longleftrightarrow> n = r" by (rule row_index [OF assms(1)])
  show ?case
    unfolding step gemm_row_nth [OF len] using Suc.IH idx by (auto simp: less_Suc_eq)
qed

section \<open>The matrices and the reference\<close>

definition kTile :: nat where [accel_simps]: "kTile = 128"

definition a_value :: "nat \<Rightarrow> nat \<Rightarrow> int" where
  "a_value global_row global_col = int ((global_row * 3 + global_col) mod 7)"

definition b_value :: "nat \<Rightarrow> nat \<Rightarrow> int" where
  "b_value global_row global_col = int ((global_row + global_col * 5) mod 11)"

definition reference_gemm :: "nat \<Rightarrow> nat \<Rightarrow> nat \<Rightarrow> int list" where
  "reference_gemm M K N =
     (let a = fill M K K a_value (replicate (M * K) 0);
          b = fill K N N b_value (replicate (K * N) 0)
      in gemm_loops M K N a b (replicate (M * N) 0))"

text \<open>The mathematical product.\<close>

definition matmul :: "nat \<Rightarrow> nat \<Rightarrow> nat \<Rightarrow> int" where
  "matmul K r c = (\<Sum>k<K. a_value r k * b_value k c)"

lemma index_bound: "r < m \<Longrightarrow> j < n \<Longrightarrow> r * n + j < m * (n :: nat)"
  by (metis add.commute add_mono_thms_linordered_field(1) less_Suc_eq_le mult.commute mult_Suc_right mult_le_mono1
      nat_add_left_cancel_less Suc_leI order_less_le_trans)

lemma reference_gemm_nth:
  assumes "r < M" and "c < N"
  shows "reference_gemm M K N ! (r * N + c) = matmul K r c"
proof -
  let ?a = "fill M K K a_value (replicate (M * K) 0)" and ?b = "fill K N N b_value (replicate (K * N) 0)"
  have rc: "r * N + c < M * N" by (rule index_bound [OF assms])
  have "?a ! (r * K + k) * ?b ! (k * N + c) = a_value r k * b_value k c" if "k < K" for k
    using fill_nth [of k K K r "replicate (M * K) 0" M a_value] fill_nth [of c N N k "replicate (K * N) 0" K b_value]
      index_bound [OF assms(1) that] index_bound [OF that assms(2)] that assms by simp
  then have "(\<Sum>k<K. ?a ! (r * K + k) * ?b ! (k * N + c)) = matmul K r c" by (simp add: matmul_def)
  then show ?thesis
    using gemm_loops_nth [OF assms(2), of r "replicate (M * N) 0" M K ?a ?b] rc assms(1)
    by (simp add: reference_gemm_def)
qed

lemma reference_gemm_matmul: "reference_gemm M K N = map (\<lambda>i. matmul K (i div N) (i mod N)) [0..<M * N]"
proof (rule nth_equalityI)
  fix i assume "i < length (reference_gemm M K N)"
  then have i: "i < M * N" by (simp add: reference_gemm_def)
  then have "i div N < M" "i mod N < N" by (simp add: less_mult_imp_div_less) (use i in \<open>cases N; simp\<close>)
  from reference_gemm_nth [OF this] i show "reference_gemm M K N ! i = map (\<lambda>i. matmul K (i div N) (i mod N)) [0..<M * N] ! i"
    by simp
qed (simp add: reference_gemm_def)

text \<open>Every element, and every partial sum on the way to it, is an integer below \<open>60 * K\<close>.\<close>

lemma matmul_exact: "0 \<le> matmul K r c \<and> matmul K r c \<le> 60 * int K"
proof -
  have "0 \<le> a_value r k * b_value k c \<and> a_value r k * b_value k c \<le> 60" for k
  proof -
    have "a_value r k \<le> 6" "b_value k c \<le> 10" "0 \<le> a_value r k" "0 \<le> b_value k c"
      by (simp_all add: a_value_def b_value_def)
    then show ?thesis using mult_mono [of "a_value r k" 6 "b_value k c" 10] by simp
  qed
  then show ?thesis
    using sum_bounded_above [of "{..<K}" "\<lambda>k. a_value r k * b_value k c" 60]
    by (auto simp: matmul_def intro: sum_nonneg)
qed

section \<open>Tiles\<close>

text \<open>The \<^verbatim>\<open>uint32_t\<close> arithmetic of the tile grid, with its wrap-around.\<close>

definition ceil_div :: "nat \<Rightarrow> nat \<Rightarrow> nat" where
  "ceil_div a b = ((a + b - 1) mod 2 ^ 32) div b"

definition valid_extent :: "nat \<Rightarrow> nat \<Rightarrow> nat" where
  "valid_extent t dim = min kTile ((dim + 2 ^ 32 - (t * kTile) mod 2 ^ 32) mod 2 ^ 32)"

definition memset0 :: "int list \<Rightarrow> int list" where
  "memset0 dst = replicate (length dst) 0"

text \<open>Stage 1: one tile per row block of A and per column block of B.\<close>

definition a_fill1 :: "nat \<Rightarrow> int list \<Rightarrow> int list" where
  "a_fill1 ti dst = fill kTile kTile kTile (\<lambda>r k. a_value (ti * kTile + r) k) dst"

definition b_fill1 :: "nat \<Rightarrow> int list \<Rightarrow> int list" where
  "b_fill1 tj dst = fill kTile kTile kTile (\<lambda>k c. b_value k (tj * kTile + c)) dst"

text \<open>Stage 2: a grid of full tiles.\<close>

definition a_fill2 :: "nat \<Rightarrow> nat \<Rightarrow> int list \<Rightarrow> int list" where
  "a_fill2 ti tk dst = fill kTile kTile kTile (\<lambda>r k. a_value (ti * kTile + r) (tk * kTile + k)) dst"

definition b_fill2 :: "nat \<Rightarrow> nat \<Rightarrow> int list \<Rightarrow> int list" where
  "b_fill2 tk tj dst = fill kTile kTile kTile (\<lambda>k c. b_value (tk * kTile + k) (tj * kTile + c)) dst"

text \<open>Stage 3: a tile is cleared first and only its valid part is filled.\<close>

definition a_fill3 :: "nat \<Rightarrow> nat \<Rightarrow> nat \<Rightarrow> nat \<Rightarrow> int list \<Rightarrow> int list" where
  "a_fill3 M K ti tk dst =
     fill (valid_extent ti M) (valid_extent tk K) kTile
       (\<lambda>r k. a_value (ti * kTile + r) (tk * kTile + k)) (memset0 dst)"

definition b_fill3 :: "nat \<Rightarrow> nat \<Rightarrow> nat \<Rightarrow> nat \<Rightarrow> int list \<Rightarrow> int list" where
  "b_fill3 K N tk tj dst =
     fill (valid_extent tk K) (valid_extent tj N) kTile
       (\<lambda>k c. b_value (tk * kTile + k) (tj * kTile + c)) (memset0 dst)"

text \<open>A tile of C: the contributions of all K-tiles. Stage 1 has exactly one.\<close>

definition c_tile :: "nat \<Rightarrow> (nat \<Rightarrow> int list) \<Rightarrow> (nat \<Rightarrow> int list) \<Rightarrow> int list \<Rightarrow> int list" where
  "c_tile kKTiles a_data b_data c_data =
     fold (\<lambda>tk c. gemm_loops kTile kTile kTile (a_data tk) (b_data tk) c) [0..<kKTiles] (memset0 c_data)"

text \<open>
  The comparison: the first differing element in loop order, as its tile and its place in the tile.
  The flag \<^verbatim>\<open>ok\<close> leaves all four loops at the first mismatch.
\<close>

definition first_mismatch :: "nat \<Rightarrow> nat \<Rightarrow> nat \<Rightarrow> (nat \<Rightarrow> nat) \<Rightarrow> (nat \<Rightarrow> nat) \<Rightarrow> int list list \<Rightarrow> int list
    \<Rightarrow> (nat \<times> nat \<times> nat \<times> nat) option" where
  "first_mismatch kMTiles kNTiles kN valid_rows valid_cols c_tiles reference =
     find (\<lambda>(ti, tj, r, c). c_tiles ! (ti * kNTiles + tj) ! (r * kTile + c)
                            \<noteq> reference ! ((ti * kTile + r) * kN + (tj * kTile + c)))
       [(ti, tj, r, c). ti \<leftarrow> [0..<kMTiles], tj \<leftarrow> [0..<kNTiles], r \<leftarrow> [0..<valid_rows ti], c \<leftarrow> [0..<valid_cols tj]]"

section \<open>A tiling computes the product\<close>

lemma memset0_length [simp]: "length (memset0 d) = length d"
  by (simp add: memset0_def)

lemma c_tile_length [simp]: "length (c_tile kt a b c) = length c"
  by (induction kt) (simp_all add: c_tile_def)

lemma c_tile_nth:
  assumes "r < kTile" and "j < kTile" and "length c = kTile * kTile"
  shows "c_tile kt a b c ! (r * kTile + j) = (\<Sum>tk<kt. \<Sum>k<kTile. a tk ! (r * kTile + k) * b tk ! (k * kTile + j))"
proof (induction kt)
  case 0
  show ?case using index_bound [OF assms(1,2)] assms(3) by (simp add: c_tile_def memset0_def)
next
  case (Suc n)
  have "c_tile (Suc n) a b c = gemm_loops kTile kTile kTile (a n) (b n) (c_tile n a b c)" by (simp add: c_tile_def)
  moreover have "r * kTile + j < length (c_tile n a b c)" using index_bound [OF assms(1,2)] assms(3) by simp
  ultimately show ?case using gemm_loops_nth [OF assms(2)] assms(1) Suc.IH by simp
qed

lemma c_tile_cong:
  "(\<And>tk. tk < kt \<Longrightarrow> a tk = a' tk) \<Longrightarrow> (\<And>tk. tk < kt \<Longrightarrow> b tk = b' tk) \<Longrightarrow> c_tile kt a b c = c_tile kt a' b' c"
  by (induction kt) (simp_all add: c_tile_def)

text \<open>What the fill of the tiles promises: the element of the matrix, or zero outside it.\<close>

locale tiling =
  fixes M K N kMTiles kKTiles kNTiles :: nat
    and a_at b_at :: "nat \<Rightarrow> nat \<Rightarrow> int list \<Rightarrow> int list"
    and valid_rows valid_cols :: "nat \<Rightarrow> nat"
  assumes k_covered: "K \<le> kKTiles * kTile"
    and rows: "ti < kMTiles \<Longrightarrow> valid_rows ti \<le> kTile \<and> ti * kTile + valid_rows ti \<le> M"
    and cols: "tj < kNTiles \<Longrightarrow> valid_cols tj \<le> kTile \<and> tj * kTile + valid_cols tj \<le> N"
    and a_tile: "ti < kMTiles \<Longrightarrow> tk < kKTiles \<Longrightarrow> r < kTile \<Longrightarrow> k < kTile \<Longrightarrow> length d = kTile * kTile \<Longrightarrow>
        a_at ti tk d ! (r * kTile + k) =
          (if ti * kTile + r < M \<and> tk * kTile + k < K then a_value (ti * kTile + r) (tk * kTile + k) else 0)"
    and b_tile: "tk < kKTiles \<Longrightarrow> tj < kNTiles \<Longrightarrow> k < kTile \<Longrightarrow> c < kTile \<Longrightarrow> length d = kTile * kTile \<Longrightarrow>
        b_at tk tj d ! (k * kTile + c) =
          (if tk * kTile + k < K \<and> tj * kTile + c < N then b_value (tk * kTile + k) (tj * kTile + c) else 0)"
begin

text \<open>Whatever the mappings held before, an element of a C tile that is in the matrix is the product's.\<close>

lemma c_tile_product:
  assumes "ti < kMTiles" "tj < kNTiles" "r < kTile" "c < kTile" "ti * kTile + r < M" "tj * kTile + c < N"
    and len: "\<And>i j. length (da i j) = kTile * kTile" "\<And>i j. length (db i j) = kTile * kTile" "length dc = kTile * kTile"
  shows "c_tile kKTiles (\<lambda>tk. a_at ti tk (da ti tk)) (\<lambda>tk. b_at tk tj (db tk tj)) dc ! (r * kTile + c)
    = matmul K (ti * kTile + r) (tj * kTile + c)" (is "?lhs = _")
proof -
  define f where "f k = (if k < K then a_value (ti * kTile + r) k * b_value k (tj * kTile + c) else 0)" for k
  have "?lhs = (\<Sum>tk<kKTiles. \<Sum>k<kTile. f (tk * kTile + k))"
    unfolding c_tile_nth [OF assms(3,4) len(3)] using assms by (intro sum.cong) (simp_all add: a_tile b_tile f_def)
  also have "\<dots> = (\<Sum>tk<kKTiles. sum f {tk * kTile..<tk * kTile + kTile})"
    using sum.shift_bounds_nat_ivl [of f 0 "_ * kTile" kTile] by (simp add: add.commute lessThan_atLeast0)
  also have "\<dots> = sum f {..<kKTiles * kTile}" by (rule sum.nat_group)
  also have "\<dots> = sum f {..<K}" using k_covered by (intro sum.mono_neutral_right) (auto simp: f_def)
  also have "\<dots> = matmul K (ti * kTile + r) (tj * kTile + c)" by (simp add: f_def matmul_def)
  finally show ?thesis .
qed

text \<open>So the comparison with the untiled reference finds nothing.\<close>

lemma no_mismatch:
  assumes len: "\<And>i. length (da i) = kTile * kTile" "\<And>i. length (db i) = kTile * kTile" "\<And>i. length (dc i) = kTile * kTile"
    and a: "\<And>ti tk. ti < kMTiles \<Longrightarrow> tk < kKTiles \<Longrightarrow> a_tiles ti tk = a_at ti tk (da (ti * kKTiles + tk))"
    and b: "\<And>tk tj. tk < kKTiles \<Longrightarrow> tj < kNTiles \<Longrightarrow> b_tiles tk tj = b_at tk tj (db (tk * kNTiles + tj))"
    and c: "\<And>ti tj. ti < kMTiles \<Longrightarrow> tj < kNTiles \<Longrightarrow> c_tiles ! (ti * kNTiles + tj) =
        c_tile kKTiles (a_tiles ti) (\<lambda>tk. b_tiles tk tj) (dc (ti * kNTiles + tj))"
  shows "first_mismatch kMTiles kNTiles N valid_rows valid_cols c_tiles (reference_gemm M K N) = None"
proof -
  have "c_tiles ! (ti * kNTiles + tj) ! (r * kTile + col) = reference_gemm M K N ! ((ti * kTile + r) * N + (tj * kTile + col))"
    if h: "ti < kMTiles" "tj < kNTiles" "r < valid_rows ti" "col < valid_cols tj" for ti tj r col
  proof -
    have i: "r < kTile" "col < kTile" "ti * kTile + r < M" "tj * kTile + col < N"
      using h rows [OF h(1)] cols [OF h(2)] by linarith+
    have "c_tiles ! (ti * kNTiles + tj) = c_tile kKTiles (\<lambda>tk. a_at ti tk (da (ti * kKTiles + tk)))
        (\<lambda>tk. b_at tk tj (db (tk * kNTiles + tj))) (dc (ti * kNTiles + tj))"
      unfolding c [OF h(1,2)] by (intro c_tile_cong) (simp_all add: a [OF h(1)] b [OF _ h(2)])
    then show ?thesis
      using c_tile_product [OF h(1,2) i, of "\<lambda>i j. da (i * kKTiles + j)" "\<lambda>i j. db (i * kNTiles + j)"] len
        reference_gemm_nth [OF i(3,4)] by simp
  qed
  then show ?thesis by (auto simp: first_mismatch_def find_None_iff)
qed

end

section \<open>The three stages\<close>

lemma full_fill_nth:
  "r < kTile \<Longrightarrow> j < kTile \<Longrightarrow> length d = kTile * kTile \<Longrightarrow> fill kTile kTile kTile v d ! (r * kTile + j) = v r j"
  using fill_nth [of j kTile kTile r d kTile v] index_bound [of r kTile j kTile] by simp

text \<open>Stage 1: 256 x 128 by 128 x 256; stage 2: K is 256 as well.\<close>

lemma full_tile: "ti < 2 \<Longrightarrow> r < kTile \<Longrightarrow> ti * kTile + r < 256"
  by (simp add: kTile_def)

interpretation stage1: tiling 256 128 256 2 1 2 "\<lambda>ti tk. a_fill1 ti" "\<lambda>tk tj. b_fill1 tj" "\<lambda>_. kTile" "\<lambda>_. kTile"
  by unfold_locales (simp_all add: a_fill1_def b_fill1_def full_fill_nth full_tile, simp_all add: kTile_def)

interpretation stage2: tiling 256 256 256 2 2 2 a_fill2 b_fill2 "\<lambda>_. kTile" "\<lambda>_. kTile"
  by unfold_locales (simp_all add: a_fill2_def b_fill2_def full_fill_nth full_tile, simp_all add: kTile_def)

text \<open>Stage 3: dimensions that no tile divides, far enough below \<open>2 ^ 32\<close>.\<close>

lemma ceil_div_covers: "a + b < 2 ^ 32 \<Longrightarrow> 0 < b \<Longrightarrow> a \<le> ceil_div a b * b"
proof -
  assume h: "a + b < 2 ^ 32" "0 < b"
  have q: "ceil_div a b = (a + b - 1) div b" using h by (simp add: ceil_div_def)
  have "(a + b - 1) mod b < b" using h(2) by simp
  then show ?thesis unfolding q using div_mult_mod_eq [of "a + b - 1" b] by linarith
qed

lemma ceil_div_start:
  assumes "t < ceil_div a b" and "a + b < 2 ^ 32" and "0 < b"
  shows "t * b < a"
proof -
  have "Suc t * b \<le> ceil_div a b * b" using assms(1) by (intro mult_le_mono1) simp
  also have "\<dots> \<le> a + b - 1" using assms(2,3) by (simp add: ceil_div_def)
  finally show ?thesis using assms(3) by simp
qed

lemma valid_extent_eq:
  assumes "t < ceil_div dim kTile" and "dim + kTile < 2 ^ 32"
  shows "valid_extent t dim = min kTile (dim - t * kTile)"
proof -
  have lt: "t * kTile < dim" by (rule ceil_div_start [OF assms]) (simp add: kTile_def)
  then have "(t * kTile) mod 2 ^ 32 = t * kTile" using assms(2) by simp
  moreover have "(dim + 2 ^ 32 - t * kTile) mod 2 ^ 32 = dim - t * kTile"
    using lt assms(2) by (simp add: mod_if)
  ultimately show ?thesis by (simp add: valid_extent_def)
qed

lemma padded_fill_nth:
  assumes "r < kTile" "j < kTile" "length d = kTile * kTile" "cols \<le> kTile"
  shows "fill rows cols kTile v (memset0 d) ! (r * kTile + j) = (if r < rows \<and> j < cols then v r j else 0)"
  using fill_nth [of j kTile cols r "memset0 d" rows v] index_bound [OF assms(1,2)] assms
  by (simp add: memset0_def)

locale padded =
  fixes M K N :: nat
  assumes bounds: "M + kTile < 2 ^ 32" "K + kTile < 2 ^ 32" "N + kTile < 2 ^ 32"
begin

lemma extent_iff:
  assumes "t < ceil_div dim kTile" "dim + kTile < 2 ^ 32" "r < kTile"
  shows "r < valid_extent t dim \<longleftrightarrow> t * kTile + r < dim"
  using assms(3) unfolding valid_extent_eq [OF assms(1,2)] by auto

lemma extent_le:
  assumes "t < ceil_div dim kTile" "dim + kTile < 2 ^ 32"
  shows "valid_extent t dim \<le> kTile \<and> t * kTile + valid_extent t dim \<le> dim"
proof -
  have "t * kTile < dim" by (rule ceil_div_start [OF assms]) (simp add: kTile_def)
  then show ?thesis unfolding valid_extent_eq [OF assms] by simp
qed

lemmas extents = extent_le [OF _ bounds(1)] extent_le [OF _ bounds(2)] extent_le [OF _ bounds(3)]
  extent_iff [OF _ bounds(1)] extent_iff [OF _ bounds(2)] extent_iff [OF _ bounds(3)]

end

sublocale padded \<subseteq> pad: tiling M K N "ceil_div M kTile" "ceil_div K kTile" "ceil_div N kTile"
  "a_fill3 M K" "b_fill3 K N" "\<lambda>ti. valid_extent ti M" "\<lambda>tj. valid_extent tj N"
proof
  show "K \<le> ceil_div K kTile * kTile" using ceil_div_covers [OF bounds(2)] by (simp add: kTile_def)
qed (simp_all add: a_fill3_def b_fill3_def padded_fill_nth extents)

interpretation stage3: padded 300 200 260
  by unfold_locales (simp_all add: kTile_def)

end
