(* ===== verification/Gemm_Programs.thy ===== *)
theory Gemm_Programs
  imports Gemm Context_Driver
begin

text \<open>
  The three GEMM programs on the runtime: each opens a stream, allocates one device buffer for every
  tile, computes on the mapped memory, compares with the untiled reference and returns 0 or 1; an
  exception ends it with 1. The contents of a fresh mapping are a parameter, since nothing in the
  sources fixes them. On the driver the exit code is then known in advance.
\<close>

section \<open>The programs\<close>

definition kTileBytes :: u32 where [accel_simps]: "kTileBytes = 65536"

text \<open>All pairs in the order of two nested loops.\<close>

definition grid :: "nat \<Rightarrow> nat \<Rightarrow> (nat \<Rightarrow> nat \<Rightarrow> 'a) \<Rightarrow> 'a list" where
  "grid m n f = [f i j. i \<leftarrow> [0..<m], j \<leftarrow> [0..<n]]"

text \<open>
  \<^verbatim>\<open>tiles.push_back(stream.alloc_buffer(kTileBytes))\<close>, followed by the computation that fills the tile.
  \<open>mapped\<close> gives the elements a new mapping holds. A tile is its buffer with its elements.
\<close>

type_synonym tile = "Buffer \<times> int list"

fun alloc_tiles :: "'w kernel \<Rightarrow> Stream \<Rightarrow> (Buffer \<Rightarrow> nat \<Rightarrow> int) \<Rightarrow> (int list \<Rightarrow> int list) list
    \<Rightarrow> tile list \<Rightarrow> 'w \<Rightarrow> 'w \<times> tile list \<times> exn option" where
  "alloc_tiles K s mapped [] tiles w = (w, tiles, None)"
| "alloc_tiles K s mapped (f # fs) tiles w =
     (case Stream_alloc_buffer K s kTileBytes w of
        (w, Inl e) \<Rightarrow> (w, tiles, Some e)
      | (w, Inr b) \<Rightarrow> alloc_tiles K s mapped fs (tiles @ [(b, f (map (mapped b) [0..<kTile * kTile]))]) w)"

definition destroy_tiles :: "'w kernel \<Rightarrow> tile list \<Rightarrow> 'w \<Rightarrow> 'w" where
  "destroy_tiles K tiles w = fold (\<lambda>(b, _) w. snd (Buffer_reset K b w)) tiles w"

text \<open>
  The body the three programs share: \<open>as\<close> and \<open>bs\<close> fill the tiles of A and B, \<open>cs\<close> those of C from the
  elements of both, and \<open>check\<close> is the comparison. Leaving the block, normally or by an exception,
  destroys the tiles of C, B and A and then the stream.
\<close>

definition gemm_main :: "'w kernel \<Rightarrow> string \<Rightarrow> (Buffer \<Rightarrow> nat \<Rightarrow> int) \<Rightarrow> (int list \<Rightarrow> int list) list
    \<Rightarrow> (int list \<Rightarrow> int list) list \<Rightarrow> (int list list \<Rightarrow> int list list \<Rightarrow> (int list \<Rightarrow> int list) list)
    \<Rightarrow> (int list list \<Rightarrow> bool) \<Rightarrow> 'w \<Rightarrow> 'w \<times> int" where
  "gemm_main K device mapped as bs cs check w =
     (case Stream_open K device w of
        (w, Inl e) \<Rightarrow> (w, 1)
      | (w, Inr stream) \<Rightarrow>
          let (w, a_tiles, thrown) = alloc_tiles K stream mapped as [] w;
              (w, b_tiles, thrown) = (if thrown = None then alloc_tiles K stream mapped bs [] w else (w, [], thrown));
              (w, c_tiles, thrown) =
                (if thrown = None then alloc_tiles K stream mapped (cs (map snd a_tiles) (map snd b_tiles)) [] w
                 else (w, [], thrown));
              code = (if thrown = None \<and> check (map snd c_tiles) then 0 else 1);
              w = destroy_tiles K a_tiles (destroy_tiles K b_tiles (destroy_tiles K c_tiles w));
              (stream, w) = Stream_close_fd K stream w
          in (w, code))"

text \<open>Stage 1: M = N = 256, K = 128, and the only K-tile is named by the row and the column block.\<close>

definition gemm_stage1 :: "'w kernel \<Rightarrow> string \<Rightarrow> (Buffer \<Rightarrow> nat \<Rightarrow> int) \<Rightarrow> 'w \<Rightarrow> 'w \<times> int" where
  "gemm_stage1 K device mapped w =
     gemm_main K device mapped (map a_fill1 [0..<256 div kTile]) (map b_fill1 [0..<256 div kTile])
       (\<lambda>a_tiles b_tiles. grid (256 div kTile) (256 div kTile)
          (\<lambda>ti tj. c_tile 1 (\<lambda>_. a_tiles ! ti) (\<lambda>_. b_tiles ! tj)))
       (\<lambda>c_tiles. first_mismatch (256 div kTile) (256 div kTile) 256 (\<lambda>_. kTile) (\<lambda>_. kTile) c_tiles
          (reference_gemm 256 128 256) = None) w"

text \<open>Stage 2: M = N = K = 256.\<close>

definition gemm_stage2 :: "'w kernel \<Rightarrow> string \<Rightarrow> (Buffer \<Rightarrow> nat \<Rightarrow> int) \<Rightarrow> 'w \<Rightarrow> 'w \<times> int" where
  "gemm_stage2 K device mapped w =
     (let kMTiles = 256 div kTile; kNTiles = 256 div kTile; kKTiles = 256 div kTile
      in gemm_main K device mapped (grid kMTiles kKTiles a_fill2) (grid kKTiles kNTiles b_fill2)
       (\<lambda>a_tiles b_tiles. grid kMTiles kNTiles
          (\<lambda>ti tj. c_tile kKTiles (\<lambda>tk. a_tiles ! (ti * kKTiles + tk)) (\<lambda>tk. b_tiles ! (tk * kNTiles + tj))))
       (\<lambda>c_tiles. first_mismatch kMTiles kNTiles 256 (\<lambda>_. kTile) (\<lambda>_. kTile) c_tiles
          (reference_gemm 256 256 256) = None) w)"

text \<open>Stage 3: M = 300, K = 200, N = 260.\<close>

definition gemm_stage3 :: "'w kernel \<Rightarrow> string \<Rightarrow> (Buffer \<Rightarrow> nat \<Rightarrow> int) \<Rightarrow> 'w \<Rightarrow> 'w \<times> int" where
  "gemm_stage3 K device mapped w =
     (let kM = 300; kK = 200; kN = 260;
          kMTiles = ceil_div kM kTile; kNTiles = ceil_div kN kTile; kKTiles = ceil_div kK kTile
      in gemm_main K device mapped (grid kMTiles kKTiles (a_fill3 kM kK)) (grid kKTiles kNTiles (b_fill3 kK kN))
       (\<lambda>a_tiles b_tiles. grid kMTiles kNTiles
          (\<lambda>ti tj. c_tile kKTiles (\<lambda>tk. a_tiles ! (ti * kKTiles + tk)) (\<lambda>tk. b_tiles ! (tk * kNTiles + tj))))
       (\<lambda>c_tiles. first_mismatch kMTiles kNTiles kN (\<lambda>ti. valid_extent ti kM) (\<lambda>tj. valid_extent tj kN) c_tiles
          (reference_gemm kM kK kN) = None) w)"

section \<open>Exit codes on any kernel\<close>

text \<open>\<open>n\<close> allocations of a tile succeed, one after the other.\<close>

fun alloc_all :: "'w kernel \<Rightarrow> Stream \<Rightarrow> nat \<Rightarrow> 'w \<Rightarrow> bool" where
  "alloc_all K s 0 w = True"
| "alloc_all K s (Suc n) w =
     (case Stream_alloc_buffer K s kTileBytes w of (w, Inl e) \<Rightarrow> False | (w, Inr b) \<Rightarrow> alloc_all K s n w)"

definition session_allocs :: "'w kernel \<Rightarrow> string \<Rightarrow> nat \<Rightarrow> 'w \<Rightarrow> bool" where
  "session_allocs K device n w =
     (case Stream_open K device w of (w, Inl e) \<Rightarrow> False | (w, Inr stream) \<Rightarrow> alloc_all K stream n w)"

lemma grid_length [simp]: "length (grid m n f) = m * n"
  by (induction m) (simp_all add: grid_def)

lemma grid_nth: "i < m \<Longrightarrow> j < n \<Longrightarrow> grid m n f ! (i * n + j) = f i j"
proof (induction m)
  case (Suc m)
  have step: "grid (Suc m) n f = grid m n f @ map (f m) [0..<n]" by (simp add: grid_def)
  show ?case
  proof (cases "i < m")
    case True
    with Suc show ?thesis using index_bound [of i m j n] by (simp add: step nth_append)
  next
    case False
    with Suc.prems have "i = m" by simp
    with Suc.prems show ?thesis by (simp add: step nth_append)
  qed
qed simp

text \<open>The elements of the tiles after a successful run: each computed on some mapping.\<close>

lemma alloc_tiles_ok:
  assumes "alloc_tiles K s mapped fs tiles w = (w', tiles', None)"
  shows "\<exists>bs. length bs = length fs
     \<and> map snd tiles' = map snd tiles @ map2 (\<lambda>f b. f (map (mapped b) [0..<kTile * kTile])) fs bs"
  using assms
proof (induction fs arbitrary: tiles w)
  case (Cons f fs)
  then obtain w1 b where run: "alloc_tiles K s mapped fs (tiles @ [(b, f (map (mapped b) [0..<kTile * kTile]))]) w1 = (w', tiles', None)"
    by (auto split: prod.splits sum.splits)
  from Cons.IH [OF this] obtain bs where "length bs = length fs"
    "map snd tiles' = map snd tiles @ map2 (\<lambda>f b. f (map (mapped b) [0..<kTile * kTile])) (f # fs) (b # bs)" by auto
  then show ?case by (intro exI [of _ "b # bs"]) simp
qed simp

lemma alloc_tiles_all:
  "alloc_all K s (length fs + n) w \<longleftrightarrow>
     (case alloc_tiles K s mapped fs tiles w of (w', tiles', thrown) \<Rightarrow> thrown = None \<and> alloc_all K s n w')"
proof (induction fs arbitrary: tiles w)
  case (Cons f fs)
  show ?case by (cases "Stream_alloc_buffer K s kTileBytes w"; cases "snd (Stream_alloc_buffer K s kTileBytes w)")
    (simp_all add: Cons.IH [of _ "tiles @ [(_, _)]"])
qed simp

text \<open>\<open>made fs ts\<close>: the tiles \<open>ts\<close> are those the computations \<open>fs\<close> make of some mappings.\<close>

definition made :: "(int list \<Rightarrow> int list) list \<Rightarrow> int list list \<Rightarrow> (nat \<Rightarrow> int list) \<Rightarrow> bool" where
  "made fs ts d \<longleftrightarrow> (\<forall>i. length (d i) = kTile * kTile) \<and> (\<forall>i < length fs. ts ! i = (fs ! i) (d i))"

lemma alloc_tiles_made:
  assumes "alloc_tiles K s mapped fs [] w = (w', tiles, None)"
  obtains d where "made fs (map snd tiles) d"
proof -
  from alloc_tiles_ok [OF assms] obtain bs where bs: "length bs = length fs"
    "map snd tiles = map2 (\<lambda>f b. f (map (mapped b) [0..<kTile * kTile])) fs bs" by auto
  have "made fs (map snd tiles) (\<lambda>i. map (mapped (bs ! i)) [0..<kTile * kTile])"
    unfolding made_def bs(2) using bs(1) by simp
  then show ?thesis by (rule that)
qed

lemma made_length: "made fs ts d \<Longrightarrow> length (d i) = kTile * kTile"
  by (simp add: made_def)

lemma made_map_nth: "made (map f [0..<n]) ts d \<Longrightarrow> i < n \<Longrightarrow> ts ! i = f i (d i)"
  by (simp add: made_def)

lemma made_nth: "made (grid m n f) ts d \<Longrightarrow> i < m \<Longrightarrow> j < n \<Longrightarrow> ts ! (i * n + j) = f i j (d (i * n + j))"
  using index_bound [of i m j n] by (simp add: made_def grid_nth)

lemma gemm_main_code:
  assumes check: "\<And>a b c da db dc. made as a da \<Longrightarrow> made bs b db \<Longrightarrow> made (cs a b) c dc \<Longrightarrow> check c"
    and len: "\<And>a b. length (cs a b) = n"
  shows "snd (gemm_main K device mapped as bs cs check w)
    = (if session_allocs K device (length as + (length bs + (n + 0))) w then 0 else 1)"
proof (cases "Stream_open K device w")
  case (Pair w1 q)
  show ?thesis
  proof (cases q)
    case (Inl e)
    with Pair show ?thesis by (simp add: gemm_main_def session_allocs_def)
  next
    case (Inr s)
    obtain w2 at ea where A: "alloc_tiles K s mapped as [] w1 = (w2, at, ea)" by (metis prod_cases3)
    obtain w3 bt eb where B: "alloc_tiles K s mapped bs [] w2 = (w3, bt, eb)" by (metis prod_cases3)
    obtain w4 ct ec where C: "alloc_tiles K s mapped (cs (map snd at) (map snd bt)) [] w3 = (w4, ct, ec)"
      by (metis prod_cases3)
    have all: "session_allocs K device (length as + (length bs + (n + 0))) w \<longleftrightarrow> ea = None \<and> eb = None \<and> ec = None"
      unfolding session_allocs_def Pair Inr prod.case sum.case
        alloc_tiles_all [of K s as _ w1 mapped "[]"] A alloc_tiles_all [of K s bs _ w2 mapped "[]"] B
        alloc_tiles_all [of K s "cs (map snd at) (map snd bt)" 0 w3 mapped "[]", unfolded len] C by simp
    have ok: "check (map snd ct)" if n: "ea = None" "eb = None" "ec = None"
      using alloc_tiles_made [OF A [unfolded n]] alloc_tiles_made [OF B [unfolded n]]
        alloc_tiles_made [OF C [unfolded n]] check by metis
    show ?thesis
      unfolding gemm_main_def Pair Inr prod.case sum.case A Let_def all
      using B C ok by (simp split: prod.split)
  qed
qed

lemma tile_counts: "256 div kTile = 2" "ceil_div 300 kTile = 3" "ceil_div 200 kTile = 2" "ceil_div 260 kTile = 3"
  by (simp_all add: kTile_def ceil_div_def)

lemma stage1_code: "snd (gemm_stage1 K device mapped w) = (if session_allocs K device 8 w then 0 else 1)"
proof -
  have chk: "first_mismatch 2 2 256 (\<lambda>_. kTile) (\<lambda>_. kTile) c (reference_gemm 256 128 256) = None"
    if m: "made (map a_fill1 [0..<2]) a da" "made (map b_fill1 [0..<2]) b db"
      "made (grid 2 2 (\<lambda>ti tj. c_tile 1 (\<lambda>_. a ! ti) (\<lambda>_. b ! tj))) c dc" for a b c da db dc
    by (rule stage1.no_mismatch [where a_tiles = "\<lambda>ti _. a ! ti" and b_tiles = "\<lambda>_ tj. b ! tj"
          and da = da and db = db and dc = dc])
      (use m in \<open>simp_all add: made_length made_map_nth [OF m(1)] made_map_nth [OF m(2)] made_nth [OF m(3)]\<close>)
  show ?thesis
    unfolding gemm_stage1_def tile_counts by (subst gemm_main_code [where n = 4, OF chk]) simp_all
qed

lemma stage2_code: "snd (gemm_stage2 K device mapped w) = (if session_allocs K device 12 w then 0 else 1)"
proof -
  have chk: "first_mismatch 2 2 256 (\<lambda>_. kTile) (\<lambda>_. kTile) c (reference_gemm 256 256 256) = None"
    if m: "made (grid 2 2 a_fill2) a da" "made (grid 2 2 b_fill2) b db"
      "made (grid 2 2 (\<lambda>ti tj. c_tile 2 (\<lambda>tk. a ! (ti * 2 + tk)) (\<lambda>tk. b ! (tk * 2 + tj)))) c dc" for a b c da db dc
    by (rule stage2.no_mismatch [where a_tiles = "\<lambda>ti tk. a ! (ti * 2 + tk)" and b_tiles = "\<lambda>tk tj. b ! (tk * 2 + tj)"
          and da = da and db = db and dc = dc])
      (assumption | rule made_length [OF m(1)] made_length [OF m(2)] made_length [OF m(3)]
         made_nth [OF m(1)] made_nth [OF m(2)] made_nth [OF m(3)])+
  show ?thesis
    unfolding gemm_stage2_def tile_counts Let_def by (subst gemm_main_code [where n = 4, OF chk]) simp_all
qed

lemma stage3_code: "snd (gemm_stage3 K device mapped w) = (if session_allocs K device 21 w then 0 else 1)"
proof -
  have chk: "first_mismatch 3 3 260 (\<lambda>ti. valid_extent ti 300) (\<lambda>tj. valid_extent tj 260) c (reference_gemm 300 200 260) = None"
    if m: "made (grid 3 2 (a_fill3 300 200)) a da" "made (grid 2 3 (b_fill3 200 260)) b db"
      "made (grid 3 3 (\<lambda>ti tj. c_tile 2 (\<lambda>tk. a ! (ti * 2 + tk)) (\<lambda>tk. b ! (tk * 3 + tj)))) c dc" for a b c da db dc
    by (rule stage3.pad.no_mismatch [unfolded tile_counts, where a_tiles = "\<lambda>ti tk. a ! (ti * 2 + tk)"
          and b_tiles = "\<lambda>tk tj. b ! (tk * 3 + tj)" and da = da and db = db and dc = dc])
      (assumption | rule made_length [OF m(1)] made_length [OF m(2)] made_length [OF m(3)]
         made_nth [OF m(1)] made_nth [OF m(2)] made_nth [OF m(3)])+
  show ?thesis
    unfolding gemm_stage3_def tile_counts Let_def by (subst gemm_main_code [where n = 9, OF chk]) simp_all
qed

section \<open>On the driver\<close>

definition free_slots :: "kstate \<Rightarrow> nat" where
  "free_slots k = count_if (\<lambda>b. \<not> be_in_use b) (buffers (kdev k))"

definition quota_left :: "kstate \<Rightarrow> sess_ptr \<Rightarrow> nat" where
  "quota_left k p = (case sessions k p of None \<Rightarrow> 0 | Some x \<Rightarrow> DEFAULT_BUFFER_QUOTA - bitmap_weight (owned_buffers x))"

text \<open>One allocation of a tile: when it succeeds, and what it uses up.\<close>

lemma drv_tile_alloc_fails:
  assumes x: "sessions (dk w) p = Some x" and fd: "st_fd s = int p"
    and no: "mem = None \<or> quota_left (dk w) p = 0 \<or> free_slots (dk w) = 0"
  shows "\<exists>e. snd (Stream_alloc_buffer (driver_kernel mem fresh) s kTileBytes w) = Inl e"
proof -
  let ?req = "\<lparr>ba_size = kTileBytes, ba_buffer_id = 0, ba_mmap_offset = 0\<rparr>"
  obtain d' x' q where al: "dma_accel_ioc_buffer_alloc True mem True p ?req (kdev (dk w), x) = ((d', x'), q)"
    by (metis prod.collapse)
  have "\<exists>e. q = Inl e"
  proof (cases q)
    case (Inr r)
    from al [unfolded this] obtain slot where "first_index (\<lambda>b. \<not> be_in_use b) (buffers (kdev (dk w))) = Some slot"
      "mem \<noteq> None" "bitmap_weight (owned_buffers x) < DEFAULT_BUFFER_QUOTA" by (rule buffer_alloc_Inr) simp
    with first_index_SomeD [OF this(1)] no x show ?thesis
      by (auto simp: quota_left_def free_slots_def count_if_zero_iff)
  qed simp
  with al x fd show ?thesis by (auto simp: Stream_alloc_buffer_def driver_kernel_def)
qed

text \<open>A successful \<^verbatim>\<open>BUFFER_ALLOC\<close> with the mapping of its result.\<close>

lemma drv_alloc_succeeds:
  assumes inv: "mem_inv (dk w)" and x: "sessions (dk w) p = Some x"
    and sz: "sz \<noteq> 0" "sz \<le> DMA_ACCEL_BUFFER_ALLOC_MAX"
    and yes: "mem \<noteq> None" "0 < quota_left (dk w) p" "0 < free_slots (dk w)"
  obtains slot ka da w' where
    "slot < MAX_BUFFERS" "\<not> be_in_use (buffers (kdev (dk w)) ! slot)"
    "w' = w\<lparr>dk := put_session (dk w) p
       ((kdev (dk w))\<lparr>buffers := (buffers (kdev (dk w)))[slot := alloc_entry ka da p sz]\<rparr>,
        x\<lparr>owned_buffers := (owned_buffers x)[slot := True]\<rparr>)\<rparr>"
    "ioctl_buffer_alloc (driver_kernel mem fresh) (int p) \<lparr>ba_size = sz, ba_buffer_id = 0, ba_mmap_offset = 0\<rparr> w
     = (w', Inr \<lparr>ba_size = sz, ba_buffer_id = of_nat slot, ba_mmap_offset = push_bit PAGE_SHIFT (of_nat slot)\<rparr>)"
    "sys_mmap (driver_kernel mem fresh) (int p) sz (push_bit PAGE_SHIFT (of_nat slot)) w' = (w', Inr ka)"
    "mem_inv (dk w')" "Suc (quota_left (dk w') p) = quota_left (dk w) p" "Suc (free_slots (dk w')) = free_slots (dk w)"
proof -
  let ?req = "\<lparr>ba_size = sz, ba_buffer_id = 0, ba_mmap_offset = 0\<rparr>" and ?bs = "buffers (kdev (dk w))"
  obtain slot where slot: "first_index (\<lambda>b. \<not> be_in_use b) ?bs = Some slot"
    using yes(3) by (cases "first_index (\<lambda>b. \<not> be_in_use b) ?bs")
      (auto simp: free_slots_def count_if_def first_index_None)
  note wfd = mem_inv_wf(1) [OF inv] and wfx = mem_inv_wf(2) [OF inv x]
  note free = free_slot_range [OF wfd slot]
  obtain ka da where mem: "mem = Some (ka, da)" using yes(1) by auto
  define d' where "d' = (kdev (dk w))\<lparr>buffers := ?bs[slot := alloc_entry ka da p sz]\<rparr>"
  define x' where "x' = x\<lparr>owned_buffers := (owned_buffers x)[slot := True]\<rparr>"
  define w' where "w' = w\<lparr>dk := put_session (dk w) p (d', x')\<rparr>"
  have quota: "bitmap_weight (owned_buffers x) < DEFAULT_BUFFER_QUOTA" using yes(2) x by (simp add: quota_left_def)
  have al: "dma_accel_ioc_buffer_alloc True mem True p ?req (kdev (dk w), x)
      = ((d', x'), Inr (?req\<lparr>ba_buffer_id := of_nat slot, ba_mmap_offset := push_bit PAGE_SHIFT (of_nat slot)\<rparr>))"
    using quota slot mem sz by (simp add: dma_accel_ioc_buffer_alloc_def d'_def x'_def alloc_entry_def Let_def)
  have entry: "buffers d' ! slot = alloc_entry ka da p sz" using free(1) wfd by (simp add: d'_def wf_dev_def)
  have "unat sz \<le> unat (page_align sz)" using page_align_bounds(1) [OF sz(2)] .
  then have "(ucast sz :: u64) \<le> ucast (page_align sz)"
    by (simp add: word_le_nat_alt unsigned_ucast_eq take_bit_nat_eq_self order_less_le_trans [OF unsigned_less])
  then have mm: "dma_accel_chr_mmap None p (drop_bit PAGE_SHIFT (push_bit PAGE_SHIFT (of_nat slot))) (ucast sz) d'
      = Inr (ka, da, ucast (page_align sz))"
    unfolding dma_accel_chr_mmap_def mmap_offset_decodes [OF free(1)] entry
    using free(1) by (simp add: alloc_entry_def Let_def)
  have io: "ioctl_buffer_alloc (driver_kernel mem fresh) (int p) ?req w
      = (w', Inr \<lparr>ba_size = sz, ba_buffer_id = of_nat slot, ba_mmap_offset = push_bit PAGE_SHIFT (of_nat slot)\<rparr>)"
    and mp: "sys_mmap (driver_kernel mem fresh) (int p) sz (push_bit PAGE_SHIFT (of_nat slot)) w' = (w', Inr ka)"
    using al mm x by (simp_all add: driver_kernel_def w'_def)
  have inv': "mem_inv (dk w')" using mem_inv_alloc [OF inv x al] by (simp add: w'_def)
  have "\<not> owned_buffers x ! slot" using own_invD [OF _ free(1)] inv x free(2) by (auto simp: mem_inv_def)
  moreover have "slot < length (owned_buffers x)" using free(1) wfx by (simp add: wf_session_def)
  ultimately have "bitmap_weight (owned_buffers x') = Suc (bitmap_weight (owned_buffers x))"
    by (simp add: x'_def bitmap_weight_def count_if_update_add)
  then have q: "Suc (quota_left (dk w') p) = quota_left (dk w) p" using quota x by (simp add: quota_left_def w'_def)
  have fs: "Suc (free_slots (dk w')) = free_slots (dk w)"
    unfolding free_slots_def w'_def d'_def using free wfd
    by (simp add: count_if_update_remove wf_dev_def alloc_entry_def)
  show ?thesis
    by (rule that [OF free(1) _ _ io mp inv' q fs]) (use free(2) in \<open>simp_all add: w'_def d'_def x'_def\<close>)
qed

lemma drv_tile_alloc_succeeds:
  assumes inv: "mem_inv (dk w)" and x: "sessions (dk w) p = Some x" and fd: "st_fd s = int p"
    and yes: "mem \<noteq> None" "0 < quota_left (dk w) p" "0 < free_slots (dk w)"
  obtains w' b where "Stream_alloc_buffer (driver_kernel mem fresh) s kTileBytes w = (w', Inr b)"
    "mem_inv (dk w')" "p \<in> dom (sessions (dk w'))"
    "Suc (quota_left (dk w') p) = quota_left (dk w) p" "Suc (free_slots (dk w')) = free_slots (dk w)"
proof -
  have sz: "kTileBytes \<noteq> 0" "kTileBytes \<le> DMA_ACCEL_BUFFER_ALLOC_MAX" by (simp_all add: accel_simps)
  from drv_alloc_succeeds [OF inv x sz yes, of fresh] obtain slot ka da w' where r:
    "w' = w\<lparr>dk := put_session (dk w) p
       ((kdev (dk w))\<lparr>buffers := (buffers (kdev (dk w)))[slot := alloc_entry ka da p kTileBytes]\<rparr>,
        x\<lparr>owned_buffers := (owned_buffers x)[slot := True]\<rparr>)\<rparr>"
    "ioctl_buffer_alloc (driver_kernel mem fresh) (int p) \<lparr>ba_size = kTileBytes, ba_buffer_id = 0, ba_mmap_offset = 0\<rparr> w
     = (w', Inr \<lparr>ba_size = kTileBytes, ba_buffer_id = of_nat slot, ba_mmap_offset = push_bit PAGE_SHIFT (of_nat slot)\<rparr>)"
    "sys_mmap (driver_kernel mem fresh) (int p) kTileBytes (push_bit PAGE_SHIFT (of_nat slot)) w' = (w', Inr ka)"
    "mem_inv (dk w')" "Suc (quota_left (dk w') p) = quota_left (dk w) p" "Suc (free_slots (dk w')) = free_slots (dk w)"
    by metis
  from r(2,3) have "Stream_alloc_buffer (driver_kernel mem fresh) s kTileBytes w
      = (w', Inr \<lparr>buf_addr = Some ka, buf_size = kTileBytes, buf_id = of_nat slot\<rparr>)"
    by (simp add: Stream_alloc_buffer_def fd)
  then show ?thesis by (rule that) (use r in simp_all)
qed

lemma drv_alloc_all:
  assumes "mem_inv (dk w)" "p \<in> dom (sessions (dk w))" "st_fd s = int p"
  shows "alloc_all (driver_kernel mem fresh) s n w \<longleftrightarrow> n = 0 \<or> mem \<noteq> None \<and> n \<le> quota_left (dk w) p \<and> n \<le> free_slots (dk w)"
  using assms
proof (induction n arbitrary: w)
  case (Suc n)
  obtain x where x: "sessions (dk w) p = Some x" using Suc.prems(2) by auto
  show ?case
  proof (cases "mem \<noteq> None \<and> 0 < quota_left (dk w) p \<and> 0 < free_slots (dk w)")
    case True
    then have y: "mem \<noteq> None" "0 < quota_left (dk w) p" "0 < free_slots (dk w)" by auto
    obtain w' b where r: "Stream_alloc_buffer (driver_kernel mem fresh) s kTileBytes w = (w', Inr b)"
      "mem_inv (dk w')" "p \<in> dom (sessions (dk w'))"
      "Suc (quota_left (dk w') p) = quota_left (dk w) p" "Suc (free_slots (dk w')) = free_slots (dk w)"
      using drv_tile_alloc_succeeds [OF Suc.prems(1) x Suc.prems(3) y] by metis
    have step: "alloc_all (driver_kernel mem fresh) s (Suc n) w \<longleftrightarrow> alloc_all (driver_kernel mem fresh) s n w'"
      by (simp add: r(1))
    show ?thesis
      unfolding step Suc.IH [OF r(2,3) Suc.prems(3)] r(4) [symmetric] r(5) [symmetric] using y(1) by auto
  next
    case False
    then have no: "mem = None \<or> quota_left (dk w) p = 0 \<or> free_slots (dk w) = 0" by auto
    from drv_tile_alloc_fails [OF x Suc.prems(3) no, of fresh]
    have "\<not> alloc_all (driver_kernel mem fresh) s (Suc n) w" by (auto split: prod.split)
    with no show ?thesis by auto
  qed
qed simp

text \<open>A new session has its whole quota and takes no slot.\<close>

lemma session_allocs_driver:
  assumes inv: "mem_inv (dk w)" and new: "\<And>p. fresh = Some p \<Longrightarrow> sessions (dk w) p = None"
  shows "session_allocs (driver_kernel mem fresh) device n w \<longleftrightarrow>
    fresh \<noteq> None \<and> (n = 0 \<or> mem \<noteq> None \<and> n \<le> 16 \<and> n \<le> free_slots (dk w))"
proof (cases fresh)
  case None
  then show ?thesis by (simp add: session_allocs_def Stream_open_def driver_kernel_def dma_accel_chr_open_def)
next
  case (Some p)
  define w1 where "w1 = w\<lparr>dk := fst (dma_accel_chr_open fresh (dk w))\<rparr>"
  define s where "s = \<lparr>st_fd = int p, st_outstanding = Map.empty, st_order = []\<rparr>"
  have op: "Stream_open (driver_kernel mem fresh) device w = (w1, Inr s)"
    by (simp add: Stream_open_def driver_kernel_def dma_accel_chr_open_def w1_def s_def Some)
  have k1: "dk w1 = (dk w)\<lparr>kdev := (kdev (dk w))\<lparr>active_sessions := active_sessions (kdev (dk w)) + 1\<rparr>,
      sessions := (sessions (dk w))(p \<mapsto> init_session)\<rparr>" by (simp add: w1_def dma_accel_chr_open_def Some)
  have inv1: "mem_inv (dk w1)" using mem_inv_open [OF inv new [OF Some]] by (simp add: w1_def Some)
  have "p \<in> dom (sessions (dk w1))" "st_fd s = int p" by (simp_all add: k1 s_def)
  moreover have "quota_left (dk w1) p = 16"
    by (simp add: k1 quota_left_def init_session_def bitmap_weight_def count_if_def accel_simps)
  moreover have "free_slots (dk w1) = free_slots (dk w)" by (simp add: k1 free_slots_def)
  ultimately show ?thesis
    using drv_alloc_all [OF inv1, of p s mem fresh n] by (simp add: session_allocs_def op [unfolded Some] Some)
qed

section \<open>The properties\<close>

text \<open>
  C36: on any kernel each GEMM program ends with 0 exactly if opening the device and allocating its
  tiles (8, 12 and 21) succeed, whatever the new mappings hold: the tiled, K-accumulated and
  zero-padded computations agree with the untiled reference in every element compared, also where
  no dimension is a multiple of the tile. The reference in turn is the matrix product.
\<close>

theorem gemm_exit_codes:
  "snd (gemm_stage1 K device mapped w) = (if session_allocs K device 8 w then 0 else 1)
   \<and> snd (gemm_stage2 K device mapped w) = (if session_allocs K device 12 w then 0 else 1)
   \<and> snd (gemm_stage3 K device mapped w) = (if session_allocs K device 21 w then 0 else 1)
   \<and> reference_gemm M L N = map (\<lambda>i. \<Sum>k<L. a_value (i div N) k * b_value k (i mod N)) [0..<M * N]"
  by (simp add: stage1_code stage2_code stage3_code reference_gemm_matmul matmul_def)

end
