(* ===== verification/Gemm_Row.thy ===== *)
theory Gemm_Row
  imports Gemm_Programs
begin

text \<open>
  One row of a matrix product as a chain of \<^verbatim>\<open>SCALE_ADD\<close> commands
  (\<^verbatim>\<open>track-a/dma_accel_gemm_row_via_scale_add.cpp\<close>). What the device computes is the parameter
  \<open>scale_add\<close>. All values of the program are multiples of one half; elements and scalars are kept in
  halves, as integers.
\<close>

section \<open>The program\<close>

definition row_kN :: nat where [accel_simps]: "row_kN = 1024"
definition row_kK :: nat where [accel_simps]: "row_kK = 8"
definition row_kBufSize :: u32 where [accel_simps]: "row_kBufSize = 4096"

text \<open>In halves: \<^verbatim>\<open>(k + 1) * 0.5f\<close> is \<open>k + 1\<close>; its bit pattern as a \<^verbatim>\<open>float\<close> is passed to the device.\<close>

definition a_row_value :: "nat \<Rightarrow> int" where
  "a_row_value k = int k + 1"

definition a_row_bits :: "nat \<Rightarrow> float_bits" where
  "a_row_bits k = [0x3F000000, 0x3F800000, 0x3FC00000, 0x40000000, 0x40200000, 0x40400000, 0x40600000, 0x40800000] ! k"

definition b_row_value :: "nat \<Rightarrow> nat \<Rightarrow> int" where
  "b_row_value k i = int (i mod 13 + k)"

text \<open>\<^verbatim>\<open>c[i] += a * b_value(k, i)\<close>, in halves.\<close>

definition reference_row :: "int list" where
  "reference_row = fold (\<lambda>k c. let a = a_row_value k
                               in row_loop 0 row_kN (\<lambda>i x. x + a * b_row_value k i) c)
                     [0..<row_kK] (replicate row_kN 0)"

text \<open>\<^verbatim>\<open>dst[i] = b_value(k, i)\<close>\<close>

definition b_row :: "nat \<Rightarrow> int list" where
  "b_row k = map (b_row_value k) [0..<row_kN]"

text \<open>The allocation of the rows of B.\<close>

fun alloc_rows :: "'w kernel \<Rightarrow> Stream \<Rightarrow> nat \<Rightarrow> Buffer list \<Rightarrow> 'w \<Rightarrow> 'w \<times> Buffer list \<times> bool" where
  "alloc_rows K s 0 rows w = (w, rows, True)"
| "alloc_rows K s (Suc n) rows w =
     (case Stream_alloc_buffer K s row_kBufSize w of
        (w, Inl e) \<Rightarrow> (w, rows, False)
      | (w, Inr b) \<Rightarrow> alloc_rows K s n (rows @ [b]) w)"

text \<open>
  The chain. \<open>prev\<close> is the previous accumulator with its elements (in halves). The result is the
  accumulators with the elements of the last one, or \<open>None\<close> for every way to return 1.
\<close>

fun row_steps :: "'w kernel \<Rightarrow> (int list \<Rightarrow> int \<Rightarrow> int list \<Rightarrow> int list) \<Rightarrow> (nat \<times> Buffer) list \<Rightarrow> Buffer \<times> int list
    \<Rightarrow> Buffer list \<Rightarrow> Stream \<Rightarrow> 'w rt \<Rightarrow> ((Stream \<times> 'w rt) \<times> Buffer list \<times> int list option) option" where
  "row_steps K scale_add [] prev acc s r = Some ((s, r), acc, Some (snd prev))"
| "row_steps K scale_add ((k, b) # rest) prev acc s r =
     (case Stream_alloc_buffer K s row_kBufSize (world r) of
        (w, Inl e) \<Rightarrow> Some ((s, r\<lparr>world := w\<rparr>), acc, None)
      | (w, Inr d) \<Rightarrow>
          let acc = acc @ [d] in
          Option.bind (Stream_submit_scale_add K b 0 (fst prev) 0 d 0 row_kBufSize (a_row_bits k) s (r\<lparr>world := w\<rparr>))
            (\<lambda>((s, r), q). case q of
                 Inl e \<Rightarrow> Some ((s, r), acc, None)
               | Inr fence \<Rightarrow>
                   Option.bind (Stream_wait K fence 1000 s r)
                     (\<lambda>((s, r), q). case q of
                          Inl e \<Rightarrow> Some ((s, r), acc, None)
                        | Inr ok \<Rightarrow>
                            if \<not> ok \<or> Fence_status (heap r) fence \<noteq> Inr 0 then Some ((s, r), acc, None)
                            else row_steps K scale_add rest (d, scale_add (b_row k) (a_row_value k) (snd prev)) acc s r)))"

definition destroy_buffers :: "'w kernel \<Rightarrow> Buffer list \<Rightarrow> 'w \<Rightarrow> 'w" where
  "destroy_buffers K bs w = fold (\<lambda>b w. snd (Buffer_reset K b w)) bs w"

definition row_via_scale_add :: "'w kernel \<Rightarrow> (int list \<Rightarrow> int \<Rightarrow> int list \<Rightarrow> int list) \<Rightarrow> string \<Rightarrow> 'w \<Rightarrow> ('w \<times> int) option" where
  "row_via_scale_add K scale_add device w =
     (case Stream_open K device w of
        (w, Inl e) \<Rightarrow> Some (w, 1)
      | (w, Inr stream) \<Rightarrow>
         (case alloc_rows K stream row_kK [] w of
            (w, b_rows, False) \<Rightarrow> Some (snd (Stream_close_fd K stream (destroy_buffers K b_rows w)), 1)
          | (w, b_rows, True) \<Rightarrow>
             (case Stream_alloc_buffer K stream row_kBufSize w of
                (w, Inl e) \<Rightarrow> Some (snd (Stream_close_fd K stream (destroy_buffers K b_rows w)), 1)
              | (w, Inr zero) \<Rightarrow>
                  map_option (\<lambda>((stream, r), acc, result).
                      (snd (Stream_close_fd K stream (destroy_buffers K b_rows
                         (destroy_buffers K [zero] (destroy_buffers K acc (world r))))),
                       if result = Some reference_row then 0 else 1))
                    (row_steps K scale_add (enumerate 0 b_rows) (zero, replicate row_kN 0) [] stream \<lparr>world = w, heap = []\<rparr>))))"

section \<open>The chain computes the row\<close>

text \<open>What the device documents of \<^verbatim>\<open>SCALE_ADD\<close>: \<open>a * scalar + b\<close>, element by element (in halves).\<close>

definition scale_add_law :: "(int list \<Rightarrow> int \<Rightarrow> int list \<Rightarrow> int list) \<Rightarrow> bool" where
  "scale_add_law sa \<longleftrightarrow> (\<forall>a x b. length a = length b \<longrightarrow> sa a x b = map2 (\<lambda>u v. u * x + v) a b)"

definition row_prefix :: "nat \<Rightarrow> int list" where
  "row_prefix n = map (\<lambda>i. \<Sum>k<n. a_row_value k * b_row_value k i) [0..<row_kN]"

lemma reference_row_prefix: "reference_row = row_prefix row_kK"
proof -
  have "fold (\<lambda>k c. let a = a_row_value k in row_loop 0 row_kN (\<lambda>i x. x + a * b_row_value k i) c) [0..<n] (replicate row_kN 0)
      = row_prefix n" for n
  proof (induction n)
    case 0
    then show ?case by (simp add: row_prefix_def map_replicate_const)
  next
    case (Suc n)
    have "row_loop 0 row_kN (\<lambda>i x. x + a_row_value n * b_row_value n i) (row_prefix n) = row_prefix (Suc n)"
      by (rule nth_equalityI) (simp_all add: row_loop_nth, simp_all add: row_prefix_def)
    with Suc show ?case by (simp add: Let_def)
  qed
  then show ?thesis by (simp add: reference_row_def)
qed

lemma scale_add_step:
  assumes "scale_add_law sa"
  shows "sa (b_row n) (a_row_value n) (row_prefix n) = row_prefix (Suc n)"
proof -
  have "sa (b_row n) (a_row_value n) (row_prefix n) = map2 (\<lambda>u v. u * a_row_value n + v) (b_row n) (row_prefix n)"
    using assms by (simp add: scale_add_law_def b_row_def row_prefix_def)
  also have "\<dots> = row_prefix (Suc n)"
    by (rule nth_equalityI) (simp_all add: b_row_def row_prefix_def)
  finally show ?thesis .
qed

lemma row_steps_result:
  assumes "scale_add_law sa"
  shows "row_steps K sa (enumerate n bs) (p, row_prefix n) acc s r = Some ((s', r'), acc', Some res)
     \<Longrightarrow> res = row_prefix (n + length bs)"
proof (induction bs arbitrary: n p acc s r)
  case (Cons b bs)
  from Cons.prems obtain d acc1 s1 r1 where
    "row_steps K sa (enumerate (Suc n) bs) (d, sa (b_row n) (a_row_value n) (row_prefix n)) acc1 s1 r1 = Some ((s', r'), acc', Some res)"
    by (auto simp: Let_def split: prod.splits sum.splits Option.bind_splits if_splits)
  with Cons.IH [of "Suc n"] scale_add_step [OF assms] show ?case by simp
qed simp

section \<open>What the system calls leave of a session's quota\<close>

definition has_quota :: "sess_ptr \<Rightarrow> nat \<Rightarrow> drv_world \<Rightarrow> bool" where
  "has_quota p q w \<longleftrightarrow> mem_inv (dk w) \<and> p \<in> dom (sessions (dk w)) \<and> quota_left (dk w) p = q"

text \<open>Changes that keep the buffer table and the bitmaps.\<close>

lemma has_quota_frame:
  assumes "has_quota p q w" and "buffers (kdev (dk w')) = buffers (kdev (dk w))" and "wf_dev (kdev (dk w'))"
    and old: "\<And>p' x'. sessions (dk w') p' = Some x' \<Longrightarrow>
      wf_session x' \<and> (\<exists>x. sessions (dk w) p' = Some x \<and> owned_buffers x' = owned_buffers x)"
    and dom: "dom (sessions (dk w)) \<subseteq> dom (sessions (dk w'))"
  shows "has_quota p q w'"
proof -
  have "mem_inv (dk w')" by (rule mem_inv_frame [OF _ assms(2,3) old dom]) (use assms(1) in \<open>simp_all add: has_quota_def\<close>)
  moreover obtain x' where "sessions (dk w') p = Some x'" using dom assms(1) by (auto simp: has_quota_def)
  moreover from old [OF this] obtain x where "sessions (dk w) p = Some x" "owned_buffers x' = owned_buffers x" by blast
  ultimately show ?thesis using assms(1) by (simp add: has_quota_def quota_left_def domIff)
qed

lemma isr_has_quota:
  assumes "isr_completion c k = Some k'" and "has_quota p q (w\<lparr>dk := k\<rparr>)"
  shows "has_quota p q (w\<lparr>dk := k'\<rparr>)"
proof -
  have inv: "mem_inv k" using assms(2) by (simp add: has_quota_def)
  note wf = mem_inv_wf [OF inv]
  show ?thesis
    using assms(1)
  proof (cases rule: isr_completion_cases)
    case (unknown d')
    then show ?thesis
      using wf isr_route_frame [OF unknown(1)]
      by (intro has_quota_frame [OF assms(2)]) (auto simp: wf_dev_def isr_route_def split: option.splits)
  next
    case (routed d' p' owner)
    then show ?thesis
      using wf isr_route_frame [OF routed(1)] isr_deliver_wf [of owner c]
      by (intro has_quota_frame [OF assms(2)])
        (auto simp: wf_dev_def total_inflight_dec_def isr_route_def split: option.splits if_splits)
  qed
qed

lemma poll_has_quota:
  "drv_poll p' t script k = Some (k', script', b) \<Longrightarrow> has_quota p q (w\<lparr>dk := k\<rparr>) \<Longrightarrow> has_quota p q (w\<lparr>dk := k'\<rparr>)"
proof (induction p' t script k rule: drv_poll.induct)
  case (1 p' t script k)
  obtain x where x: "sessions k p' = Some x" using "1.prems"(1) by (auto simp: drv_poll.simps [of p' t script k] split: option.splits)
  show ?case
  proof (cases "dma_accel_chr_poll x \<noteq> 0 \<or> script = []")
    case True
    with "1.prems" x show ?thesis by (auto simp: drv_poll.simps [of p' t script k] split: list.splits if_splits)
  next
    case False
    then obtain c cs where s: "script = c # cs" by (cases script) auto
    with False "1.prems" x obtain k1 where k1: "isr_completion c k = Some k1" "drv_poll p' t cs k1 = Some (k', script', b)"
      by (auto simp: drv_poll.simps [of p' t "c # cs" k] split: option.splits)
    with "1.IH" [OF x _ s k1(1,2)] False isr_has_quota [OF k1(1) "1.prems"(2)] show ?thesis by simp
  qed
qed

lemma submit_loop_quiet:
  assumes "submit_loop p i [] d = Some y"
  shows "snd (fst y) = snd d \<and> buffers (fst (fst y)) = buffers (fst d) \<and> (wf_dev (fst d) \<longrightarrow> wf_dev (fst (fst y)))"
  using submit_loop_nil [OF assms] by (cases d) (auto simp: wf_dev_def elim: submit_admit_Some)

lemma submit_has_quota:
  assumes "ioctl_submit (driver_kernel mem fresh) (int p') req w = Some (w', r)" and "has_quota p q w"
  shows "has_quota p q w'"
proof (cases "sessions (dk w) p'")
  case None
  with assms show ?thesis by (auto simp: driver_kernel_def)
next
  case (Some x)
  with assms(1) obtain d x' where run: "dma_accel_ioc_submit True True [] p' req (kdev (dk w), x) = Some ((d, x'), r)"
    "w' = w\<lparr>dk := put_session (dk w) p' (d, x')\<rparr>" by (auto simp: driver_kernel_def)
  have inv: "mem_inv (dk w)" using assms(2) by (simp add: has_quota_def)
  note wf = mem_inv_wf [OF inv]
  have "buffers d = buffers (kdev (dk w)) \<and> wf_dev d \<and> owned_buffers x' = owned_buffers x \<and> wf_session x'"
  proof (cases "submit_validate p' req (kdev (dk w))")
    case (Inl e)
    with run(1) wf Some show ?thesis by (auto simp: dma_accel_ioc_submit_def)
  next
    case (Inr v)
    obtain a b c where v: "v = (a, b, c)" by (metis prod_cases3)
    let ?d = "(kdev (dk w))\<lparr>next_cmd_id := next_cmd_id (kdev (dk w)) + 1\<rparr>"
    obtain d1 x1 r1 where l: "submit_loop p' (next_cmd_id (kdev (dk w)) + 1) [] (?d, x) = Some ((d1, x1), r1)"
      using run(1) Inr by (auto simp: dma_accel_ioc_submit_def next_id_def v Let_def split: option.splits)
    have d1: "x1 = x" "buffers d1 = buffers (kdev (dk w))" "wf_dev d1"
      using submit_loop_quiet [OF l] wf(1) by (auto simp: wf_dev_def)
    have "wf_session (session_inflight_inc x)" using wf(2) [OF Some] by (simp add: wf_session_def session_inflight_inc_def)
    with run(1) Inr v l d1 wf(2) [OF Some] show ?thesis
      by (cases r1) (auto simp: dma_accel_ioc_submit_def next_id_def Let_def total_inflight_inc_def session_inflight_inc_def
          wf_dev_def dma_accel_queue_submit_ext_def sq_ring_doorbell_def sq_write_slot_def)
  qed
  then show ?thesis
    using wf Some run(2) by (intro has_quota_frame [OF assms(2)]) (auto split: if_splits)
qed

interpretation quota: kernel_frame "driver_kernel mem fresh" "int p" "has_quota p q" EPERM
  for mem :: "(u64 \<times> dma_addr_t) option" and fresh :: "sess_ptr option" and p :: sess_ptr and q :: nat
proof (unfold_locales, goal_cases)
  case (1 w n w' x)
  show ?case
  proof (cases "sessions (dk w) p")
    case (Some y)
    obtain y' pos r where rd: "dma_accel_chr_read (\<lambda>_. True) (n * sizeof_completion_uapi) 0 y = (y', pos, r)" by (metis prod_cases3)
    have wf: "mem_inv (dk w)" using 1(1) by (simp add: has_quota_def)
    have w': "w' = w\<lparr>dk := (dk w)\<lparr>sessions := (sessions (dk w))(p \<mapsto> y')\<rparr>\<rparr>" "x = r"
      using 1(2) Some rd by (simp_all add: driver_kernel_def)
    note y' = chr_read_session [OF mem_inv_wf(2) [OF wf Some] rd]
    have "has_quota p q w'"
      using mem_inv_wf [OF wf] y' Some by (intro has_quota_frame [OF 1(1)]) (auto simp: w' split: if_splits)
    moreover have "r \<noteq> Inl EPERM"
      using rd by (auto simp: dma_accel_chr_read_def Let_def split: if_splits prod.splits)
    ultimately show ?thesis by (simp add: w')
  qed (use 1 in \<open>simp add: has_quota_def domIff\<close>)
next
  case (2 w t w' x)
  then obtain k script b where pl: "drv_poll p t (dscript w) (dk w) = Some (k, script, b)"
    "w' = w\<lparr>dk := k, dscript := script\<rparr>" "x = Inr b" by (auto simp: driver_kernel_def)
  have "has_quota p q (w\<lparr>dk := dk w\<rparr>)" using 2(1) by simp
  from poll_has_quota [OF pl(1) this] show ?case by (simp add: pl(2,3) has_quota_def)
qed

text \<open>The timed wait, with a clock that does not disturb the property.\<close>

context kernel_frame
begin

lemma wait_loop_good:
  assumes clock: "\<And>w. I w \<Longrightarrow> I (fst (clock_now K w))"
    and run: "wait_loop K deadline f s r = Some y" and g: "good s r"
  shows "good (fst (fst y)) (snd (fst y))"
proof (rule wait_loop_rule [OF run, of good, THEN conjunct1], fact g)
  fix s r assume g: "good s r"
  show "good s (r\<lparr>world := fst (clock_now K (world r))\<rparr>)" using g clock by (auto simp: good_def)
  show "good s (r\<lparr>world := w\<rparr>)" if "sys_poll K (st_fd s) t (world r) = Some (w, x)" for t w x
    using good_poll [OF g that] by simp
  show "good s' r'" if "Stream_pump K s r = Some ((s', r'), x)" for s' r' x
    using keeps_good [OF pump_keeps [OF that g]] .
qed

end

lemma wait_has_quota:
  assumes "Stream_wait (driver_kernel mem fresh) f t s r = Some ((s', r'), x)" and "st_fd s = int p" and "has_quota p q (world r)"
  shows "st_fd s' = int p \<and> has_quota p q (world r')"
proof -
  have clock: "has_quota p q (fst (clock_now (driver_kernel mem fresh) w))" if "has_quota p q w" for w
    using that by (simp add: driver_kernel_def has_quota_def)
  have g: "quota.good p q s (r\<lparr>world := fst (clock_now (driver_kernel mem fresh) (world r))\<rparr>)"
    using assms(2) clock [OF assms(3)] by (simp add: quota.good_def)
  show ?thesis
  proof (cases "Fence_is_ready (heap r) f")
    case True
    with assms show ?thesis by (simp add: Stream_wait_def)
  next
    case False
    from assms(1) obtain d where "wait_loop (driver_kernel mem fresh) d f s
        (r\<lparr>world := fst (clock_now (driver_kernel mem fresh) (world r))\<rparr>) = Some ((s', r'), x)"
      using False by (auto simp: Stream_wait_def Let_def split: prod.splits)
    from quota.wait_loop_good [OF clock this g] show ?thesis by (simp add: quota.good_def)
  qed
qed

lemma submit_stream_has_quota:
  assumes "throttled_submit (driver_kernel mem fresh) req s r = Some ((s', r'), x)" and "st_fd s = int p" and "has_quota p q (world r)"
  shows "st_fd s' = int p \<and> has_quota p q (world r')"
proof -
  obtain s1 r1 y where t: "Stream_throttle_before_submit (driver_kernel mem fresh) s r = Some ((s1, r1), y)"
    using assms(1) by (auto simp: throttled_submit_def split: Option.bind_splits)
  have "quota.keeps p q ((s1, r1), y)"
    by (rule quota.throttle_keeps [OF t]) (use assms in \<open>simp add: quota.good_def\<close>)
  from quota.keeps_good [OF this] have g: "st_fd s1 = int p" "has_quota p q (world r1)" by (simp_all add: quota.good_def)
  show ?thesis
  proof (cases y)
    case (Inl e)
    with assms(1) t g show ?thesis by (simp add: throttled_submit_def)
  next
    case (Inr u)
    with assms(1) t have run: "Stream_do_submit (driver_kernel mem fresh) req s1 r1 = Some ((s', r'), x)"
      by (simp add: throttled_submit_def)
    then obtain w' z where w: "ioctl_submit (driver_kernel mem fresh) (int p) req (world r1) = Some (w', z)"
      using g(1) by (auto simp: Stream_do_submit_def split: Option.bind_splits)
    have "world r' = w'" "st_fd s' = st_fd s1"
      using run g(1) w by (auto simp: Stream_do_submit_def Let_def split: sum.splits)
    with submit_has_quota [OF w g(2)] g(1) show ?thesis by simp
  qed
qed

text \<open>A successful allocation takes one of the quota.\<close>

lemma alloc_has_quota:
  assumes "Stream_alloc_buffer (driver_kernel mem fresh) s sz w = (w', Inr b)" and fd: "st_fd s = int p" and q: "has_quota p q w"
  obtains q' where "q = Suc q'" "has_quota p q' w'"
proof -
  obtain r where r: "ioctl_buffer_alloc (driver_kernel mem fresh) (int p) \<lparr>ba_size = sz, ba_buffer_id = 0, ba_mmap_offset = 0\<rparr> w = (w', r)"
    "\<exists>req. r = Inr req" using drv_alloc_buffer_cases [OF assms(1)] fd by metis
  obtain x where x: "sessions (dk w) p = Some x" using q by (auto simp: has_quota_def)
  have inv: "mem_inv (dk w)" and ql: "quota_left (dk w) p = q" using q by (simp_all add: has_quota_def)
  from r x obtain d' x' req where al: "dma_accel_ioc_buffer_alloc True mem True p
      \<lparr>ba_size = sz, ba_buffer_id = 0, ba_mmap_offset = 0\<rparr> (kdev (dk w), x) = ((d', x'), Inr req)"
    and w': "w' = w\<lparr>dk := put_session (dk w) p (d', x')\<rparr>" by (auto simp: driver_kernel_def split: prod.splits)
  from al obtain slot where slot: "first_index (\<lambda>b. \<not> be_in_use b) (buffers (kdev (dk w))) = Some slot"
    "bitmap_weight (owned_buffers x) < DEFAULT_BUFFER_QUOTA"
    "x' = x\<lparr>owned_buffers := (owned_buffers x)[slot := True]\<rparr>" by (rule buffer_alloc_Inr) simp
  note free = free_slot_range [OF mem_inv_wf(1) [OF inv] slot(1)]
  have "\<not> owned_buffers x ! slot" using own_invD [OF _ free(1)] inv x free(2) by (auto simp: mem_inv_def)
  moreover have "slot < length (owned_buffers x)" using free(1) mem_inv_wf(2) [OF inv x] by (simp add: wf_session_def)
  ultimately have "bitmap_weight (owned_buffers x') = Suc (bitmap_weight (owned_buffers x))"
    by (simp add: slot(3) bitmap_weight_def count_if_update_add)
  then have "q = Suc (quota_left (dk w') p)" using slot(2) x ql by (simp add: quota_left_def w')
  moreover have "mem_inv (dk w')" using mem_inv_alloc [OF inv x al] by (simp add: w')
  ultimately show ?thesis using that by (simp add: has_quota_def w')
qed

section \<open>The row does not fit into the quota\<close>

lemma alloc_rows_quota:
  "alloc_rows (driver_kernel mem fresh) s n rows w = (w', rows', True) \<Longrightarrow> st_fd s = int p \<Longrightarrow> has_quota p q w
   \<Longrightarrow> n \<le> q \<and> has_quota p (q - n) w' \<and> length rows' = length rows + n"
proof (induction n arbitrary: rows w q)
  case (Suc n)
  obtain w1 b where a: "Stream_alloc_buffer (driver_kernel mem fresh) s row_kBufSize w = (w1, Inr b)"
    "alloc_rows (driver_kernel mem fresh) s n (rows @ [b]) w1 = (w', rows', True)"
    using Suc.prems(1) by (auto split: prod.splits sum.splits)
  from alloc_has_quota [OF a(1) Suc.prems(2,3)] obtain q' where "q = Suc q'" "has_quota p q' w1" .
  with Suc.IH [OF a(2) Suc.prems(2)] show ?case by simp
qed simp

lemma row_steps_quota:
  "row_steps (driver_kernel mem fresh) sa bs prev acc s r = Some ((s', r'), acc', Some res) \<Longrightarrow> st_fd s = int p
   \<Longrightarrow> has_quota p q (world r) \<Longrightarrow> length bs \<le> q"
proof (induction bs arbitrary: prev acc s r q)
  case (Cons kb bs)
  obtain k b where kb: "kb = (k, b)" by fastforce
  let ?K = "driver_kernel mem fresh"
  obtain w d where a: "Stream_alloc_buffer ?K s row_kBufSize (world r) = (w, Inr d)"
    using Cons.prems(1) by (auto simp: kb split: prod.splits sum.splits)
  from alloc_has_quota [OF a Cons.prems(2,3)] obtain q' where q': "q = Suc q'" "has_quota p q' w" .
  obtain s1 r1 f where su: "Stream_submit_scale_add ?K b 0 (fst prev) 0 d 0 row_kBufSize (a_row_bits k) s (r\<lparr>world := w\<rparr>)
      = Some ((s1, r1), Inr f)"
    using Cons.prems(1) a by (auto simp: kb Let_def split: sum.splits Option.bind_splits)
  have g1: "st_fd s1 = int p" "has_quota p q' (world r1)"
    using submit_stream_has_quota [OF su [unfolded Stream_submit_scale_add_def] Cons.prems(2)] q'(2) by simp_all
  obtain s2 r2 where wa: "Stream_wait ?K f 1000 s1 r1 = Some ((s2, r2), Inr True)" "Fence_status (heap r2) f = Inr 0"
    using Cons.prems(1) a su by (auto simp: kb Let_def split: sum.splits Option.bind_splits if_splits)
  have g2: "st_fd s2 = int p" "has_quota p q' (world r2)" using wait_has_quota [OF wa(1) g1] by simp_all
  have "row_steps ?K sa bs (d, sa (b_row k) (a_row_value k) (snd prev)) (acc @ [d]) s2 r2 = Some ((s', r'), acc', Some res)"
    using Cons.prems(1) a su wa by (simp add: kb Let_def)
  from Cons.IH [OF this g2] q'(1) show ?case by simp
qed simp

lemma row_fails_on_driver:
  assumes inv: "mem_inv (dk w)" and new: "\<And>p. fresh = Some p \<Longrightarrow> sessions (dk w) p = None"
    and run: "row_via_scale_add (driver_kernel mem fresh) sa device w = Some (w', c)"
  shows "c = 1"
proof (rule ccontr)
  assume c: "c \<noteq> 1"
  let ?K = "driver_kernel mem fresh"
  obtain w1 s where op: "Stream_open ?K device w = (w1, Inr s)"
    using run c by (auto simp: row_via_scale_add_def split: prod.splits sum.splits)
  from op obtain p where p: "fresh = Some p" "st_fd s = int p" "dk w1 = fst (dma_accel_chr_open (Some p) (dk w))"
    by (auto simp: Stream_open_def driver_kernel_def dma_accel_chr_open_def split: option.splits)
  have q16: "has_quota p 16 w1"
    using mem_inv_open [OF inv new [OF p(1)]]
    by (simp add: has_quota_def p(3) quota_left_def dma_accel_chr_open_def init_session_def bitmap_weight_def count_if_def accel_simps)
  obtain w2 rows where ar: "alloc_rows ?K s row_kK [] w1 = (w2, rows, True)"
    using run c op by (auto simp: row_via_scale_add_def split: prod.splits bool.splits)
  have r: "has_quota p 8 w2" "length rows = 8" using alloc_rows_quota [OF ar p(2) q16] by (simp_all add: accel_simps)
  obtain w3 z where az: "Stream_alloc_buffer ?K s row_kBufSize w2 = (w3, Inr z)"
    using run c op ar by (auto simp: row_via_scale_add_def split: prod.splits sum.splits)
  from alloc_has_quota [OF az p(2) r(1)] obtain q' where q': "8 = Suc q'" "has_quota p q' w3" .
  obtain s' r' acc where st: "row_steps ?K sa (enumerate 0 rows) (z, replicate row_kN 0) [] s \<lparr>world = w3, heap = []\<rparr>
      = Some ((s', r'), acc, Some reference_row)"
    using run c op ar az by (auto simp: row_via_scale_add_def split: if_splits)
  have "length rows \<le> q'" using row_steps_quota [OF st p(2)] q'(2) by simp
  with q'(1) r(2) show False by simp
qed

section \<open>The programs on the driver\<close>

text \<open>
  C37: on the driver, in any reachable state and for a new session: stages 1 and 2 pass exactly if
  the session can be opened, DMA memory is available and 8 or 12 slots are free; stage 3 always
  fails, because its 21 tiles exceed the quota of 16 buffers of one session. The row program never
  succeeds either, for the same reason: its eight rows, the zero row and eight accumulators are 17
  buffers, whatever the device computes and posts.
\<close>

theorem gemm_on_driver:
  assumes "reachable n s" and "dk w = sk s" and "\<And>p. fresh = Some p \<Longrightarrow> sessions (dk w) p = None"
  shows "snd (gemm_stage1 (driver_kernel mem fresh) device mapped w)
      = (if fresh \<noteq> None \<and> mem \<noteq> None \<and> 8 \<le> free_slots (dk w) then 0 else 1)
   \<and> snd (gemm_stage2 (driver_kernel mem fresh) device mapped w)
      = (if fresh \<noteq> None \<and> mem \<noteq> None \<and> 12 \<le> free_slots (dk w) then 0 else 1)
   \<and> snd (gemm_stage3 (driver_kernel mem fresh) device mapped w) = 1
   \<and> (\<forall>scale_add w'. row_via_scale_add (driver_kernel mem fresh) scale_add device w \<noteq> Some (w', 0))"
proof -
  have inv: "mem_inv (dk w)" using reachable_mem_inv [OF assms(1)] assms(2) by simp
  note allocs = session_allocs_driver [OF inv assms(3)]
  have "row_via_scale_add (driver_kernel mem fresh) scale_add device w \<noteq> Some (w', 0)" for scale_add w'
    using row_fails_on_driver [OF inv assms(3), of fresh mem scale_add device w' 0] by auto
  then show ?thesis by (simp add: stage1_code stage2_code stage3_code allocs)
qed

theorem gemm_on_driver_witness:
  "(let w = start_world run_setup []; K = driver_kernel (Some (0x9000, 0x8000)) (Some 2); z = (\<lambda>_ _. 0)
    in snd (gemm_stage1 K ''/dev/dma_accel0'' z w) = 0 \<and> snd (gemm_stage2 K ''/dev/dma_accel0'' z w) = 0
       \<and> snd (gemm_stage3 K ''/dev/dma_accel0'' z w) = 1
       \<and> (\<forall>w'. row_via_scale_add K (\<lambda>a x. map2 (\<lambda>u v. u * x + v) a) ''/dev/dma_accel0'' w \<noteq> Some (w', 0)))"
proof -
  let ?w = "start_world run_setup []"
  have new: "sessions (dk ?w) p = None" if "Some 2 = Some p" for p
  proof -
    have "Option.is_none (sessions (dk ?w) 2)" by code_simp
    with that show ?thesis by (simp add: Option.is_none_def)
  qed
  have free: "12 \<le> free_slots (dk ?w)" by code_simp
  have dk: "dk ?w = sk (after 1 run_setup)" by (simp add: start_world_def)
  from gemm_on_driver [OF reachable_after dk new, where mem = "Some (0x9000, 0x8000)" and fresh = "Some 2"] free
  show ?thesis by (simp add: Let_def)
qed

end
