(* ===== verification/Leak_Probe.thy ===== *)
theory Leak_Probe
  imports Gemm_Programs Driver_Spec
begin

text \<open>
  The completion leak probe (\<^verbatim>\<open>track-b/dma_accel_completion_leak_probe.cpp\<close>): two sessions, the second
  submits a copy, the first tries to read a completion, then the second does. It was written to show
  that the first takes the completion of the second. On the driver of this repository it cannot: the
  report is the same for every order in which the device completes commands.

  The program is over the system calls of the runtime's kernel record. \<^verbatim>\<open>std::exit(1)\<close> is the exit code
  1 with no report; a call that blocks for ever is \<open>None\<close>. The report is the list of messages that
  carry a result.
\<close>

section \<open>The program\<close>

definition lp_kBufSize :: u32 where [accel_simps]: "lp_kBufSize = 4096"
definition kPollTimeoutMs :: int where "kPollTimeoutMs = 1000"

text \<open>\<^verbatim>\<open>addr_\<close> and \<^verbatim>\<open>len_\<close>; the null pointer is \<open>None\<close>.\<close>

record MappedBuffer =
  mb_addr :: "u64 option"
  mb_len :: u32

definition MAP_FAILED :: u64 where "MAP_FAILED = - 1"

definition MappedBuffer_reset :: "'w kernel \<Rightarrow> MappedBuffer \<Rightarrow> 'w \<Rightarrow> MappedBuffer \<times> 'w" where
  "MappedBuffer_reset K b w =
     (\<lparr>mb_addr = None, mb_len = 0\<rparr>,
      case mb_addr b of None \<Rightarrow> w | Some a \<Rightarrow> if a = MAP_FAILED then w else sys_munmap K a (mb_len b) w)"

text \<open>The move assignment from another object: the new contents of both.\<close>

definition MappedBuffer_assign :: "'w kernel \<Rightarrow> MappedBuffer \<Rightarrow> MappedBuffer \<Rightarrow> 'w
    \<Rightarrow> MappedBuffer \<times> MappedBuffer \<times> 'w" where
  "MappedBuffer_assign K this other w =
     (let (this, w) = MappedBuffer_reset K this w
      in (\<lparr>mb_addr = mb_addr other, mb_len = mb_len other\<rparr>, \<lparr>mb_addr = None, mb_len = 0\<rparr>, w))"

text \<open>The move constructor assigns to the default-initialised object.\<close>

definition MappedBuffer_move :: "'w kernel \<Rightarrow> MappedBuffer \<Rightarrow> 'w \<Rightarrow> MappedBuffer \<times> MappedBuffer \<times> 'w" where
  "MappedBuffer_move K other w = MappedBuffer_assign K \<lparr>mb_addr = None, mb_len = 0\<rparr> other w"

definition alloc_and_map :: "'w kernel \<Rightarrow> int \<Rightarrow> u32 \<Rightarrow> 'w \<Rightarrow> 'w \<times> (MappedBuffer \<times> u32) option" where
  "alloc_and_map K fd sz w =
     (case ioctl_buffer_alloc K fd \<lparr>ba_size = sz, ba_buffer_id = 0, ba_mmap_offset = 0\<rparr> w of
        (w, Inl e) \<Rightarrow> (w, None)
      | (w, Inr req) \<Rightarrow>
          (case sys_mmap K fd sz (ba_mmap_offset req) w of
             (w, Inl e) \<Rightarrow> (w, None)
           | (w, Inr addr) \<Rightarrow> (w, Some (\<lparr>mb_addr = Some addr, mb_len = sz\<rparr>, ba_buffer_id req))))"

definition lp_submit_copy :: "'w kernel \<Rightarrow> int \<Rightarrow> u32 \<Rightarrow> u32 \<Rightarrow> 'w \<Rightarrow> ('w \<times> u64 option) option" where
  "lp_submit_copy K fd src_id dst_id w =
     map_option (\<lambda>(w, r). (w, case r of Inl e \<Rightarrow> None | Inr req \<Rightarrow> Some (sub_cmd_id req)))
       (ioctl_submit K fd
          \<lparr>sub_opcode = OPCODE_COPY, sub_len = lp_kBufSize, sub_src_buffer_id = src_id, sub_src_offset = 0,
           sub_dst_buffer_id = dst_id, sub_dst_offset = 0, sub_cmd_id = 0, sub_src2_buffer_id = 0,
           sub_src2_offset = 0, sub_scalar = 0\<rparr> w)"

text \<open>One completion within the timeout, or \<open>None\<close> for false.\<close>

definition try_read_one :: "'w kernel \<Rightarrow> int \<Rightarrow> int \<Rightarrow> 'w \<Rightarrow> ('w \<times> dma_accel_completion_uapi option) option" where
  "try_read_one K fd timeout_ms w =
     Option.bind (sys_poll K fd timeout_ms w)
       (\<lambda>(w, pret). case pret of
            Inl e \<Rightarrow> Some (w, None)
          | Inr ready \<Rightarrow>
              if \<not> ready then Some (w, None)
              else Some (case sys_read K fd 1 w of
                     (w, Inl e) \<Rightarrow> (w, None)
                   | (w, Inr cs) \<Rightarrow> (w, case cs of [c] \<Rightarrow> Some c | _ \<Rightarrow> None)))"

text \<open>The messages with a result.\<close>

datatype probe_line =
    B_submitted u64             \<comment> \<open>\<^verbatim>\<open>B's cmd_id = ...\<close>\<close>
  | A_got_nothing
  | A_returned u64 u32
  | A_confirmed                 \<comment> \<open>\<^verbatim>\<open>CONFIRMED: A observed and consumed B's completion\<close>\<close>
  | A_unexpected
  | B_got_nothing
  | B_lost_to_A                 \<comment> \<open>\<^verbatim>\<open>CONFIRMED: B's own completion was silently lost\<close>\<close>
  | B_lost_otherwise
  | B_returned u64 u32
  | B_got_its_own

definition probe_report :: "u64 \<Rightarrow> dma_accel_completion_uapi option \<Rightarrow> dma_accel_completion_uapi option \<Rightarrow> probe_line list" where
  "probe_report b_cmd_id a_comp b_comp =
     [B_submitted b_cmd_id] @
     (case a_comp of
        None \<Rightarrow> [A_got_nothing]
      | Some c \<Rightarrow> [A_returned (ucomp_cmd_id c) (ucomp_status c),
                   if ucomp_cmd_id c = b_cmd_id then A_confirmed else A_unexpected]) @
     (case b_comp of
        None \<Rightarrow> [B_got_nothing,
                 if (case a_comp of None \<Rightarrow> False | Some c \<Rightarrow> ucomp_cmd_id c = b_cmd_id)
                 then B_lost_to_A else B_lost_otherwise]
      | Some c \<Rightarrow> B_returned (ucomp_cmd_id c) (ucomp_status c) #
                   (if ucomp_cmd_id c = b_cmd_id then [B_got_its_own] else []))"

text \<open>
  The buffers in the order of their declarations; the first failure ends the program. \<open>None\<close> is
  \<^verbatim>\<open>std::exit(1)\<close>.
\<close>

fun alloc_maps :: "'w kernel \<Rightarrow> int list \<Rightarrow> 'w \<Rightarrow> 'w \<times> (MappedBuffer \<times> u32) list option" where
  "alloc_maps K [] w = (w, Some [])"
| "alloc_maps K (fd # rest) w =
     (case alloc_and_map K fd lp_kBufSize w of
        (w, None) \<Rightarrow> (w, None)
      | (w, Some b) \<Rightarrow> (case alloc_maps K rest w of
            (w, None) \<Rightarrow> (w, None) | (w, Some bs) \<Rightarrow> (w, Some (b # bs))))"

text \<open>
  \<^verbatim>\<open>main()\<close>. \<open>nap\<close> is what happens in the world during \<^verbatim>\<open>usleep(150 * 1000)\<close>. At the end the files are closed
  and the mappings destroyed, last declared first.
\<close>

definition leak_probe :: "'w kernel \<Rightarrow> ('w \<Rightarrow> 'w) \<Rightarrow> string \<Rightarrow> 'w \<Rightarrow> ('w \<times> probe_line list \<times> int) option" where
  "leak_probe K nap device w =
     (let (w, ra) = sys_open K device w; (w, rb) = sys_open K device w in
      (case ra of Inl e \<Rightarrow> Some (w, [], 1) | Inr fd_a \<Rightarrow>
      (case rb of Inl e \<Rightarrow> Some (w, [], 1) | Inr fd_b \<Rightarrow>
      (case alloc_maps K [fd_a, fd_a, fd_b, fd_b] w of
        (w, None) \<Rightarrow> Some (w, [], 1)
      | (w, Some bufs) \<Rightarrow>
          Option.bind (lp_submit_copy K fd_b (snd (bufs ! 2)) (snd (bufs ! 3)) w)
            (\<lambda>(w, submitted). (case submitted of None \<Rightarrow> Some (w, [], 1) | Some b_cmd_id \<Rightarrow>
          Option.bind (try_read_one K fd_a kPollTimeoutMs (nap w))
            (\<lambda>(w, a_comp).
          Option.bind (try_read_one K fd_b kPollTimeoutMs w)
            (\<lambda>(w, b_comp).
          (let w = sys_close K fd_b (sys_close K fd_a w);
               w = fold (\<lambda>b w. snd (MappedBuffer_reset K (fst b) w)) (rev bufs) w
           in Some (w, probe_report b_cmd_id a_comp b_comp, 0))))))))))"

text \<open>Moving unmaps nothing and leaves one owner of the mapping.\<close>

lemma MappedBuffer_move_owner:
  "MappedBuffer_move K b w = (b, \<lparr>mb_addr = None, mb_len = 0\<rparr>, w)
   \<and> snd (MappedBuffer_reset K \<lparr>mb_addr = None, mb_len = 0\<rparr> w) = w"
  by (simp add: MappedBuffer_move_def MappedBuffer_assign_def MappedBuffer_reset_def)

section \<open>On the driver\<close>

text \<open>
  The driver as in the runtime's contract, with a \<^verbatim>\<open>kzalloc\<close> that answers each \<^verbatim>\<open>open()\<close> from the state, and
  a nap in which the device posts the next \<open>m\<close> completions.
\<close>

definition probe_kernel :: "(u64 \<times> dma_addr_t) option \<Rightarrow> (kstate \<Rightarrow> sess_ptr option) \<Rightarrow> drv_world kernel" where
  "probe_kernel mem kz =
     (driver_kernel mem None)\<lparr>sys_open := \<lambda>path w. sys_open (driver_kernel mem (kz (dk w))) path w\<rparr>"

fun drv_nap :: "nat \<Rightarrow> drv_world \<Rightarrow> drv_world" where
  "drv_nap 0 w = w"
| "drv_nap (Suc m) w =
     (case dscript w of
        [] \<Rightarrow> w
      | c # cs \<Rightarrow> (case isr_completion c (dk w) of
            None \<Rightarrow> w
          | Some k \<Rightarrow> drv_nap m (w\<lparr>dk := k, dscript := cs\<rparr>)))"

text \<open>
  What the command table and the two sessions look like once B's command \<open>c\<close> is in: A has nothing
  unread and nothing in flight; B has the command \<open>c\<close> in flight, or the completion that answered
  it unread; nobody else has an identifier \<open>c\<close>.
\<close>

definition probe_table :: "sess_ptr \<Rightarrow> sess_ptr \<Rightarrow> u64 \<Rightarrow> nat \<Rightarrow> sess_ptr set \<Rightarrow> dma_accel_cmd_ctx list \<Rightarrow> bool" where
  "probe_table pa pb c n S t \<longleftrightarrow>
     (\<forall>e \<in> set t. cc_valid e \<longrightarrow> (\<exists>p \<in> S. cc_sess e = Some p) \<and> cc_sess e \<noteq> Some pa
        \<and> (cc_sess e = Some pb \<longleftrightarrow> cc_cmd_id e = c))
     \<and> count_if (\<lambda>e. cc_valid e \<and> cc_cmd_id e = c) t = n"

definition probe_state :: "sess_ptr \<Rightarrow> sess_ptr \<Rightarrow> u64 \<Rightarrow> dma_accel_completion option \<Rightarrow> kstate \<Rightarrow> bool" where
  "probe_state pa pb c got k \<longleftrightarrow>
     probe_table pa pb c (if got = None then 1 else 0) (dom (sessions k)) (cmd_table (kdev k))
     \<and> (\<exists>xa. sessions k pa = Some xa \<and> unread xa = [])
     \<and> (\<exists>xb. sessions k pb = Some xb \<and> wf_session xb \<and> unread xb = (case got of None \<Rightarrow> [] | Some d \<Rightarrow> [d]))"

lemma probe_stateD:
  assumes "probe_state pa pb c got k"
  shows "probe_table pa pb c (if got = None then 1 else 0) (dom (sessions k)) (cmd_table (kdev k))"
    and "\<exists>xa. sessions k pa = Some xa \<and> unread xa = []"
    and "\<exists>xb. sessions k pb = Some xb \<and> wf_session xb \<and> unread xb = (case got of None \<Rightarrow> [] | Some d \<Rightarrow> [d])"
  using assms unfolding probe_state_def by blast+

lemma probe_tableD:
  assumes "probe_table pa pb c n S t" and "e \<in> set t" and "cc_valid e"
  shows "\<exists>p \<in> S. cc_sess e = Some p" and "cc_sess e \<noteq> Some pa" and "cc_sess e = Some pb \<longleftrightarrow> cc_cmd_id e = c"
  using assms unfolding probe_table_def by blast+

lemma probe_table_mono: "probe_table pa pb c n S t \<Longrightarrow> S \<subseteq> S' \<Longrightarrow> probe_table pa pb c n S' t"
  unfolding probe_table_def by blast

text \<open>Clearing an entry takes one off the count if it was the command's; an admission adds it.\<close>

lemma probe_table_clear:
  assumes "probe_table pa pb c n S t" and i: "i < length t" "cc_valid (t ! i)"
  shows "probe_table pa pb c (n - (if cc_cmd_id (t ! i) = c then 1 else 0)) S (t[i := (t ! i)\<lparr>cc_valid := False\<rparr>])"
proof -
  have "e \<in> set t" if "e \<in> set (t[i := (t ! i)\<lparr>cc_valid := False\<rparr>])" "cc_valid e" for e
    using that set_update_subset_insert [of t i "(t ! i)\<lparr>cc_valid := False\<rparr>"] by auto
  moreover have "count_if (\<lambda>e. cc_valid e \<and> cc_cmd_id e = c) (t[i := (t ! i)\<lparr>cc_valid := False\<rparr>])
      = n - (if cc_cmd_id (t ! i) = c then 1 else 0)"
    using count_if_update [OF i(1), of "\<lambda>e. cc_valid e \<and> cc_cmd_id e = c" "(t ! i)\<lparr>cc_valid := False\<rparr>"] assms
    by (auto simp: probe_table_def split: if_splits)
  ultimately show ?thesis using assms(1) by (simp add: probe_table_def)
qed

lemma probe_table_admit:
  assumes "probe_table pa pb c n S t" and i: "i < length t" "\<not> cc_valid (t ! i)" and p: "pb \<in> S" "pa \<noteq> pb"
  shows "probe_table pa pb c (Suc n) S (t[i := \<lparr>cc_valid = True, cc_cmd_id = c, cc_sess = Some pb\<rparr>])"
proof -
  let ?new = "\<lparr>cc_valid = True, cc_cmd_id = c, cc_sess = Some pb\<rparr>"
  have "(\<exists>p \<in> S. cc_sess e = Some p) \<and> cc_sess e \<noteq> Some pa \<and> (cc_sess e = Some pb \<longleftrightarrow> cc_cmd_id e = c)"
    if "e \<in> set (t[i := ?new])" "cc_valid e" for e
  proof (cases "e = ?new")
    case False
    then have "e \<in> set t" using that(1) set_update_subset_insert [of t i ?new] by auto
    from probe_tableD [OF assms(1) this that(2)] show ?thesis by blast
  qed (use p in auto)
  moreover have "count_if (\<lambda>e. cc_valid e \<and> cc_cmd_id e = c) (t[i := ?new]) = Suc n"
    using count_if_update_add [OF i(1), of "\<lambda>e. cc_valid e \<and> cc_cmd_id e = c" ?new] i(2) assms(1)
    by (simp add: probe_table_def)
  ultimately show ?thesis unfolding probe_table_def by blast
qed

text \<open>One completion, whatever it is.\<close>

lemma probe_completion:
  assumes st: "probe_state pa pb c got k" and ne: "pa \<noteq> pb"
  obtains k' where "isr_completion d k = Some k'"
    "probe_state pa pb c (if got = None \<and> comp_cmd_id d = c then Some d else got) k'"
proof -
  let ?t = "cmd_table (kdev k)"
  note T = probe_stateD(1) [OF st] and X = probe_stateD(2,3) [OF st]
  show ?thesis
  proof (cases "first_index (\<lambda>e. cc_valid e \<and> cc_cmd_id e = comp_cmd_id d) ?t")
    case None
    then have "count_if (\<lambda>e. cc_valid e \<and> cc_cmd_id e = comp_cmd_id d) ?t = 0"
      by (simp add: count_if_zero_iff first_index_None)
    then have "got \<noteq> None \<or> comp_cmd_id d \<noteq> c" using T by (auto simp: probe_table_def)
    with None st show ?thesis by (intro that [of k]) (auto simp: isr_completion_def isr_route_def)
  next
    case (Some i)
    note i = first_index_SomeD [OF Some] and e = nth_mem [OF first_index_SomeD(1) [OF Some]]
    note E = probe_tableD [OF T e]
    from E(1) i(2) obtain q x where q: "cc_sess (?t ! i) = Some q" "sessions k q = Some x" by auto
    let ?t' = "?t[i := (?t ! i)\<lparr>cc_valid := False\<rparr>]" and ?got = "if got = None \<and> comp_cmd_id d = c then Some d else got"
    let ?k = "k\<lparr>kdev := total_inflight_dec ((kdev k)\<lparr>cmd_table := ?t'\<rparr>),
         sessions := (sessions k)(q \<mapsto> session_inflight_dec (isr_deliver d x))\<rparr>"
    have run: "isr_completion d k = Some ?k" using Some q by (simp add: isr_completion_def isr_route_def)
    have qa: "q \<noteq> pa" and qb: "q = pb \<longleftrightarrow> comp_cmd_id d = c" using E(2,3) i(2) q(1) by auto
    have got: "got = None" if "comp_cmd_id d = c"
    proof (rule ccontr)
      assume "got \<noteq> None"
      then have "\<forall>e \<in> set ?t. \<not> (cc_valid e \<and> cc_cmd_id e = c)"
        using T by (auto simp: probe_table_def count_if_zero_iff)
      then show False using e i(2) that by blast
    qed
    have "probe_table pa pb c (if ?got = None then 1 else 0) (dom (sessions ?k)) ?t'"
      using probe_table_clear [OF T i(1)] i(2) got q(2) by (auto simp: insert_absorb domI split: if_splits)
    moreover have "\<exists>y. sessions ?k pb = Some y \<and> wf_session y \<and> unread y = (case ?got of None \<Rightarrow> [] | Some d \<Rightarrow> [d])"
      using X(2) q(2) qb got isr_deliver_unread [of x d] isr_deliver_wf [of x d]
      by (cases "comp_cmd_id d = c") (auto simp: accel_simps)
    moreover have "\<exists>y. sessions ?k pa = Some y \<and> unread y = []" using X(1) qa by simp
    ultimately have "probe_state pa pb c ?got ?k" by (simp add: probe_state_def total_inflight_dec_def)
    with run show ?thesis by (rule that)
  qed
qed

text \<open>The completion B has got, after the device has posted more.\<close>

definition first_for :: "u64 \<Rightarrow> dma_accel_completion option \<Rightarrow> dma_accel_completion list \<Rightarrow> dma_accel_completion option" where
  "first_for c got xs = (case got of None \<Rightarrow> find (\<lambda>d. comp_cmd_id d = c) xs | Some d \<Rightarrow> Some d)"

lemma first_for_simps [simp]:
  "first_for c got [] = got"
  "first_for c got (d # ds) = first_for c (if got = None \<and> comp_cmd_id d = c then Some d else got) ds"
  by (simp_all add: first_for_def split: option.split)

lemma first_for_append: "first_for c got (xs @ ys) = first_for c (first_for c got xs) ys"
  by (simp add: first_for_def find_append_case split: option.split)

lemma probe_nap:
  assumes "probe_state pa pb c got (dk w)" and "pa \<noteq> pb"
  shows "\<exists>k. drv_nap m w = w\<lparr>dk := k, dscript := drop m (dscript w)\<rparr>
     \<and> probe_state pa pb c (first_for c got (take m (dscript w))) k"
  using assms
proof (induction m w arbitrary: got rule: drv_nap.induct)
  case (1 w)
  then show ?case by (intro exI [of _ "dk w"]) simp
next
  case (2 m w)
  show ?case
  proof (cases "dscript w")
    case Nil
    with 2 show ?thesis by (intro exI [of _ "dk w"]) simp
  next
    case (Cons d ds)
    obtain k where k: "isr_completion d (dk w) = Some k"
      "probe_state pa pb c (if got = None \<and> comp_cmd_id d = c then Some d else got) k"
      using probe_completion [OF 2(2,3)] .
    with 2(1) [OF Cons k(1), of "if got = None \<and> comp_cmd_id d = c then Some d else got"] 2(3) Cons
    show ?thesis by simp
  qed
qed

text \<open>A is never readable: its poll lets the device finish and times out.\<close>

lemma probe_poll_A:
  assumes "probe_state pa pb c got k" and "pa \<noteq> pb" and "0 \<le> t"
  shows "\<exists>k'. drv_poll pa t script k = Some (k', [], False) \<and> probe_state pa pb c (first_for c got script) k'"
  using assms(1)
proof (induction script arbitrary: got k)
  case Nil
  then show ?case using probe_stateD(2) [OF Nil] assms(3) by (auto simp: drv_poll.simps [of pa t "[]" k] chr_poll_iff)
next
  case (Cons d ds)
  obtain k1 where k1: "isr_completion d k = Some k1"
    "probe_state pa pb c (if got = None \<and> comp_cmd_id d = c then Some d else got) k1"
    using probe_completion [OF Cons.prems assms(2)] .
  from Cons.IH [OF k1(2)] k1(1) probe_stateD(2) [OF Cons.prems] show ?case
    by (auto simp: drv_poll.simps [of pa t "d # ds" k] chr_poll_iff)
qed

lemma probe_read_A:
  assumes "probe_state pa pb c got (dk w)" and "pa \<noteq> pb"
  shows "\<exists>k. try_read_one (probe_kernel mem kz) (int pa) kPollTimeoutMs w = Some (w\<lparr>dk := k, dscript := []\<rparr>, None)
     \<and> probe_state pa pb c (first_for c got (dscript w)) k"
proof -
  obtain k where "drv_poll pa kPollTimeoutMs (dscript w) (dk w) = Some (k, [], False)"
    "probe_state pa pb c (first_for c got (dscript w)) k"
    using probe_poll_A [OF assms, of kPollTimeoutMs "dscript w"] by (auto simp: kPollTimeoutMs_def)
  then show ?thesis by (intro exI [of _ k]) (simp add: try_read_one_def probe_kernel_def driver_kernel_def)
qed

lemma probe_read_B:
  assumes st: "probe_state pa pb c got (dk w)" and "dscript w = []"
  shows "\<exists>w'. try_read_one (probe_kernel mem kz) (int pb) kPollTimeoutMs w = Some (w', map_option to_uapi got)"
proof -
  obtain x where x: "sessions (dk w) pb = Some x" "wf_session x" "unread x = (case got of None \<Rightarrow> [] | Some d \<Rightarrow> [d])"
    using probe_stateD(3) [OF st] by blast
  show ?thesis
  proof (cases got)
    case None
    with x assms(2) show ?thesis
      by (simp add: try_read_one_def probe_kernel_def driver_kernel_def drv_poll.simps chr_poll_iff kPollTimeoutMs_def)
  next
    case (Some d)
    then have u: "unread x = [d]" using x(3) by simp
    have sz: "sizeof_completion_uapi \<le> 1 * sizeof_completion_uapi" by simp
    from chr_read_takes [OF x(2) _ sz, of 0] u obtain x' where
      "dma_accel_chr_read (\<lambda>_. True) (1 * sizeof_completion_uapi) 0 x = (x', int sizeof_completion_uapi, Inr [to_uapi d])"
      by (auto simp: Let_def sizeof_completion_uapi_def)
    with x(1) u Some assms(2) show ?thesis
      by (simp add: try_read_one_def probe_kernel_def driver_kernel_def drv_poll.simps chr_poll_iff)
  qed
qed

section \<open>The way to B's submission\<close>

text \<open>What the opens and allocations of the probe leave of the state \<open>w0\<close> they started in.\<close>

definition probe_ready :: "sess_ptr \<Rightarrow> sess_ptr \<Rightarrow> drv_world \<Rightarrow> drv_world \<Rightarrow> bool" where
  "probe_ready pa pb w0 w \<longleftrightarrow> mem_inv (dk w) \<and> dscript w = dscript w0
     \<and> (\<exists>bs a. kdev (dk w) = (kdev (dk w0))\<lparr>buffers := bs, active_sessions := a\<rparr>)
     \<and> (\<exists>bm. sessions (dk w) pa = Some (init_session\<lparr>owned_buffers := bm\<rparr>))
     \<and> (\<exists>bm. sessions (dk w) pb = Some (init_session\<lparr>owned_buffers := bm\<rparr>))
     \<and> dom (sessions (dk w0)) \<subseteq> dom (sessions (dk w))"

lemma probe_alloc:
  assumes rd: "probe_ready pa pb w0 w" and p: "p = pa \<or> p = pb"
    and yes: "mem \<noteq> None" "0 < quota_left (dk w) p" "0 < free_slots (dk w)"
  obtains slot ka da w' b where
    "alloc_and_map (probe_kernel mem kz) (int p) lp_kBufSize w = (w', Some (b, of_nat slot))"
    "probe_ready pa pb w0 w'" "slot < MAX_BUFFERS"
    "buffers (kdev (dk w')) ! slot = alloc_entry ka da p lp_kBufSize"
    "\<And>i. i < MAX_BUFFERS \<Longrightarrow> be_in_use (buffers (kdev (dk w)) ! i) \<Longrightarrow> buffers (kdev (dk w')) ! i = buffers (kdev (dk w)) ! i"
    "\<And>q. q \<noteq> p \<Longrightarrow> quota_left (dk w') q = quota_left (dk w) q"
    "Suc (quota_left (dk w') p) = quota_left (dk w) p" "Suc (free_slots (dk w')) = free_slots (dk w)"
proof -
  have inv: "mem_inv (dk w)" using rd by (simp add: probe_ready_def)
  obtain bm where x: "sessions (dk w) p = Some (init_session\<lparr>owned_buffers := bm\<rparr>)"
    using rd p by (auto simp: probe_ready_def)
  have sz: "lp_kBufSize \<noteq> 0" "lp_kBufSize \<le> DMA_ACCEL_BUFFER_ALLOC_MAX" by (simp_all add: accel_simps)
  from drv_alloc_succeeds [OF inv x sz yes, of None] obtain slot ka da w' where r:
    "slot < MAX_BUFFERS" "\<not> be_in_use (buffers (kdev (dk w)) ! slot)"
    "w' = w\<lparr>dk := put_session (dk w) p
       ((kdev (dk w))\<lparr>buffers := (buffers (kdev (dk w)))[slot := alloc_entry ka da p lp_kBufSize]\<rparr>,
        (init_session\<lparr>owned_buffers := bm\<rparr>)\<lparr>owned_buffers := (owned_buffers (init_session\<lparr>owned_buffers := bm\<rparr>))[slot := True]\<rparr>)\<rparr>"
    "ioctl_buffer_alloc (driver_kernel mem None) (int p) \<lparr>ba_size = lp_kBufSize, ba_buffer_id = 0, ba_mmap_offset = 0\<rparr> w
     = (w', Inr \<lparr>ba_size = lp_kBufSize, ba_buffer_id = of_nat slot, ba_mmap_offset = push_bit PAGE_SHIFT (of_nat slot)\<rparr>)"
    "sys_mmap (driver_kernel mem None) (int p) lp_kBufSize (push_bit PAGE_SHIFT (of_nat slot)) w' = (w', Inr ka)"
    "mem_inv (dk w')" "Suc (quota_left (dk w') p) = quota_left (dk w) p" "Suc (free_slots (dk w')) = free_slots (dk w)"
    by metis
  have run: "alloc_and_map (probe_kernel mem kz) (int p) lp_kBufSize w
      = (w', Some (\<lparr>mb_addr = Some ka, mb_len = lp_kBufSize\<rparr>, of_nat slot))"
    using r(4,5) by (simp add: alloc_and_map_def probe_kernel_def)
  obtain bs a where d: "kdev (dk w) = (kdev (dk w0))\<lparr>buffers := bs, active_sessions := a\<rparr>"
    using rd by (auto simp: probe_ready_def)
  have len: "length (buffers (kdev (dk w))) = MAX_BUFFERS" using mem_inv_wf(1) [OF inv] by (simp add: wf_dev_def)
  have d': "kdev (dk w') = (kdev (dk w0))\<lparr>buffers := bs[slot := alloc_entry ka da p lp_kBufSize], active_sessions := a\<rparr>"
    by (simp add: r(3) d)
  have rd': "probe_ready pa pb w0 w'"
    using rd r(6) d' by (auto simp: probe_ready_def r(3))
  show ?thesis
    by (rule that [OF run rd' r(1) _ _ _ r(7,8)]) (use r(1,2) len in \<open>auto simp: r(3) quota_left_def nth_update_if\<close>)
qed

lemma probe_opens:
  assumes inv: "mem_inv (dk w)"
    and kz: "kz (dk w) = Some pa" "sessions (dk w) pa = None"
      "kz (fst (dma_accel_chr_open (Some pa) (dk w))) = Some pb" "sessions (dk w) pb = None" and ne: "pa \<noteq> pb"
  obtains w1 w2 where "sys_open (probe_kernel mem kz) device w = (w1, Inr (int pa))"
    "sys_open (probe_kernel mem kz) device w1 = (w2, Inr (int pb))" "probe_ready pa pb w w2"
    "quota_left (dk w2) pa = 16" "quota_left (dk w2) pb = 16" "free_slots (dk w2) = free_slots (dk w)"
proof -
  let ?k1 = "fst (dma_accel_chr_open (Some pa) (dk w))"
  let ?k2 = "fst (dma_accel_chr_open (Some pb) ?k1)"
  have o1: "sys_open (probe_kernel mem kz) device w = (w\<lparr>dk := ?k1\<rparr>, Inr (int pa))"
    using kz(1) by (simp add: probe_kernel_def driver_kernel_def dma_accel_chr_open_def)
  have o2: "sys_open (probe_kernel mem kz) device (w\<lparr>dk := ?k1\<rparr>) = (w\<lparr>dk := ?k2\<rparr>, Inr (int pb))"
    using kz(3) by (simp add: probe_kernel_def driver_kernel_def dma_accel_chr_open_def)
  have "mem_inv ?k1" by (rule mem_inv_open [OF inv kz(2)])
  then have "mem_inv ?k2" by (rule mem_inv_open) (use kz(4) ne in simp)
  moreover have i: "init_session = init_session\<lparr>owned_buffers := owned_buffers init_session\<rparr>" by simp
  moreover have "\<exists>bs a. kdev ?k2 = (kdev (dk w))\<lparr>buffers := bs, active_sessions := a\<rparr>"
    by (rule exI [of _ "buffers (kdev (dk w))"], rule exI [of _ "active_sessions (kdev (dk w)) + 2"])
       (simp add: dma_accel_chr_open_def)
  ultimately have "probe_ready pa pb w (w\<lparr>dk := ?k2\<rparr>)"
    unfolding probe_ready_def using ne by (auto intro: exI [of _ "owned_buffers init_session"])
  moreover have "quota_left ?k2 pa = 16" "quota_left ?k2 pb = 16"
    using ne by (simp_all add: quota_left_def init_session_def bitmap_weight_def count_if_def accel_simps)
  moreover have "free_slots ?k2 = free_slots (dk w)" by (simp add: free_slots_def dma_accel_chr_open_def)
  ultimately show ?thesis using that [OF o1 o2] by simp
qed

text \<open>The four buffers; those of B end up in its two requests.\<close>

lemma probe_allocs:
  assumes rd: "probe_ready pa pb w0 w" and ne: "pa \<noteq> pb" and mem: "mem \<noteq> None"
    and q: "2 \<le> quota_left (dk w) pa" "2 \<le> quota_left (dk w) pb" and f: "4 \<le> free_slots (dk w)"
  obtains w' bufs s3 s4 k3 d3 k4 d4 where
    "alloc_maps (probe_kernel mem kz) [int pa, int pa, int pb, int pb] w = (w', Some bufs)"
    "snd (bufs ! 2) = of_nat s3" "snd (bufs ! 3) = of_nat s4" "probe_ready pa pb w0 w'"
    "s3 < MAX_BUFFERS" "buffers (kdev (dk w')) ! s3 = alloc_entry k3 d3 pb lp_kBufSize"
    "s4 < MAX_BUFFERS" "buffers (kdev (dk w')) ! s4 = alloc_entry k4 d4 pb lp_kBufSize"
proof -
  let ?K = "probe_kernel mem kz"
  from q f have y: "0 < quota_left (dk w) pa" "0 < free_slots (dk w)" by simp_all
  obtain s1 w1 b1 where a1: "alloc_and_map ?K (int pa) lp_kBufSize w = (w1, Some (b1, of_nat s1))" "probe_ready pa pb w0 w1"
    "quota_left (dk w1) pb = quota_left (dk w) pb" "Suc (quota_left (dk w1) pa) = quota_left (dk w) pa"
    "Suc (free_slots (dk w1)) = free_slots (dk w)"
    by (rule probe_alloc [OF rd disjI1 [OF refl] mem y, of kz]) (use ne in auto)
  from q f a1 have y: "0 < quota_left (dk w1) pa" "0 < free_slots (dk w1)" by simp_all
  obtain s2 w2 b2 where a2: "alloc_and_map ?K (int pa) lp_kBufSize w1 = (w2, Some (b2, of_nat s2))" "probe_ready pa pb w0 w2"
    "quota_left (dk w2) pb = quota_left (dk w1) pb" "Suc (free_slots (dk w2)) = free_slots (dk w1)"
    by (rule probe_alloc [OF a1(2) disjI1 [OF refl] mem y, of kz]) (use ne in auto)
  from q f a1 a2 have y: "0 < quota_left (dk w2) pb" "0 < free_slots (dk w2)" by simp_all
  obtain s3 k3 d3 w3 b3 where a3: "alloc_and_map ?K (int pb) lp_kBufSize w2 = (w3, Some (b3, of_nat s3))" "probe_ready pa pb w0 w3"
    "s3 < MAX_BUFFERS" "buffers (kdev (dk w3)) ! s3 = alloc_entry k3 d3 pb lp_kBufSize"
    "Suc (quota_left (dk w3) pb) = quota_left (dk w2) pb" "Suc (free_slots (dk w3)) = free_slots (dk w2)"
    by (rule probe_alloc [OF a2(2) disjI2 [OF refl] mem y, of kz]) auto
  from q f a1 a2 a3 have y: "0 < quota_left (dk w3) pb" "0 < free_slots (dk w3)" by simp_all
  have u3: "be_in_use (buffers (kdev (dk w3)) ! s3)" by (simp add: a3(4) alloc_entry_def)
  obtain s4 k4 d4 w4 b4 where a4: "alloc_and_map ?K (int pb) lp_kBufSize w3 = (w4, Some (b4, of_nat s4))" "probe_ready pa pb w0 w4"
    "s4 < MAX_BUFFERS" "buffers (kdev (dk w4)) ! s4 = alloc_entry k4 d4 pb lp_kBufSize"
    "buffers (kdev (dk w4)) ! s3 = buffers (kdev (dk w3)) ! s3"
    by (rule probe_alloc [OF a3(2) disjI2 [OF refl] mem y, of kz]) (use a3(3) u3 in auto)
  have run: "alloc_maps ?K [int pa, int pa, int pb, int pb] w
      = (w4, Some [(b1, of_nat s1), (b2, of_nat s2), (b3, of_nat s3), (b4, of_nat s4)])"
    by (simp add: a1(1) a2(1) a3(1) a4(1))
  show ?thesis by (rule that [OF run _ _ a4(2) a3(3) _ a4(3,4)]) (use a3(4) a4(5) in simp_all)
qed

text \<open>
  The identifier the driver would give next is in no table entry of a reachable state, so the table
  is what the probe expects before B's submission: no entry for A, none for B, none with \<open>c\<close>.
\<close>

lemma probe_table_initial:
  assumes reach: "reachable n s" and none: "sessions (sk s) pa = None" "sessions (sk s) pb = None"
    and wrap: "next_cmd_id (kdev (sk s)) \<noteq> - 1"
  shows "probe_table pa pb (next_cmd_id (kdev (sk s)) + 1) 0 (dom (sessions (sk s))) (cmd_table (kdev (sk s)))"
proof -
  let ?n = "next_cmd_id (kdev (sk s))"
  have "1 + ?n \<noteq> 0" using wrap by (metis add_eq_0_iff minus_minus)
  then have lt: "?n < ?n + 1" by (simp add: word_less_nat_alt unatSuc add.commute [of _ 1])
  have "\<exists>p \<in> dom (sessions (sk s)). cc_sess e = Some p \<and> p \<noteq> pa \<and> p \<noteq> pb \<and> cc_cmd_id e \<noteq> ?n + 1"
    if e: "e \<in> set (cmd_table (kdev (sk s)))" "cc_valid e" for e
  proof -
    obtain p where p: "cc_sess e = Some p" "p \<in> dom (sessions (sk s))"
      using live_invD(1) [OF core_invD(2) [OF reachable_core_inv [OF reach]] e] by blast
    have "(cc_cmd_id e, p) \<in> set (issued s)"
      using route_invD(2) [OF reachable_route_inv [OF reach], of e p] e p(1) by (simp add: valid_of_def)
    then have "cc_cmd_id e \<le> ?n" using id_invD(2) [OF reachable_id_inv [OF reach]] by simp
    then have "cc_cmd_id e \<noteq> ?n + 1" using lt by auto
    with p none show ?thesis by auto
  qed
  then show ?thesis by (fastforce simp: probe_table_def count_if_zero_iff)
qed

text \<open>A copy between two of the session's own buffers passes the checks of the submit path.\<close>

lemma probe_validates:
  assumes s3: "s3 < MAX_BUFFERS" "buffers d ! s3 = alloc_entry k3 d3 pb lp_kBufSize"
    and s4: "s4 < MAX_BUFFERS" "buffers d ! s4 = alloc_entry k4 d4 pb lp_kBufSize"
  shows "submit_validate pb \<lparr>sub_opcode = OPCODE_COPY, sub_len = lp_kBufSize, sub_src_buffer_id = of_nat s3,
     sub_src_offset = 0, sub_dst_buffer_id = of_nat s4, sub_dst_offset = 0, sub_cmd_id = 0,
     sub_src2_buffer_id = 0, sub_src2_offset = 0, sub_scalar = 0\<rparr> d = Inr (d3, d4, 0)"
proof -
  have ids: "unat (of_nat s3 :: u32) = s3" "unat (of_nat s4 :: u32) = s4"
    using s3(1) s4(1) by (simp_all add: accel_simps unat_of_nat)
  have pe: "\<not> past_end 0 lp_kBufSize (alloc_entry k d' pb lp_kBufSize)" for k d'
    by (simp add: past_end_def alloc_entry_def page_align_def accel_simps)
  show ?thesis
    using s3(1) s4(1) pe
    by (simp add: submit_validate_def Let_def ids s3(2) s4(2) not_le dma_accel_opcode_needs_src2_def
          OPCODE_COPY_def OPCODE_SCALE_ADD_def OPCODE_TILE_MATMUL_def)
       (simp add: alloc_entry_def)
qed

text \<open>B's request is valid and admitted, and puts the two sessions where the probe watches them.\<close>

lemma probe_submit:
  assumes rd: "probe_ready pa pb w0 w" and ne: "pa \<noteq> pb"
    and reach: "reachable n s" and w0: "dk w0 = sk s" "sessions (dk w0) pa = None" "sessions (dk w0) pb = None"
    and cap: "total_inflight (kdev (dk w0)) < int DMA_ACCEL_QUEUE_DEPTH"
    and entry: "\<exists>e \<in> set (cmd_table (kdev (dk w0))). \<not> cc_valid e"
    and wrap: "next_cmd_id (kdev (dk w0)) \<noteq> - 1"
    and s3: "s3 < MAX_BUFFERS" "buffers (kdev (dk w)) ! s3 = alloc_entry k3 d3 pb lp_kBufSize"
    and s4: "s4 < MAX_BUFFERS" "buffers (kdev (dk w)) ! s4 = alloc_entry k4 d4 pb lp_kBufSize"
  obtains w' where
    "lp_submit_copy (probe_kernel mem kz) (int pb) (of_nat s3) (of_nat s4) w = Some (w', Some (next_cmd_id (kdev (dk w0)) + 1))"
    "probe_state pa pb (next_cmd_id (kdev (dk w0)) + 1) None (dk w')" "dscript w' = dscript w0"
proof -
  let ?d = "kdev (dk w)" and ?c = "next_cmd_id (kdev (dk w0)) + 1" and ?t = "cmd_table (kdev (dk w0))"
  obtain bs a where d: "?d = (kdev (dk w0))\<lparr>buffers := bs, active_sessions := a\<rparr>" using rd by (auto simp: probe_ready_def)
  obtain ma where xa: "sessions (dk w) pa = Some (init_session\<lparr>owned_buffers := ma\<rparr>)" using rd by (auto simp: probe_ready_def)
  obtain mb where xb: "sessions (dk w) pb = Some (init_session\<lparr>owned_buffers := mb\<rparr>)" using rd by (auto simp: probe_ready_def)
  have inv: "mem_inv (dk w)" and dom: "dom (sessions (dk w0)) \<subseteq> dom (sessions (dk w))" and script: "dscript w = dscript w0"
    using rd by (simp_all add: probe_ready_def)
  have adm: "dma_accel_admission_likely_ok (?d, init_session\<lparr>owned_buffers := mb\<rparr>)"
    using cap by (simp add: dma_accel_admission_likely_ok_def d admission_quota_pos init_session_def)
  obtain slot where free: "first_index (\<lambda>c. \<not> cc_valid c) (cmd_table ?d) = Some slot"
    using entry by (cases "first_index (\<lambda>c. \<not> cc_valid c) (cmd_table ?d)") (auto simp: d first_index_None)
  have "unat (sq_tail ?d - sq_tail ?d) < DMA_ACCEL_QUEUE_DEPTH" by (simp add: accel_simps)
  from ioc_submit_runs [OF mem_inv_wf(1) [OF inv] probe_validates [OF s3 s4] adm free this, of True "[]"]
  obtain d' where d':
    "\<And>req. req = \<lparr>sub_opcode = OPCODE_COPY, sub_len = lp_kBufSize, sub_src_buffer_id = of_nat s3, sub_src_offset = 0,
        sub_dst_buffer_id = of_nat s4, sub_dst_offset = 0, sub_cmd_id = 0, sub_src2_buffer_id = 0, sub_src2_offset = 0, sub_scalar = 0\<rparr> \<Longrightarrow>
      dma_accel_ioc_submit True True [] pb req (?d, init_session\<lparr>owned_buffers := mb\<rparr>)
      = Some ((d', init_session\<lparr>owned_buffers := mb, inflight := 1\<rparr>), Inr (req\<lparr>sub_cmd_id := ?c\<rparr>))"
    "cmd_table d' = ?t[slot := \<lparr>cc_valid = True, cc_cmd_id = ?c, cc_sess = Some pb\<rparr>]"
    by (auto simp: Let_def d init_session_def)
  let ?x = "init_session\<lparr>owned_buffers := mb, inflight := 1\<rparr>"
  let ?w = "w\<lparr>dk := put_session (dk w) pb (d', ?x)\<rparr>"
  have run: "lp_submit_copy (probe_kernel mem kz) (int pb) (of_nat s3) (of_nat s4) w = Some (?w, Some ?c)"
    using d'(1) [OF refl] xb by (simp add: lp_submit_copy_def probe_kernel_def driver_kernel_def)
  have "probe_table pa pb ?c 0 (dom (sessions (dk w))) ?t"
    using probe_table_initial [OF reach] w0 wrap by (intro probe_table_mono [OF _ dom]) simp
  from probe_table_admit [OF this, of slot] first_index_SomeD [OF free] xb ne
  have "probe_table pa pb ?c 1 (dom (sessions (dk ?w))) (cmd_table (kdev (dk ?w)))"
    by (simp add: d'(2) d insert_absorb domI)
  moreover have "unread ?x = []" "unread (init_session\<lparr>owned_buffers := ma\<rparr>) = []" by (simp_all add: unread_def init_session_def)
  moreover have "wf_session ?x" using mem_inv_wf(2) [OF inv xb] by (simp add: wf_session_def)
  ultimately have "probe_state pa pb ?c None (dk ?w)" using xa ne by (simp add: probe_state_def)
  then show ?thesis by (rule that [OF run]) (use script in simp)
qed

section \<open>The report\<close>

text \<open>
  C38: the leak the probe looks for does not happen on this driver. Started on any reachable state of the
  driver with room for it, whatever the device completes, in any order and during any part of the
  nap, the probe ends with 0; A gets nothing; and B gets its own command's completion with the
  status the device posted first for it, or nothing if the device never completed the command.
\<close>

theorem leak_probe_isolated:
  assumes reach: "reachable n s" and w: "dk w = sk s"
    and kz: "kz (dk w) = Some pa" "sessions (dk w) pa = None"
      "kz (fst (dma_accel_chr_open (Some pa) (dk w))) = Some pb" "sessions (dk w) pb = None" and ne: "pa \<noteq> pb"
    and mem: "mem \<noteq> None" and slots: "4 \<le> free_slots (dk w)"
    and cap: "total_inflight (kdev (dk w)) < int DMA_ACCEL_QUEUE_DEPTH"
    and entry: "\<exists>e \<in> set (cmd_table (kdev (dk w))). \<not> cc_valid e"
    and wrap: "next_cmd_id (kdev (dk w)) \<noteq> - 1"
  shows "let c = next_cmd_id (kdev (dk w)) + 1 in
     \<exists>w'. leak_probe (probe_kernel mem kz) (drv_nap m) device w
        = Some (w', [B_submitted c, A_got_nothing] @
            (case find (\<lambda>d. comp_cmd_id d = c) (dscript w) of
               Some d \<Rightarrow> [B_returned c (comp_status d), B_got_its_own]
             | None \<Rightarrow> [B_got_nothing, B_lost_otherwise]), 0)"
proof -
  let ?K = "probe_kernel mem kz" and ?c = "next_cmd_id (kdev (dk w)) + 1"
  have inv: "mem_inv (dk w)" using reachable_mem_inv [OF reach] w by simp
  obtain w1 w2 where o: "sys_open ?K device w = (w1, Inr (int pa))" "sys_open ?K device w1 = (w2, Inr (int pb))"
    "probe_ready pa pb w w2" "quota_left (dk w2) pa = 16" "quota_left (dk w2) pb = 16" "free_slots (dk w2) = free_slots (dk w)"
    by (rule probe_opens [OF inv kz ne, of mem device])
  have q: "2 \<le> quota_left (dk w2) pa" "2 \<le> quota_left (dk w2) pb" "4 \<le> free_slots (dk w2)" using o(4-6) slots by simp_all
  obtain w3 bufs s3 s4 k3 d3 k4 d4 where al: "alloc_maps ?K [int pa, int pa, int pb, int pb] w2 = (w3, Some bufs)"
    "snd (bufs ! 2) = of_nat s3" "snd (bufs ! 3) = of_nat s4" and rd: "probe_ready pa pb w w3"
    and s3: "s3 < MAX_BUFFERS" "buffers (kdev (dk w3)) ! s3 = alloc_entry k3 d3 pb lp_kBufSize"
    and s4: "s4 < MAX_BUFFERS" "buffers (kdev (dk w3)) ! s4 = alloc_entry k4 d4 pb lp_kBufSize"
    by (rule probe_allocs [OF o(3) ne mem q, of kz])
  obtain w4 where sub: "lp_submit_copy ?K (int pb) (of_nat s3) (of_nat s4) w3 = Some (w4, Some ?c)"
    "probe_state pa pb ?c None (dk w4)" "dscript w4 = dscript w"
    by (rule probe_submit [OF rd ne reach w kz(2,4) cap entry wrap s3 s4])
  obtain k5 where nap: "drv_nap m w4 = w4\<lparr>dk := k5, dscript := drop m (dscript w)\<rparr>"
    "probe_state pa pb ?c (first_for ?c None (take m (dscript w))) k5"
    using probe_nap [OF sub(2) ne, of m] sub(3) by auto
  let ?w5 = "w4\<lparr>dk := k5, dscript := drop m (dscript w)\<rparr>"
  obtain k6 where A: "try_read_one ?K (int pa) kPollTimeoutMs ?w5 = Some (?w5\<lparr>dk := k6, dscript := []\<rparr>, None)"
    "probe_state pa pb ?c (first_for ?c None (dscript w)) k6"
    using probe_read_A [of pa pb ?c "first_for ?c None (take m (dscript w))" ?w5 mem kz, OF _ ne] nap(2)
    by (auto simp flip: first_for_append)
  let ?w6 = "?w5\<lparr>dk := k6, dscript := []\<rparr>" and ?got = "first_for ?c None (dscript w)"
  obtain w7 where B: "try_read_one ?K (int pb) kPollTimeoutMs ?w6 = Some (w7, map_option to_uapi ?got)"
    using probe_read_B [of pa pb ?c ?got ?w6] A(2) by auto
  have own: "comp_cmd_id d = ?c" if "find (\<lambda>d. comp_cmd_id d = ?c) (dscript w) = Some d" for d
    using that unfolding find_Some_iff by blast
  have rep: "probe_report ?c None (map_option to_uapi ?got) = [B_submitted ?c, A_got_nothing] @
      (case find (\<lambda>d. comp_cmd_id d = ?c) (dscript w) of
         Some d \<Rightarrow> [B_returned ?c (comp_status d), B_got_its_own] | None \<Rightarrow> [B_got_nothing, B_lost_otherwise])"
  proof (cases "find (\<lambda>d. comp_cmd_id d = ?c) (dscript w)")
    case None
    then show ?thesis by (simp add: probe_report_def first_for_def)
  next
    case (Some d)
    with own [OF Some] show ?thesis by (simp add: probe_report_def first_for_def to_uapi_def)
  qed
  have "\<exists>w'. leak_probe ?K (drv_nap m) device w = Some (w', probe_report ?c None (map_option to_uapi ?got), 0)"
    unfolding leak_probe_def o(1,2) Let_def prod.case sum.case al option.case sub(1) bind.bind_lunit nap(1) A(1) B by blast
  then show ?thesis unfolding rep Let_def .
qed

theorem leak_probe_isolated_witness:
  "\<exists>w'. leak_probe (probe_kernel (Some (0x9000, 0x8000)) (\<lambda>k. if sessions k 2 = None then Some 2 else Some 3)) (drv_nap 1)
       ''/dev/dma_accel0''
       (start_world run_setup [\<lparr>comp_cmd_id = 9, comp_status = 1, comp_reserved = 0\<rparr>,
                               \<lparr>comp_cmd_id = 2, comp_status = 5, comp_reserved = 0\<rparr>])
     = Some (w', [B_submitted 2, A_got_nothing, B_returned 2 5, B_got_its_own], 0)"
proof -
  let ?w = "start_world run_setup [\<lparr>comp_cmd_id = 9, comp_status = 1, comp_reserved = 0\<rparr>,
                               \<lparr>comp_cmd_id = 2, comp_status = 5, comp_reserved = 0\<rparr>]"
  let ?s = "after 1 run_setup" and ?kz = "\<lambda>k. if sessions k 2 = None then Some 2 else Some (3 :: sess_ptr)"
  have dk: "dk ?w = sk ?s" by (simp add: start_world_def)
  have "Option.is_none (sessions (sk ?s) 2)" "Option.is_none (sessions (sk ?s) 3)" by code_simp+
  then have new: "sessions (dk ?w) 2 = None" "sessions (dk ?w) 3 = None" by (simp_all add: dk Option.is_none_def)
  have kz: "?kz (dk ?w) = Some 2" "?kz (fst (dma_accel_chr_open (Some 2) (dk ?w))) = Some 3"
    using new by simp_all
  have free: "4 \<le> free_slots (sk ?s)" and cap: "total_inflight (kdev (sk ?s)) < int DMA_ACCEL_QUEUE_DEPTH"
    and n: "next_cmd_id (kdev (sk ?s)) = 1" by code_simp+
  have ent: "\<exists>e \<in> set (cmd_table (kdev (sk ?s))). \<not> cc_valid e" by code_simp
  have script: "dscript ?w = [\<lparr>comp_cmd_id = 9, comp_status = 1, comp_reserved = 0\<rparr>,
                               \<lparr>comp_cmd_id = 2, comp_status = 5, comp_reserved = 0\<rparr>]" by (simp add: start_world_def)
  have "?kz (dk ?w) = Some 2" "(2 :: sess_ptr) \<noteq> 3" using kz by simp_all
  from leak_probe_isolated [OF reachable_after dk kz(1) new(1) kz(2) new(2) this(2), where mem = "Some (0x9000, 0x8000)"
      and m = 1 and device = "''/dev/dma_accel0''", unfolded dk n script, OF _ free cap ent]
  show ?thesis by simp
qed

end
