(* ===== verification/Driver_Selftest.thy ===== *)
theory Driver_Selftest
  imports Driver_Isr "HOL-Library.Multiset"
begin

unbundle bit_operations_syntax

text \<open>
  The single-command register path of the driver (M3 to M5) and the self-tests that \<^verbatim>\<open>probe()\<close> runs
  before it registers the character device (M3 to M8), with every early exit. The device and the
  kernel services are the fields of a record \<open>platform\<close>, as functions of everything the driver did
  to the device so far; DMA memory is accounted for in a ledger of live blocks.
\<close>

section \<open>The platform and the state of the bring-up\<close>

text \<open>
  \<open>pl_read\<close> answers register reads, \<open>pl_irq\<close> whether an interrupt arrives before a wait times out,
  \<open>pl_cq\<close> the entries of the completion ring the device has written, \<open>pl_mem\<close> the bytes of a DMA
  buffer, \<open>pl_alloc n sz\<close> the answer of the \<open>n\<close>-th \<^verbatim>\<open>dma_alloc_coherent\<close>, and \<open>pl_waves\<close> how often
  \<^verbatim>\<open>time_before(jiffies, deadline)\<close> is going to hold for a deadline set now. The other fields are the
  answers of the calls of \<^verbatim>\<open>probe()\<close>, \<open>None\<close> standing for success.
\<close>

record platform =
  pl_read :: "hw_event list \<Rightarrow> u32 \<Rightarrow> u32"
  pl_irq :: "hw_event list \<Rightarrow> bool"
  pl_cq :: "hw_event list \<Rightarrow> nat \<Rightarrow> dma_accel_completion"
  pl_mem :: "hw_event list \<Rightarrow> u64 \<Rightarrow> nat \<Rightarrow> u8 list"
  pl_alloc :: "nat \<Rightarrow> nat \<Rightarrow> (u64 \<times> dma_addr_t) option"
  pl_waves :: "hw_event list \<Rightarrow> nat"
  pl_kzalloc :: bool
  pl_enable :: "errno option"
  pl_iomap :: "errno option"
  pl_bar0 :: bool
  pl_dma_mask :: "errno option"
  pl_irq_vectors :: "errno option"
  pl_request_irq :: "errno option"
  pl_misc_register :: "errno option"

type_synonym dma_block = "u64 \<times> dma_addr_t"

text \<open>
  \<open>bt_live\<close>: the coherent blocks not yet freed, with their size. \<open>bt_bad\<close> counts the frees of a block
  that is not live. \<open>bt_sq\<close> and \<open>bt_cq\<close> are the kernel addresses of the two rings.
\<close>

record bring_up =
  bt_dev :: dma_accel_dev
  bt_live :: "(nat \<times> dma_block) multiset"
  bt_bad :: nat
  bt_allocs :: nat
  bt_sq :: u64
  bt_cq :: u64
  bt_vectors :: bool
  bt_irq :: bool
  bt_misc :: bool

abbreviation hist :: "bring_up \<Rightarrow> hw_event list" where
  "hist s \<equiv> bar0 (bt_dev s)"

definition on_dev :: "(dma_accel_dev \<Rightarrow> dma_accel_dev) \<Rightarrow> bring_up \<Rightarrow> bring_up" where
  "on_dev f s = s\<lparr>bt_dev := f (bt_dev s)\<rparr>"

definition dma_alloc_coherent :: "platform \<Rightarrow> nat \<Rightarrow> bring_up \<Rightarrow> bring_up \<times> dma_block option" where
  "dma_alloc_coherent P sz s =
     (let s' = s\<lparr>bt_allocs := bt_allocs s + 1\<rparr>
      in case pl_alloc P (bt_allocs s) sz of
           None \<Rightarrow> (s', None)
         | Some b \<Rightarrow> (s'\<lparr>bt_live := add_mset (sz, b) (bt_live s')\<rparr>, Some b))"

definition dma_free_coherent :: "nat \<Rightarrow> dma_block \<Rightarrow> bring_up \<Rightarrow> bring_up" where
  "dma_free_coherent sz b s =
     (if (sz, b) \<in># bt_live s then s\<lparr>bt_live := bt_live s - {#(sz, b)#}\<rparr> else s\<lparr>bt_bad := bt_bad s + 1\<rparr>)"

text \<open>\<^verbatim>\<open>if (buf) dma_free_coherent(...)\<close>\<close>

definition free_if :: "nat \<Rightarrow> dma_block option \<Rightarrow> bring_up \<Rightarrow> bring_up" where
  "free_if sz b s = (case b of None \<Rightarrow> s | Some b \<Rightarrow> dma_free_coherent sz b s)"

definition write_mem :: "dma_block \<Rightarrow> u8 list \<Rightarrow> bring_up \<Rightarrow> bring_up" where
  "write_mem b bytes = on_dev (\<lambda>dev. dev\<lparr>bar0 := bar0 dev @ [MemWrite (fst b) bytes]\<rparr>)"

definition read_mem :: "platform \<Rightarrow> dma_block \<Rightarrow> nat \<Rightarrow> bring_up \<Rightarrow> u8 list" where
  "read_mem P b n s = pl_mem P (hist s) (fst b) n"

text \<open>\<^verbatim>\<open>buf[i] = (u8)(i ^ key)\<close> for all \<open>i < n\<close>.\<close>

definition pattern :: "u8 \<Rightarrow> nat \<Rightarrow> u8 list" where
  "pattern key n = map (\<lambda>i. of_nat i XOR key) [0..<n]"

definition reg :: "platform \<Rightarrow> u32 \<Rightarrow> bring_up \<Rightarrow> u32" where
  "reg P off s = dma_accel_read_reg (pl_read P) (bt_dev s) off"

definition reinit_completion :: "bring_up \<Rightarrow> bring_up" where
  "reinit_completion = on_dev (\<lambda>dev. dev\<lparr>irq_done := 0\<rparr>)"

text \<open>The interrupt handler while \<^verbatim>\<open>uapi_active\<close> is false.\<close>

definition irq_early :: "u32 \<Rightarrow> dma_accel_dev \<Rightarrow> dma_accel_dev" where
  "irq_early irq_status dev =
     (if irq_status = 0 then dev
      else let dev = dma_accel_write_reg dev REG_IRQ_STATUS irq_status in dev\<lparr>irq_done := irq_done dev + 1\<rparr>)"

lemma irq_early_handler:
  "\<not> uapi_active dev \<Longrightarrow> dma_accel_irq_handler st t \<lparr>kdev = dev, sessions = m\<rparr>
     = Some (\<lparr>kdev = irq_early st dev, sessions = m\<rparr>, if st = 0 then IRQ_NONE else IRQ_HANDLED)"
  by (simp add: dma_accel_irq_handler_def irq_early_def Let_def)

text \<open>\<^verbatim>\<open>wait_for_completion_timeout(&dev->irq_done, ...)\<close>: whether it returned in time.\<close>

definition irq_wait :: "platform \<Rightarrow> bring_up \<Rightarrow> bring_up \<times> bool" where
  "irq_wait P s =
     (let s = on_dev (\<lambda>dev. dev\<lparr>bar0 := bar0 dev @ [IrqWait]\<rparr>) s;
          s = (if pl_irq P (hist s) then on_dev (irq_early (reg P REG_IRQ_STATUS s)) s else s)
      in if 0 < irq_done (bt_dev s) then (on_dev (\<lambda>dev. dev\<lparr>irq_done := irq_done dev - 1\<rparr>) s, True)
         else (s, False))"

section \<open>The register path\<close>

definition reg_write :: "u32 \<Rightarrow> u32 \<Rightarrow> bring_up \<Rightarrow> bring_up" where
  "reg_write off v = on_dev (\<lambda>dev. dma_accel_write_reg dev off v)"

definition dma_accel_submit :: "u32 \<Rightarrow> dma_addr_t \<Rightarrow> dma_addr_t \<Rightarrow> u32 \<Rightarrow> bring_up \<Rightarrow> bring_up" where
  "dma_accel_submit opcode src_dma dst_dma len s =
     (let s = reg_write REG_OPCODE opcode s;
          s = reg_write REG_SRC_ADDR_LO (lower_32_bits src_dma) s;
          s = reg_write REG_SRC_ADDR_HI (upper_32_bits src_dma) s;
          s = reg_write REG_DST_ADDR_LO (lower_32_bits dst_dma) s;
          s = reg_write REG_DST_ADDR_HI (upper_32_bits dst_dma) s;
          s = reg_write REG_LEN len s;
          s = reg_write REG_CMD_ID_LO 0xC0FFEE s;
          s = reg_write REG_CMD_ID_HI 0 s
      in reg_write REG_CONTROL CONTROL_START s)"

definition dma_accel_retrigger_start :: "bring_up \<Rightarrow> bring_up" where
  "dma_accel_retrigger_start = reg_write REG_CONTROL CONTROL_START"

definition dma_accel_do_reset :: "bring_up \<Rightarrow> bring_up" where
  "dma_accel_do_reset = reg_write REG_CONTROL CONTROL_RESET"

definition dma_accel_wait_irq :: "platform \<Rightarrow> bring_up \<Rightarrow> bring_up \<times> u32" where
  "dma_accel_wait_irq P s = (let (s, left) = irq_wait P s in (s, reg P REG_STATUS s))"

text \<open>A return code: \<open>None\<close> is 0.\<close>

definition dma_accel_do_copy :: "platform \<Rightarrow> dma_addr_t \<Rightarrow> dma_addr_t \<Rightarrow> u32 \<Rightarrow> bring_up \<Rightarrow> bring_up \<times> errno option" where
  "dma_accel_do_copy P src_dma dst_dma len s =
     (let s = reinit_completion s;
          s = dma_accel_submit OPCODE_COPY src_dma dst_dma len s;
          status = reg P REG_STATUS s;
          (s, status) = (if status AND STATUS_BUSY \<noteq> 0 then dma_accel_wait_irq P s else (s, status))
      in if status AND STATUS_BUSY \<noteq> 0 then (s, Some ETIMEDOUT)
         else if status AND STATUS_ERROR \<noteq> 0 then (s, Some EIO)
         else (s, None))"

section \<open>M3: one copy\<close>

definition dma_accel_selftest :: "platform \<Rightarrow> bring_up \<Rightarrow> bring_up \<times> errno option" where
  "dma_accel_selftest P s =
     (case dma_alloc_coherent P SELFTEST_LEN s of
        (s, None) \<Rightarrow> (s, Some ENOMEM)
      | (s, Some src) \<Rightarrow>
         (case dma_alloc_coherent P SELFTEST_LEN s of
            (s, None) \<Rightarrow> (dma_free_coherent SELFTEST_LEN src s, Some ENOMEM)
          | (s, Some dst) \<Rightarrow>
             (let s = write_mem src (pattern 0xA5 SELFTEST_LEN) s;
                  s = write_mem dst (replicate SELFTEST_LEN 0) s;
                  (s, ret) = dma_accel_do_copy P (snd src) (snd dst) (of_nat SELFTEST_LEN) s;
                  ret = (if ret \<noteq> None then ret
                         else if read_mem P src SELFTEST_LEN s \<noteq> read_mem P dst SELFTEST_LEN s then Some EIO
                         else None);
                  s = dma_free_coherent SELFTEST_LEN dst s;
                  s = dma_free_coherent SELFTEST_LEN src s
              in (s, ret))))"

section \<open>M4: rejected commands\<close>

definition busy_body :: "platform \<Rightarrow> dma_block \<Rightarrow> dma_block \<Rightarrow> bring_up \<Rightarrow> bring_up \<times> errno option" where
  "busy_body P src dst s =
     (let s = write_mem src (pattern 0x5A SELFTEST_LEN) s;
          s = write_mem dst (replicate SELFTEST_LEN 0) s;
          s = reinit_completion s;
          s = dma_accel_submit OPCODE_COPY (snd src) (snd dst) (of_nat SELFTEST_LEN) s;
          s = dma_accel_retrigger_start s;
          status = reg P REG_STATUS s;
          err = reg P REG_ERROR_CODE s;
          ret = (if status AND STATUS_BUSY = 0 \<or> status AND STATUS_ERROR = 0 \<or> err \<noteq> DMA_ACCEL_ERR_BUSY
                 then Some EIO else None);
          (s, status) = dma_accel_wait_irq P s
      in if status AND STATUS_BUSY \<noteq> 0 then (s, Some ETIMEDOUT)
         else if status AND STATUS_ERROR \<noteq> 0 then (s, Some EIO)
         else if read_mem P src SELFTEST_LEN s \<noteq> read_mem P dst SELFTEST_LEN s then (s, Some EIO)
         else (s, ret))"

definition dma_accel_test_busy_rejection :: "platform \<Rightarrow> bring_up \<Rightarrow> bring_up \<times> errno option" where
  "dma_accel_test_busy_rejection P s =
     (let (s, src_buf) = dma_alloc_coherent P SELFTEST_LEN s;
          (s, dst_buf) = dma_alloc_coherent P SELFTEST_LEN s;
          (s, ret) = (case (src_buf, dst_buf) of
              (Some src, Some dst) \<Rightarrow> busy_body P src dst s
            | _ \<Rightarrow> (s, Some ENOMEM));
          s = free_if SELFTEST_LEN dst_buf s;
          s = free_if SELFTEST_LEN src_buf s
      in (s, ret))"

text \<open>The two tests of a command that must be rejected at once differ in command and error code.\<close>

definition rejected_test :: "u32 \<Rightarrow> u32 \<Rightarrow> u32 \<Rightarrow> platform \<Rightarrow> bring_up \<Rightarrow> bring_up \<times> errno option" where
  "rejected_test opcode len want P s =
     (case dma_alloc_coherent P SELFTEST_LEN s of
        (s, None) \<Rightarrow> (s, Some ENOMEM)
      | (s, Some dummy) \<Rightarrow>
         (let s = dma_accel_do_reset s;
              s = dma_accel_submit opcode (snd dummy) (snd dummy) len s;
              status = reg P REG_STATUS s;
              err = reg P REG_ERROR_CODE s;
              ret = (if status AND STATUS_BUSY \<noteq> 0 \<or> status AND STATUS_ERROR = 0 \<or> err \<noteq> want
                     then Some EIO else None)
          in (dma_free_coherent SELFTEST_LEN dummy s, ret)))"

definition dma_accel_test_invalid_length :: "platform \<Rightarrow> bring_up \<Rightarrow> bring_up \<times> errno option" where
  "dma_accel_test_invalid_length = rejected_test OPCODE_COPY 0 DMA_ACCEL_ERR_LENGTH"

definition dma_accel_test_invalid_opcode :: "platform \<Rightarrow> bring_up \<Rightarrow> bring_up \<times> errno option" where
  "dma_accel_test_invalid_opcode = rejected_test 0xFF (of_nat SELFTEST_LEN) DMA_ACCEL_ERR_OPCODE"

definition dma_accel_error_path_tests :: "platform \<Rightarrow> bring_up \<Rightarrow> bring_up \<times> errno option" where
  "dma_accel_error_path_tests P s =
     (case dma_accel_test_busy_rejection P s of
        (s, Some e) \<Rightarrow> (s, Some e)
      | (s, None) \<Rightarrow>
         (case dma_accel_test_invalid_length P (dma_accel_do_reset s) of
            (s, Some e) \<Rightarrow> (s, Some e)
          | (s, None) \<Rightarrow>
             (case dma_accel_test_invalid_opcode P (dma_accel_do_reset s) of
                (s, Some e) \<Rightarrow> (s, Some e)
              | (s, None) \<Rightarrow> (dma_accel_do_reset s, None))))"

end
