(* ===== verification/Driver_Probe.thy ===== *)
theory Driver_Probe
  imports Driver_Selftest
begin

unbundle bit_operations_syntax

text \<open>
  The self-tests of the command queue (M6 to M8), \<^verbatim>\<open>probe()\<close> and \<^verbatim>\<open>remove()\<close>. The loop that reaps the
  completions of several commands is shared by the concurrency and the reset test, as its text is in
  the source.
\<close>

section \<open>M6: one copy through the queue\<close>

abbreviation sq_bytes :: nat where
  "sq_bytes \<equiv> DMA_ACCEL_QUEUE_DEPTH * sizeof_dma_accel_cmd"

abbreviation cq_bytes :: nat where
  "cq_bytes \<equiv> DMA_ACCEL_QUEUE_DEPTH * sizeof_dma_accel_completion"

text \<open>\<^verbatim>\<open>dma_accel_queue_init\<close> with its two allocations.\<close>

definition queue_init_step :: "platform \<Rightarrow> bring_up \<Rightarrow> bring_up \<times> errno option" where
  "queue_init_step P s =
     (case dma_alloc_coherent P sq_bytes s of
        (s, None) \<Rightarrow> (on_dev (\<lambda>dev. fst (dma_accel_queue_init None None dev)) s, Some ENOMEM)
      | (s, Some sq) \<Rightarrow>
         (case dma_alloc_coherent P cq_bytes s of
            (s, None) \<Rightarrow>
              (dma_free_coherent sq_bytes sq
                 (on_dev (\<lambda>dev. fst (dma_accel_queue_init (Some (snd sq)) None dev)) s), Some ENOMEM)
          | (s, Some cq) \<Rightarrow>
              (on_dev (\<lambda>dev. fst (dma_accel_queue_init (Some (snd sq)) (Some (snd cq)) dev))
                 (s\<lparr>bt_sq := fst sq, bt_cq := fst cq\<rparr>), None)))"

definition queue_fini_step :: "bring_up \<Rightarrow> bring_up" where
  "queue_fini_step s =
     (let dev = bt_dev s;
          s = (if cq_buf dev \<noteq> [] then dma_free_coherent cq_bytes (bt_cq s, cq_dma dev) s else s);
          s = (if sq_buf dev \<noteq> [] then dma_free_coherent sq_bytes (bt_sq s, sq_dma dev) s else s)
      in on_dev dma_accel_queue_fini s)"

text \<open>The completion at the head of the ring, and the head past it.\<close>

definition cq_entry :: "platform \<Rightarrow> bring_up \<Rightarrow> dma_accel_completion" where
  "cq_entry P s = pl_cq P (hist s) (unat (cq_head (bt_dev s)) mod DMA_ACCEL_QUEUE_DEPTH)"

definition cq_advance :: "bring_up \<Rightarrow> bring_up" where
  "cq_advance = on_dev (\<lambda>dev. dev\<lparr>cq_head := cq_head dev + 1\<rparr>)"

lemma cq_advance_gap:
  "cq_head (bt_dev s) \<noteq> t \<Longrightarrow> unat (t - cq_head (bt_dev (cq_advance s))) < unat (t - cq_head (bt_dev s))"
  using counter_gap_pop [of "cq_head (bt_dev s)" t] by (simp add: cq_advance_def on_dev_def)

text \<open>
  \<^verbatim>\<open>while (dev->cq_head != device_cq_tail)\<close> with \<open>f\<close> applied to each completion. Both drain loops of the
  self-tests are instances.
\<close>

function cq_drain :: "platform \<Rightarrow> (dma_accel_completion \<Rightarrow> 'a \<Rightarrow> 'a) \<Rightarrow> u32 \<Rightarrow> bring_up \<Rightarrow> 'a \<Rightarrow> bring_up \<times> 'a" where
  "cq_drain P f device_cq_tail s acc =
     (if cq_head (bt_dev s) = device_cq_tail then (s, acc)
      else cq_drain P f device_cq_tail (cq_advance s) (f (cq_entry P s) acc))"
  by pat_completeness auto

termination cq_drain
  by (relation "measure (\<lambda>(P, f, t, s, acc). unat (t - cq_head (bt_dev s)))") (auto intro: cq_advance_gap)

declare cq_drain.simps [simp del]

definition queue_submit_step :: "dma_addr_t \<Rightarrow> dma_addr_t \<Rightarrow> u32 \<Rightarrow> u64 \<Rightarrow> bring_up \<Rightarrow> bring_up" where
  "queue_submit_step src dst len cmd_id =
     on_dev (\<lambda>dev. dma_accel_queue_submit dev OPCODE_COPY src dst len cmd_id)"

text \<open>One completion of the drain loop: the status is noted if the identifier is ours.\<close>

definition take_status :: "u64 \<Rightarrow> dma_accel_completion \<Rightarrow> u32 option \<Rightarrow> u32 option" where
  "take_status cmd_id c st = (if comp_cmd_id c = cmd_id then Some (comp_status c) else st)"

text \<open>The result carries \<^verbatim>\<open>*status_out\<close>, \<open>None\<close> if it was not set.\<close>

definition dma_accel_queue_do_copy :: "platform \<Rightarrow> dma_addr_t \<Rightarrow> dma_addr_t \<Rightarrow> u32 \<Rightarrow> u64 \<Rightarrow> bring_up
    \<Rightarrow> bring_up \<times> errno option \<times> u32 option" where
  "dma_accel_queue_do_copy P src dst len cmd_id s =
     (let s = reinit_completion s;
          s = queue_submit_step src dst len cmd_id s;
          (s, left) = irq_wait P s
      in if \<not> left then (s, Some ETIMEDOUT, None)
         else let device_cq_tail = reg P REG_CQ_TAIL s;
                  (s, status) = cq_drain P (take_status cmd_id) device_cq_tail s None;
                  s = reg_write REG_CQ_HEAD (cq_head (bt_dev s)) s
              in (s, if status = None then Some ENOENT else None, status))"

definition dma_accel_queue_selftest :: "platform \<Rightarrow> bring_up \<Rightarrow> bring_up \<times> errno option" where
  "dma_accel_queue_selftest P s =
     (case dma_alloc_coherent P SELFTEST_LEN s of
        (s, None) \<Rightarrow> (s, Some ENOMEM)
      | (s, Some src) \<Rightarrow>
         (case dma_alloc_coherent P SELFTEST_LEN s of
            (s, None) \<Rightarrow> (dma_free_coherent SELFTEST_LEN src s, Some ENOMEM)
          | (s, Some dst) \<Rightarrow>
             (let s = write_mem src (pattern 0x3C SELFTEST_LEN) s;
                  s = write_mem dst (replicate SELFTEST_LEN 0) s;
                  (s, ret, status) = dma_accel_queue_do_copy P (snd src) (snd dst) (of_nat SELFTEST_LEN) 0xFACADE s;
                  ret = (if ret \<noteq> None then ret
                         else if status \<noteq> Some DMA_ACCEL_OK then Some EIO
                         else if read_mem P src SELFTEST_LEN s \<noteq> read_mem P dst SELFTEST_LEN s then Some EIO
                         else None);
                  s = dma_free_coherent SELFTEST_LEN dst s;
                  s = dma_free_coherent SELFTEST_LEN src s
              in (s, ret))))"

section \<open>M7 and M8: several commands\<close>

definition M7_TEST_COUNT :: nat where [accel_simps]: "M7_TEST_COUNT = 6"
definition M7_TEST_LEN :: nat where [accel_simps]: "M7_TEST_LEN = 128"
definition M8_TEST_COUNT :: nat where [accel_simps]: "M8_TEST_COUNT = 6"
definition M8_TEST_LEN :: nat where [accel_simps]: "M8_TEST_LEN = 128"

text \<open>The allocation loop with the arrays \<^verbatim>\<open>src_bufs\<close> and \<^verbatim>\<open>dst_bufs\<close> filled so far; the rest is null.\<close>

fun alloc_pairs :: "platform \<Rightarrow> nat \<Rightarrow> u8 \<Rightarrow> nat list \<Rightarrow> bring_up \<Rightarrow> (dma_block option \<times> dma_block option) list
    \<Rightarrow> bring_up \<times> (dma_block option \<times> dma_block option) list \<times> errno option" where
  "alloc_pairs P len key [] s bufs = (s, bufs, None)"
| "alloc_pairs P len key (i # is) s bufs =
     (let (s, src) = dma_alloc_coherent P len s;
          (s, dst) = dma_alloc_coherent P len s;
          bufs = bufs @ [(src, dst)]
      in case (src, dst) of
           (Some a, Some b) \<Rightarrow>
             alloc_pairs P len key is (write_mem b (replicate len 0) (write_mem a (pattern (key + of_nat i) len) s)) bufs
         | _ \<Rightarrow> (s, bufs, Some ENOMEM))"

text \<open>\<^verbatim>\<open>out_free\<close>\<close>

definition free_pairs :: "nat \<Rightarrow> (dma_block option \<times> dma_block option) list \<Rightarrow> bring_up \<Rightarrow> bring_up" where
  "free_pairs len bufs s = fold (\<lambda>(src, dst) s. free_if len src (free_if len dst s)) bufs s"

definition submit_all :: "nat \<Rightarrow> u64 list \<Rightarrow> (dma_block option \<times> dma_block option) list \<Rightarrow> bring_up \<Rightarrow> bring_up" where
  "submit_all len cmd_ids bufs s =
     fold (\<lambda>(cid, src, dst) s. queue_submit_step (snd (the src)) (snd (the dst)) (of_nat len) cid s) (zip cmd_ids bufs) s"

text \<open>
  One completion: the first command with that identifier not yet reaped takes its status. The state
  is the statuses of the reaped commands and \<^verbatim>\<open>reaped_count\<close>.
\<close>

definition reap_one :: "u64 list \<Rightarrow> dma_accel_completion \<Rightarrow> u32 option list \<times> nat \<Rightarrow> u32 option list \<times> nat" where
  "reap_one cmd_ids c r =
     (case first_index (\<lambda>(st, cid). st = None \<and> comp_cmd_id c = cid) (zip (fst r) cmd_ids) of
        None \<Rightarrow> r
      | Some j \<Rightarrow> ((fst r)[j := Some (comp_status c)], snd r + 1))"

text \<open>The outer loop: \<open>n\<close> is how often \<^verbatim>\<open>time_before(jiffies, deadline)\<close> is still going to hold.\<close>

fun reap_waves :: "nat \<Rightarrow> platform \<Rightarrow> u64 list \<Rightarrow> bring_up \<Rightarrow> u32 option list \<times> nat \<Rightarrow> bring_up \<times> u32 option list \<times> nat" where
  "reap_waves 0 P cmd_ids s r = (s, r)"
| "reap_waves (Suc n) P cmd_ids s r =
     (if length cmd_ids \<le> snd r then (s, r)
      else let (s, left) = irq_wait P s
           in if \<not> left then (s, r)
              else let s = reinit_completion s;
                       (s, r) = cq_drain P (reap_one cmd_ids) (reg P REG_CQ_TAIL s) s r;
                       s = reg_write REG_CQ_HEAD (cq_head (bt_dev s)) s
                   in reap_waves n P cmd_ids s r)"

definition reap_all :: "platform \<Rightarrow> u64 list \<Rightarrow> bring_up \<Rightarrow> bring_up \<times> u32 option list \<times> nat" where
  "reap_all P cmd_ids s = reap_waves (pl_waves P (hist s)) P cmd_ids s (replicate (length cmd_ids) None, 0)"

definition m7_ids :: "u64 list" where "m7_ids = map (\<lambda>i. 0x7000 + of_nat i) [0..<M7_TEST_COUNT]"
definition m8_ids :: "u64 list" where "m8_ids = map (\<lambda>i. 0x8000 + of_nat i) [0..<M8_TEST_COUNT]"

definition m7_body :: "platform \<Rightarrow> (dma_block option \<times> dma_block option) list \<Rightarrow> bring_up \<Rightarrow> bring_up \<times> errno option" where
  "m7_body P bufs s =
     (let s = reinit_completion s;
          s = submit_all M7_TEST_LEN m7_ids bufs s;
          (s, reaped_status, reaped_count) = reap_all P m7_ids s
      in if reaped_count \<noteq> M7_TEST_COUNT then (s, Some ETIMEDOUT)
         else (s, if \<forall>i \<in> set [0..<M7_TEST_COUNT]. reaped_status ! i = Some DMA_ACCEL_OK
                      \<and> read_mem P (the (fst (bufs ! i))) M7_TEST_LEN s = read_mem P (the (snd (bufs ! i))) M7_TEST_LEN s
                  then None else Some EIO))"

definition dma_accel_concurrency_test :: "platform \<Rightarrow> bring_up \<Rightarrow> bring_up \<times> errno option" where
  "dma_accel_concurrency_test P s =
     (let (s, bufs, ret) = alloc_pairs P M7_TEST_LEN 0x10 [0..<M7_TEST_COUNT] s [];
          (s, ret) = (if ret \<noteq> None then (s, ret) else m7_body P bufs s)
      in (free_pairs M7_TEST_LEN bufs s, ret))"

text \<open>The check that the device is usable after the reset.\<close>

definition m8_recovery :: "platform \<Rightarrow> bring_up \<Rightarrow> bring_up \<times> errno option" where
  "m8_recovery P s =
     (let (s, rsrc) = dma_alloc_coherent P M8_TEST_LEN s;
          (s, rdst) = dma_alloc_coherent P M8_TEST_LEN s
      in case (rsrc, rdst) of
           (Some src, Some dst) \<Rightarrow>
             (let s = write_mem src (pattern 0x99 M8_TEST_LEN) s;
                  s = write_mem dst (replicate M8_TEST_LEN 0) s;
                  (s, ret, rstatus) = dma_accel_queue_do_copy P (snd src) (snd dst) (of_nat M8_TEST_LEN) 0x8FFF s;
                  ret = (if ret = None \<and> rstatus = Some DMA_ACCEL_OK
                            \<and> read_mem P src M8_TEST_LEN s = read_mem P dst M8_TEST_LEN s
                         then None else if ret \<noteq> None then ret else Some EIO);
                  s = dma_free_coherent M8_TEST_LEN dst s;
                  s = dma_free_coherent M8_TEST_LEN src s
              in (s, ret))
         | _ \<Rightarrow> (free_if M8_TEST_LEN rdst (free_if M8_TEST_LEN rsrc s), Some ENOMEM))"

definition m8_body :: "platform \<Rightarrow> (dma_block option \<times> dma_block option) list \<Rightarrow> bring_up \<Rightarrow> bring_up \<times> errno option" where
  "m8_body P bufs s =
     (let s = reinit_completion s;
          s = submit_all M8_TEST_LEN m8_ids bufs s;
          s = dma_accel_do_reset s;
          (s, reaped_status, reaped_count) = reap_all P m8_ids s
      in if reaped_count \<noteq> M8_TEST_COUNT then (s, Some ETIMEDOUT)
         else if \<forall>i \<in> set [0..<M8_TEST_COUNT]. reaped_status ! i = Some DMA_ACCEL_ERR_ABORTED
                      \<and> list_all (\<lambda>b. b = 0) (read_mem P (the (snd (bufs ! i))) M8_TEST_LEN s)
              then m8_recovery P s
              else (s, Some EIO))"

definition dma_accel_reset_test :: "platform \<Rightarrow> bring_up \<Rightarrow> bring_up \<times> errno option" where
  "dma_accel_reset_test P s =
     (let (s, bufs, ret) = alloc_pairs P M8_TEST_LEN 0x30 [0..<M8_TEST_COUNT] s [];
          (s, ret) = (if ret \<noteq> None then (s, ret) else m8_body P bufs s)
      in (free_pairs M8_TEST_LEN bufs s, ret))"

section \<open>probe and remove\<close>

definition err_free_irq :: "errno \<Rightarrow> bring_up \<Rightarrow> bring_up \<times> errno option" where
  "err_free_irq ret s = (s\<lparr>bt_irq := False, bt_vectors := False\<rparr>, Some ret)"

definition err_queue_fini :: "errno \<Rightarrow> bring_up \<Rightarrow> bring_up \<times> errno option" where
  "err_queue_fini ret s = err_free_irq ret (queue_fini_step s)"

text \<open>One test after the other; the first failure leaves by \<open>err\<close>.\<close>

fun run_tests :: "(errno \<Rightarrow> bring_up \<Rightarrow> bring_up \<times> errno option) \<Rightarrow> (bring_up \<Rightarrow> bring_up \<times> errno option) list
    \<Rightarrow> (bring_up \<Rightarrow> bring_up \<times> errno option) \<Rightarrow> bring_up \<Rightarrow> bring_up \<times> errno option" where
  "run_tests err [] k s = k s"
| "run_tests err (t # ts) k s = (case t s of (s, Some e) \<Rightarrow> err e s | (s, None) \<Rightarrow> run_tests err ts k s)"

definition probe_register :: "platform \<Rightarrow> bring_up \<Rightarrow> bring_up \<times> errno option" where
  "probe_register P s =
     (let s = on_dev (\<lambda>dev. dev\<lparr>uapi_active := True\<rparr>) s
      in case pl_misc_register P of
           Some e \<Rightarrow> err_queue_fini e (on_dev (\<lambda>dev. dev\<lparr>uapi_active := False\<rparr>) s)
         | None \<Rightarrow> (s\<lparr>bt_misc := True\<rparr>, None))"

definition probe_tests :: "platform \<Rightarrow> bring_up \<Rightarrow> bring_up \<times> errno option" where
  "probe_tests P s =
     run_tests err_free_irq [dma_accel_selftest P, dma_accel_error_path_tests P, queue_init_step P]
       (run_tests err_queue_fini [dma_accel_queue_selftest P, dma_accel_concurrency_test P, dma_accel_reset_test P]
         (probe_register P)) s"

definition dma_accel_probe :: "platform \<Rightarrow> bring_up \<Rightarrow> bring_up \<times> errno option" where
  "dma_accel_probe P s =
     (if \<not> pl_kzalloc P then (s, Some ENOMEM)
      else let s = s\<lparr>bt_dev := init_dev\<rparr>
      in case pl_enable P of Some e \<Rightarrow> (s, Some e) | None \<Rightarrow>
        (case pl_iomap P of Some e \<Rightarrow> (s, Some e) | None \<Rightarrow>
        (if \<not> pl_bar0 P then (s, Some ENOMEM)
         else case pl_dma_mask P of Some e \<Rightarrow> (s, Some e) | None \<Rightarrow>
        (if reg P REG_DEVICE_ID s \<noteq> DMA_ACCEL_DEVICE_ID_VAL then (s, Some ENODEV)
         else case pl_irq_vectors P of Some e \<Rightarrow> (s, Some e) | None \<Rightarrow>
        (let s = s\<lparr>bt_vectors := True\<rparr>
         in case pl_request_irq P of Some e \<Rightarrow> (s\<lparr>bt_vectors := False\<rparr>, Some e) | None \<Rightarrow>
        (let s = s\<lparr>bt_irq := True\<rparr>;
             s = reg_write REG_IRQ_MASK (IRQ_DMA_DONE OR IRQ_DMA_ERROR) s
         in probe_tests P s))))))"

definition dma_accel_remove :: "bring_up \<Rightarrow> bring_up" where
  "dma_accel_remove s =
     (let s = (if uapi_active (bt_dev s) then s\<lparr>bt_misc := False\<rparr> else s);
          s = queue_fini_step s
      in s\<lparr>bt_irq := False, bt_vectors := False\<rparr>)"

end
