(* ===== verification/Driver_Probe_Correct.thy ===== *)
theory Driver_Probe_Correct
  imports Driver_Probe "HOL-Library.Sublist"
begin

unbundle bit_operations_syntax

text \<open>
  What \<^verbatim>\<open>probe()\<close> leaves behind: on every path, whatever the device and the kernel answer, each DMA
  block is freed exactly once or belongs to a ring of the registered device, and the interrupt is
  released unless the probe succeeded. And what its success certifies about the device.
\<close>

section \<open>Accounting\<close>

text \<open>The parts of the state the self-tests leave alone.\<close>

definition anchors :: "bring_up \<Rightarrow> (u64 \<times> u64) \<times> (bool \<times> bool \<times> bool) \<times> (dma_addr_t \<times> dma_addr_t) \<times> (nat \<times> nat) \<times> bool" where
  "anchors s = ((bt_sq s, bt_cq s), (bt_vectors s, bt_irq s, bt_misc s), (sq_dma (bt_dev s), cq_dma (bt_dev s)),
     (length (sq_buf (bt_dev s)), length (cq_buf (bt_dev s))), uapi_active (bt_dev s))"

text \<open>\<open>holds s0 L s\<close>: since \<open>s0\<close> exactly the blocks \<open>L\<close> have been allocated and not freed.\<close>

definition holds :: "bring_up \<Rightarrow> (nat \<times> dma_block) multiset \<Rightarrow> bring_up \<Rightarrow> bool" where
  "holds s0 L s \<longleftrightarrow> anchors s = anchors s0 \<and> bt_bad s = bt_bad s0 \<and> bt_live s = bt_live s0 + L"

definition block :: "nat \<Rightarrow> dma_block option \<Rightarrow> (nat \<times> dma_block) multiset" where
  "block sz b = (case b of None \<Rightarrow> {#} | Some b \<Rightarrow> {#(sz, b)#})"

lemma block_simps [simp]: "block sz None = {#}" "block sz (Some b) = {#(sz, b)#}"
  by (simp_all add: block_def)

lemma holds_refl [simp]: "holds s {#} s"
  by (simp add: holds_def)

text \<open>Register and memory accesses, waits and submissions do not touch the account.\<close>

lemma holds_on_dev:
  assumes "\<And>dev. sq_dma (f dev) = sq_dma dev" "\<And>dev. cq_dma (f dev) = cq_dma dev"
    "\<And>dev. length (sq_buf (f dev)) = length (sq_buf dev)" "\<And>dev. length (cq_buf (f dev)) = length (cq_buf dev)"
    "\<And>dev. uapi_active (f dev) = uapi_active dev"
  shows "holds s0 L (on_dev f s) \<longleftrightarrow> holds s0 L s"
  using assms by (simp add: holds_def anchors_def on_dev_def)

lemma queue_submit_frame:
  "sq_dma (dma_accel_queue_submit d op a b n c) = sq_dma d" "cq_dma (dma_accel_queue_submit d op a b n c) = cq_dma d"
  "length (sq_buf (dma_accel_queue_submit d op a b n c)) = length (sq_buf d)"
  "cq_buf (dma_accel_queue_submit d op a b n c) = cq_buf d"
  "uapi_active (dma_accel_queue_submit d op a b n c) = uapi_active d"
  by (simp_all add: dma_accel_queue_submit_def dma_accel_queue_submit_ext_def sq_ring_doorbell_def sq_write_slot_def Let_def)

lemma holds_quiet [simp]:
  "holds s0 L (reg_write a v s) \<longleftrightarrow> holds s0 L s"
  "holds s0 L (write_mem b xs s) \<longleftrightarrow> holds s0 L s"
  "holds s0 L (reinit_completion s) \<longleftrightarrow> holds s0 L s"
  "holds s0 L (cq_advance s) \<longleftrightarrow> holds s0 L s"
  "holds s0 L (queue_submit_step src dst len cid s) \<longleftrightarrow> holds s0 L s"
  by (simp_all add: reg_write_def write_mem_def reinit_completion_def cq_advance_def queue_submit_step_def
      holds_on_dev queue_submit_frame)

lemma holds_register_path [simp]:
  "holds s0 L (dma_accel_submit op a b n s) \<longleftrightarrow> holds s0 L s"
  "holds s0 L (dma_accel_retrigger_start s) \<longleftrightarrow> holds s0 L s"
  "holds s0 L (dma_accel_do_reset s) \<longleftrightarrow> holds s0 L s"
  by (simp_all add: dma_accel_submit_def dma_accel_retrigger_start_def dma_accel_do_reset_def Let_def)

lemma holds_irq_wait [simp]: "holds s0 L (fst (irq_wait P s)) \<longleftrightarrow> holds s0 L s"
proof -
  have early: "holds s0 L (on_dev (irq_early st) s) \<longleftrightarrow> holds s0 L s" for st s
    by (rule holds_on_dev) (simp_all add: irq_early_def Let_def)
  have quiet: "holds s0 L (on_dev (\<lambda>dev. dev\<lparr>bar0 := g dev\<rparr>) s) \<longleftrightarrow> holds s0 L s"
    "holds s0 L (on_dev (\<lambda>dev. dev\<lparr>irq_done := h dev\<rparr>) s) \<longleftrightarrow> holds s0 L s" for g h s
    by (rule holds_on_dev; simp)+
  show ?thesis by (simp add: irq_wait_def Let_def early quiet)
qed

lemma holds_wait_irq [simp]: "holds s0 L (fst (dma_accel_wait_irq P s)) \<longleftrightarrow> holds s0 L s"
  by (simp add: dma_accel_wait_irq_def split_beta)

lemma holds_do_copy [simp]: "holds s0 L (fst (dma_accel_do_copy P a b n s)) \<longleftrightarrow> holds s0 L s"
  by (simp add: dma_accel_do_copy_def Let_def split_beta)

lemma holds_drain [simp]: "holds s0 L (fst (cq_drain P f t s acc)) \<longleftrightarrow> holds s0 L s"
  by (induction P f t s acc rule: cq_drain.induct) (subst cq_drain.simps, simp)

lemma holds_queue_do_copy [simp]: "holds s0 L (fst (dma_accel_queue_do_copy P a b n c s)) \<longleftrightarrow> holds s0 L s"
  by (simp add: dma_accel_queue_do_copy_def Let_def split_beta)

lemma holds_reap_waves [simp]: "holds s0 L (fst (reap_waves n P ids s r)) \<longleftrightarrow> holds s0 L s"
  by (induction n arbitrary: s r) (simp_all add: Let_def split_beta)

lemma holds_submit_all [simp]: "holds s0 L (submit_all n ids bufs s) \<longleftrightarrow> holds s0 L s"
proof -
  have "holds s0 L (fold (\<lambda>(cid, src, dst) s. queue_submit_step (snd (the src)) (snd (the dst)) m cid s) xs s) \<longleftrightarrow> holds s0 L s"
    for xs m by (induction xs arbitrary: s) (simp_all add: split_beta)
  then show ?thesis by (simp add: submit_all_def)
qed

text \<open>Allocation and release.\<close>

lemma holds_alloc:
  "holds s0 L s \<Longrightarrow> holds s0 (block n (snd (dma_alloc_coherent P n s)) + L) (fst (dma_alloc_coherent P n s))"
  by (simp add: dma_alloc_coherent_def holds_def anchors_def Let_def split: option.split)

lemma holds_allocE:
  assumes "dma_alloc_coherent P n s = (s', b)" and "holds s0 L s"
  shows "holds s0 (block n b + L) s'"
  using holds_alloc [OF assms(2), of n P] assms(1) by simp

lemma holds_free: "holds s0 (add_mset (n, b) L) s \<Longrightarrow> holds s0 L (dma_free_coherent n b s)"
  by (simp add: dma_free_coherent_def holds_def anchors_def)

lemma holds_free2: "holds s0 {#(n, a), (n, b)#} s \<Longrightarrow> holds s0 {#} (dma_free_coherent n a (dma_free_coherent n b s))"
  by (intro holds_free) (simp add: add_mset_commute)

lemma holds_free_if: "holds s0 (block n b + L) s \<Longrightarrow> holds s0 L (free_if n b s)"
  by (cases b) (simp_all add: free_if_def holds_free)

section \<open>The self-tests are balanced\<close>

definition balanced :: "(bring_up \<Rightarrow> bring_up \<times> errno option) \<Rightarrow> bool" where
  "balanced t \<longleftrightarrow> (\<forall>s. holds s {#} (fst (t s)))"

text \<open>Two allocations in a row, as most tests start.\<close>

lemma two_allocs:
  obtains s1 src s2 dst where "dma_alloc_coherent P n s = (s1, src)" "dma_alloc_coherent P n s1 = (s2, dst)"
    "holds s (block n src) s1" "holds s (block n dst + block n src) s2"
proof -
  obtain s1 src where 1: "dma_alloc_coherent P n s = (s1, src)" by (metis prod.collapse)
  obtain s2 dst where 2: "dma_alloc_coherent P n s1 = (s2, dst)" by (metis prod.collapse)
  note h = holds_allocE [OF 1 holds_refl]
  from that [OF 1 2] h holds_allocE [OF 2 h] show ?thesis by simp
qed

lemma balanced_selftest: "balanced (dma_accel_selftest P)"
  unfolding balanced_def
proof
  fix s
  obtain s1 src s2 dst where a: "dma_alloc_coherent P SELFTEST_LEN s = (s1, src)"
    "dma_alloc_coherent P SELFTEST_LEN s1 = (s2, dst)" "holds s (block SELFTEST_LEN src) s1"
    "holds s (block SELFTEST_LEN dst + block SELFTEST_LEN src) s2" by (rule two_allocs)
  then show "holds s {#} (fst (dma_accel_selftest P s))"
    by (cases src; cases dst) (simp_all add: dma_accel_selftest_def Let_def split_beta holds_free holds_free2)
qed

lemma balanced_queue_selftest: "balanced (dma_accel_queue_selftest P)"
  unfolding balanced_def
proof
  fix s
  obtain s1 src s2 dst where a: "dma_alloc_coherent P SELFTEST_LEN s = (s1, src)"
    "dma_alloc_coherent P SELFTEST_LEN s1 = (s2, dst)" "holds s (block SELFTEST_LEN src) s1"
    "holds s (block SELFTEST_LEN dst + block SELFTEST_LEN src) s2" by (rule two_allocs)
  then show "holds s {#} (fst (dma_accel_queue_selftest P s))"
    by (cases src; cases dst) (simp_all add: dma_accel_queue_selftest_def Let_def split_beta holds_free holds_free2)
qed

lemma balanced_m8_recovery: "balanced (m8_recovery P)"
  unfolding balanced_def
proof
  fix s
  obtain s1 src s2 dst where a: "dma_alloc_coherent P M8_TEST_LEN s = (s1, src)"
    "dma_alloc_coherent P M8_TEST_LEN s1 = (s2, dst)" "holds s (block M8_TEST_LEN src) s1"
    "holds s (block M8_TEST_LEN dst + block M8_TEST_LEN src) s2" by (rule two_allocs)
  then show "holds s {#} (fst (m8_recovery P s))"
    by (cases src; cases dst) (simp_all add: m8_recovery_def Let_def split_beta holds_free holds_free2 free_if_def)
qed

lemma holds_busy_body [simp]: "holds s0 L (fst (busy_body P src dst s)) \<longleftrightarrow> holds s0 L s"
  by (simp add: busy_body_def Let_def split_beta)

lemma balanced_busy_rejection: "balanced (dma_accel_test_busy_rejection P)"
  unfolding balanced_def
proof
  fix s
  obtain s1 src s2 dst where a: "dma_alloc_coherent P SELFTEST_LEN s = (s1, src)"
    "dma_alloc_coherent P SELFTEST_LEN s1 = (s2, dst)" "holds s (block SELFTEST_LEN src) s1"
    "holds s (block SELFTEST_LEN dst + block SELFTEST_LEN src) s2" by (rule two_allocs)
  then show "holds s {#} (fst (dma_accel_test_busy_rejection P s))"
    by (cases src; cases dst) (simp_all add: dma_accel_test_busy_rejection_def Let_def split_beta holds_free holds_free2 free_if_def)
qed

lemma balanced_rejected_test: "balanced (rejected_test op n want P)"
  unfolding balanced_def
proof
  fix s
  obtain s1 b where 1: "dma_alloc_coherent P SELFTEST_LEN s = (s1, b)" by (metis prod.collapse)
  from holds_allocE [OF 1 holds_refl] show "holds s {#} (fst (rejected_test op n want P s))"
    by (cases b) (simp_all add: rejected_test_def 1 Let_def holds_free)
qed

lemma holds_trans: "holds s0 {#} s1 \<Longrightarrow> holds s1 L s2 \<Longrightarrow> holds s0 L s2"
  by (simp add: holds_def)

lemma balancedD: "balanced t \<Longrightarrow> t s = (s', r) \<Longrightarrow> holds s0 {#} s \<Longrightarrow> holds s0 {#} s'"
  by (metis balanced_def fst_conv holds_trans)

lemma balanced_error_path: "balanced (dma_accel_error_path_tests P)"
  unfolding balanced_def
proof
  fix s
  let ?len = "dma_accel_test_invalid_length P" and ?op = "dma_accel_test_invalid_opcode P"
  have b: "balanced ?len" "balanced ?op"
    by (simp_all add: dma_accel_test_invalid_length_def dma_accel_test_invalid_opcode_def balanced_rejected_test)
  obtain s1 r1 where 1: "dma_accel_test_busy_rejection P s = (s1, r1)" by (metis prod.collapse)
  obtain s2 r2 where 2: "?len (dma_accel_do_reset s1) = (s2, r2)" by (metis prod.collapse)
  obtain s3 r3 where 3: "?op (dma_accel_do_reset s2) = (s3, r3)" by (metis prod.collapse)
  have h1: "holds s {#} s1" by (rule balancedD [OF balanced_busy_rejection 1]) simp
  have h2: "holds s {#} s2" by (rule balancedD [OF b(1) 2]) (simp add: h1)
  have h3: "holds s {#} s3" by (rule balancedD [OF b(2) 3]) (simp add: h2)
  show "holds s {#} (fst (dma_accel_error_path_tests P s))"
    using h1 h2 h3 by (simp add: dma_accel_error_path_tests_def 1 2 3 split: option.split)
qed

text \<open>The blocks of an array of buffer pairs.\<close>

definition pair_blocks :: "nat \<Rightarrow> (dma_block option \<times> dma_block option) list \<Rightarrow> (nat \<times> dma_block) multiset" where
  "pair_blocks n bufs = (\<Sum>(src, dst)\<leftarrow>bufs. block n dst + block n src)"

lemma pair_blocks_simps [simp]:
  "pair_blocks n [] = {#}" "pair_blocks n ((src, dst) # bufs) = block n dst + (block n src + pair_blocks n bufs)"
  "pair_blocks n (xs @ ys) = pair_blocks n xs + pair_blocks n ys"
  by (simp_all add: pair_blocks_def)

lemma holds_alloc_pairs:
  "holds s0 (pair_blocks n bufs) s \<Longrightarrow> alloc_pairs P n key is s bufs = (s', bufs', ret) \<Longrightarrow> holds s0 (pair_blocks n bufs') s'"
proof (induction "is" arbitrary: s bufs)
  case (Cons i "is")
  obtain s1 src where 1: "dma_alloc_coherent P n s = (s1, src)" by (metis prod.collapse)
  obtain s2 dst where 2: "dma_alloc_coherent P n s1 = (s2, dst)" by (metis prod.collapse)
  have h: "holds s0 (pair_blocks n (bufs @ [(src, dst)])) s2"
    using holds_allocE [OF 2 holds_allocE [OF 1 Cons.prems(1)]] by (simp add: ac_simps)
  show ?case
  proof (cases "src = None \<or> dst = None")
    case True
    with h Cons.prems(2) show ?thesis by (auto simp: 1 2 Let_def split: option.splits)
  next
    case False
    then obtain a b where ab: "src = Some a" "dst = Some b" by auto
    show ?thesis
      by (rule Cons.IH [of "bufs @ [(src, dst)]" "write_mem b (replicate n 0) (write_mem a (pattern (key + of_nat i) n) s2)"])
        (use h Cons.prems(2) in \<open>simp_all add: 1 2 Let_def ab\<close>)
  qed
qed simp

lemma holds_free_pairs: "holds s0 (pair_blocks n bufs) s \<Longrightarrow> holds s0 {#} (free_pairs n bufs s)"
proof (induction bufs arbitrary: s)
  case (Cons b bufs)
  obtain src dst where b: "b = (src, dst)" by fastforce
  have "holds s0 (pair_blocks n bufs) (free_if n src (free_if n dst s))"
    using Cons.prems by (intro holds_free_if) (simp add: b)
  from Cons.IH [OF this] show ?case by (simp add: free_pairs_def b)
qed (simp add: free_pairs_def)

lemma balanced_pairs:
  assumes "\<And>bufs s0 L s. holds s0 L s \<Longrightarrow> holds s0 L (fst (body bufs s))"
  shows "balanced (\<lambda>s. let (s, bufs, ret) = alloc_pairs P n key is s [];
                          (s, ret) = (if ret \<noteq> None then (s, ret) else body bufs s)
                      in (free_pairs n bufs s, ret))"
  unfolding balanced_def
proof
  fix s
  obtain s' bufs ret where a: "alloc_pairs P n key is s [] = (s', bufs, ret)" by (metis prod_cases3)
  have h: "holds s (pair_blocks n bufs) s'" by (rule holds_alloc_pairs [OF _ a]) simp
  have "holds s (pair_blocks n bufs) (if ret \<noteq> None then s' else fst (body bufs s'))" using h assms [OF h] by simp
  from holds_free_pairs [OF this]
  show "holds s {#} (fst (let (s, bufs, ret) = alloc_pairs P n key is s [];
                          (s, ret) = (if ret \<noteq> None then (s, ret) else body bufs s)
                      in (free_pairs n bufs s, ret)))"
    by (simp add: a split_beta split: if_splits)
qed

lemma balanced_concurrency: "balanced (dma_accel_concurrency_test P)"
proof -
  have "holds s0 L (fst (m7_body P bufs s)) \<longleftrightarrow> holds s0 L s" for bufs s0 L s
    by (simp add: m7_body_def reap_all_def Let_def split_beta)
  then show ?thesis unfolding dma_accel_concurrency_test_def [abs_def] by (intro balanced_pairs) simp
qed

lemma balanced_reset: "balanced (dma_accel_reset_test P)"
proof -
  have "holds s0 L (fst (m8_body P bufs s))" if "holds s0 L s" for bufs s0 L s
  proof -
    have rec: "holds s0 L (fst (m8_recovery P s'))" if "holds s0 L s'" for s'
      using that balanced_m8_recovery [of P] unfolding balanced_def holds_def by simp
    show ?thesis using that by (simp add: m8_body_def reap_all_def Let_def split_beta rec)
  qed
  then show ?thesis unfolding dma_accel_reset_test_def [abs_def] by (intro balanced_pairs) simp
qed

section \<open>probe and remove\<close>

lemma run_tests_cases:
  assumes "\<forall>t \<in> set ts. balanced t"
  obtains (pass) s' where "holds s {#} s'" "run_tests err ts k s = k s'"
  | (fail) s' e where "holds s {#} s'" "run_tests err ts k s = err e s'"
proof -
  have "\<exists>s'. holds s {#} s' \<and> (run_tests err ts k s = k s' \<or> (\<exists>e. run_tests err ts k s = err e s'))"
    using assms
  proof (induction ts arbitrary: s)
    case (Cons t ts)
    obtain s1 r where t: "t s = (s1, r)" by fastforce
    have h: "holds s {#} s1" by (rule balancedD [of t s s1 r]) (use Cons.prems t in simp_all)
    show ?case
    proof (cases r)
      case None
      from Cons.IH [of s1] Cons.prems obtain s' where "holds s1 {#} s'"
        "run_tests err ts k s1 = k s' \<or> (\<exists>e. run_tests err ts k s1 = err e s')" by auto
      with h t None show ?thesis by (auto intro: holds_trans)
    next
      case (Some e)
      with h t show ?thesis by auto
    qed
  next
    case Nil
    show ?case by (intro exI [of _ s]) simp
  qed
  then show ?thesis using that by blast
qed

text \<open>Nothing of the probe is left: no block, no interrupt, no vectors, no character device.\<close>

definition released :: "bring_up \<Rightarrow> bool" where
  "released s \<longleftrightarrow> bt_live s = {#} \<and> bt_bad s = 0 \<and> \<not> bt_vectors s \<and> \<not> bt_irq s \<and> \<not> bt_misc s"

text \<open>The rings are the only blocks.\<close>

definition rings_only :: "bring_up \<Rightarrow> bool" where
  "rings_only s \<longleftrightarrow> bt_live s = {#(sq_bytes, bt_sq s, sq_dma (bt_dev s)), (cq_bytes, bt_cq s, cq_dma (bt_dev s))#}
     \<and> bt_bad s = 0 \<and> length (sq_buf (bt_dev s)) = DMA_ACCEL_QUEUE_DEPTH \<and> length (cq_buf (bt_dev s)) = DMA_ACCEL_QUEUE_DEPTH"

lemma rings_only_holds: "rings_only s \<Longrightarrow> holds s {#} s' \<Longrightarrow> rings_only s'"
  by (simp add: rings_only_def holds_def anchors_def)

lemma queue_fini_releases:
  assumes "rings_only s"
  shows "bt_live (queue_fini_step s) = {#} \<and> bt_bad (queue_fini_step s) = 0 \<and> bt_misc (queue_fini_step s) = bt_misc s"
proof -
  have "sq_buf (bt_dev s) \<noteq> []" "cq_buf (bt_dev s) \<noteq> []"
    using assms by (auto simp: rings_only_def accel_simps)
  with assms show ?thesis
    by (simp add: rings_only_def queue_fini_step_def Let_def dma_free_coherent_def on_dev_def add_mset_commute)
qed

lemma queue_init_cases:
  assumes live: "bt_live s = {#}" "bt_bad s = 0"
  obtains (pass) s' where "queue_init_step P s = (s', None)" "rings_only s'"
      "bt_vectors s' = bt_vectors s" "bt_irq s' = bt_irq s" "bt_misc s' = bt_misc s"
  | (fail) s' where "queue_init_step P s = (s', Some ENOMEM)" "bt_live s' = {#}" "bt_bad s' = 0" "bt_misc s' = bt_misc s"
proof -
  obtain s1 sq where 1: "dma_alloc_coherent P sq_bytes s = (s1, sq)" by (metis prod.collapse)
  obtain s2 cq where 2: "dma_alloc_coherent P cq_bytes s1 = (s2, cq)" by (metis prod.collapse)
  have h1: "holds s (block sq_bytes sq) s1" using holds_allocE [OF 1 holds_refl] by simp
  have h2: "holds s (block cq_bytes cq + block sq_bytes sq) s2" by (rule holds_allocE [OF 2 h1])
  show ?thesis
  proof (cases "sq = None \<or> cq = None")
    case True
    then show ?thesis
      using h1 h2 live
      by (cases sq; cases cq; intro fail [of "fst (queue_init_step P s)"])
        (simp_all add: queue_init_step_def 1 2 on_dev_def dma_free_coherent_def holds_def anchors_def)
  next
    case False
    then obtain a b where ab: "sq = Some a" "cq = Some b" by auto
    show ?thesis
      using h2 live
      by (intro pass [of "fst (queue_init_step P s)"]) (auto simp: queue_init_step_def 1 2 ab on_dev_def rings_only_def holds_def anchors_def
          dma_accel_queue_init_def Let_def)
  qed
qed

definition ready :: "bring_up \<Rightarrow> bool" where
  "ready s \<longleftrightarrow> rings_only s \<and> bt_vectors s \<and> bt_irq s \<and> bt_misc s \<and> uapi_active (bt_dev s)"

definition clean_exit :: "bring_up \<times> errno option \<Rightarrow> bool" where
  "clean_exit r \<longleftrightarrow> (case snd r of None \<Rightarrow> ready (fst r) | Some e \<Rightarrow> released (fst r))"

lemma err_queue_fini_clean: "rings_only s \<Longrightarrow> \<not> bt_misc s \<Longrightarrow> clean_exit (err_queue_fini e s)"
  using queue_fini_releases [of s] by (simp add: err_queue_fini_def err_free_irq_def released_def clean_exit_def)

lemma probe_register_clean:
  assumes "rings_only s" "\<not> bt_misc s" "bt_vectors s" "bt_irq s"
  shows "clean_exit (probe_register P s)"
proof (cases "pl_misc_register P")
  case None
  with assms show ?thesis by (simp add: probe_register_def Let_def on_dev_def rings_only_def clean_exit_def ready_def)
next
  case (Some e)
  let ?s = "on_dev (\<lambda>dev. dev\<lparr>uapi_active := False\<rparr>) (on_dev (\<lambda>dev. dev\<lparr>uapi_active := True\<rparr>) s)"
  have "rings_only ?s" "\<not> bt_misc ?s" using assms(1,2) by (simp_all add: on_dev_def rings_only_def)
  from err_queue_fini_clean [OF this] Some show ?thesis by (simp add: probe_register_def Let_def)
qed

lemma run_tests_append: "run_tests err (ts @ us) k s = run_tests err ts (run_tests err us k) s"
  by (induction ts arbitrary: s) (simp_all split: prod.split option.split)

lemma queue_tests_clean:
  assumes "rings_only s" "\<not> bt_misc s" "bt_vectors s" "bt_irq s"
  shows "clean_exit (run_tests err_queue_fini [dma_accel_queue_selftest P, dma_accel_concurrency_test P, dma_accel_reset_test P]
      (probe_register P) s)" (is "clean_exit (run_tests _ ?ts _ s)")
proof -
  have "\<forall>t \<in> set ?ts. balanced t" by (simp add: balanced_queue_selftest balanced_concurrency balanced_reset)
  then show ?thesis
  proof (cases rule: run_tests_cases [where s = s and err = err_queue_fini and k = "probe_register P"])
    case (pass s')
    have "clean_exit (probe_register P s')"
      by (rule probe_register_clean) (use pass(1) assms in \<open>auto simp: holds_def anchors_def intro: rings_only_holds\<close>)
    with pass(2) show ?thesis by simp
  next
    case (fail s' e)
    have "clean_exit (err_queue_fini e s')"
      by (rule err_queue_fini_clean) (use fail(1) assms in \<open>auto simp: holds_def anchors_def intro: rings_only_holds\<close>)
    with fail(2) show ?thesis by simp
  qed
qed

lemma probe_tests_clean:
  assumes "bt_live s = {#}" "bt_bad s = 0" "\<not> bt_misc s" "bt_vectors s" "bt_irq s"
  shows "clean_exit (probe_tests P s)"
proof -
  let ?ts = "[dma_accel_selftest P, dma_accel_error_path_tests P]"
  let ?late = "run_tests err_queue_fini [dma_accel_queue_selftest P, dma_accel_concurrency_test P, dma_accel_reset_test P]
      (probe_register P)"
  have split: "probe_tests P s = run_tests err_free_irq ?ts (run_tests err_free_irq [queue_init_step P] ?late) s"
    using run_tests_append [of err_free_irq ?ts "[queue_init_step P]" ?late s] by (simp add: probe_tests_def)
  have "\<forall>t \<in> set ?ts. balanced t" by (simp add: balanced_selftest balanced_error_path)
  then show ?thesis
  proof (cases rule: run_tests_cases [where s = s and err = err_free_irq and k = "run_tests err_free_irq [queue_init_step P] ?late"])
    case (pass s1)
    have s1: "bt_live s1 = {#}" "bt_bad s1 = 0" "\<not> bt_misc s1" "bt_vectors s1" "bt_irq s1"
      using pass(1) assms by (simp_all add: holds_def anchors_def)
    from s1(1,2) show ?thesis
    proof (cases rule: queue_init_cases [where P = P])
      case init: (pass s2)
      with s1 have "clean_exit (?late s2)" by (intro queue_tests_clean) simp_all
      with init(1) pass(2) show ?thesis by (simp add: split)
    next
      case (fail s2)
      with s1 pass(2) show ?thesis by (simp add: split err_free_irq_def clean_exit_def released_def)
    qed
  next
    case (fail s' e)
    with assms show ?thesis by (simp add: split err_free_irq_def clean_exit_def released_def holds_def anchors_def)
  qed
qed

text \<open>
  C39: \<^verbatim>\<open>probe()\<close> and \<^verbatim>\<open>remove()\<close> account for their resources whatever the device and the kernel answer.
  A failed probe leaves no DMA block, interrupt, vector or character device behind and frees no
  block twice. A successful one leaves the two rings of the queue and no other block, with the
  device identified and the character device registered, and \<^verbatim>\<open>remove()\<close> gives all of it back.
\<close>

theorem probe_releases:
  assumes "released s"
  shows "case dma_accel_probe P s of
      (s', Some e) \<Rightarrow> released s'
    | (s', None) \<Rightarrow> ready s' \<and> pl_read P [] REG_DEVICE_ID = DMA_ACCEL_DEVICE_ID_VAL \<and> released (dma_accel_remove s')"
proof -
  have remove: "released (dma_accel_remove t)" if "ready t" for t
    using that queue_fini_releases [of "t\<lparr>bt_misc := False\<rparr>"]
    by (simp add: ready_def dma_accel_remove_def Let_def released_def rings_only_def)
  let ?s = "reg_write REG_IRQ_MASK (IRQ_DMA_DONE OR IRQ_DMA_ERROR)
      (s\<lparr>bt_dev := init_dev, bt_vectors := True, bt_irq := True\<rparr>)"
  have "clean_exit (probe_tests P ?s)"
    using assms by (intro probe_tests_clean) (simp_all add: released_def reg_write_def on_dev_def)
  then have "case probe_tests P ?s of (s', Some e) \<Rightarrow> released s' | (s', None) \<Rightarrow> ready s' \<and> released (dma_accel_remove s')"
    using remove by (auto simp: clean_exit_def split: prod.split option.split)
  then show ?thesis
    using assms
    by (auto simp: dma_accel_probe_def Let_def released_def reg_def dma_accel_read_reg_def init_dev_def
        split: option.split prod.splits)
qed

section \<open>What a passed queue test certifies\<close>

text \<open>\<open>posted P h0 h cid st\<close>: between \<open>h0\<close> and \<open>h\<close> the ring showed a completion of \<open>cid\<close> with status \<open>st\<close>.\<close>

definition posted :: "platform \<Rightarrow> hw_event list \<Rightarrow> hw_event list \<Rightarrow> u64 \<Rightarrow> u32 \<Rightarrow> bool" where
  "posted P h0 h cid st \<longleftrightarrow>
     (\<exists>h1 n. prefix h0 h1 \<and> prefix h1 h \<and> comp_cmd_id (pl_cq P h1 n) = cid \<and> comp_status (pl_cq P h1 n) = st)"

lemma posted_mono: "posted P h0 h cid st \<Longrightarrow> prefix h h' \<Longrightarrow> posted P h0 h' cid st"
  unfolding posted_def by (blast intro: prefix_order.trans)

definition reap_inv :: "platform \<Rightarrow> hw_event list \<Rightarrow> u64 list \<Rightarrow> bring_up \<Rightarrow> u32 option list \<times> nat \<Rightarrow> bool" where
  "reap_inv P h0 ids s r \<longleftrightarrow> prefix h0 (hist s) \<and> length (fst r) = length ids
     \<and> snd r = count_if (\<lambda>x. x \<noteq> None) (fst r)
     \<and> (\<forall>j < length ids. \<forall>st. fst r ! j = Some st \<longrightarrow> posted P h0 (hist s) (ids ! j) st)"

lemma reap_inv_mono:
  assumes "reap_inv P h0 ids s r" and "prefix (hist s) (hist s')"
  shows "reap_inv P h0 ids s' r"
  using assms posted_mono [OF _ assms(2)] unfolding reap_inv_def by (meson prefix_order.trans)

lemma reap_inv_one:
  assumes "reap_inv P h0 ids s r"
  shows "reap_inv P h0 ids s (reap_one ids (cq_entry P s) r)"
proof (cases "first_index (\<lambda>(st, cid). st = None \<and> comp_cmd_id (cq_entry P s) = cid) (zip (fst r) ids)")
  case (Some j)
  have len: "length (fst r) = length ids" using assms by (simp add: reap_inv_def)
  from first_index_SomeD [OF Some] len have j: "j < length ids" "fst r ! j = None" "comp_cmd_id (cq_entry P s) = ids ! j" by auto
  have "posted P h0 (hist s) (ids ! j) (comp_status (cq_entry P s))"
    using assms j(3) unfolding posted_def reap_inv_def cq_entry_def by blast
  moreover have "reap_one ids (cq_entry P s) r = ((fst r)[j := Some (comp_status (cq_entry P s))], snd r + 1)"
    by (simp add: reap_one_def Some)
  moreover have "count_if (\<lambda>x. x \<noteq> None) ((fst r)[j := Some (comp_status (cq_entry P s))]) = Suc (snd r)"
    using assms j(1,2) len by (simp only: reap_inv_def) (rule count_if_update_add, simp_all)
  ultimately show ?thesis
    using assms by (simp add: reap_inv_def) (metis nth_list_update_eq nth_list_update_neq option.inject)
qed (use assms in \<open>simp add: reap_one_def\<close>)

lemma hist_simps [simp]:
  "hist (cq_advance s) = hist s" "hist (reinit_completion s) = hist s" "hist (reg_write a v s) = hist s @ [RegWrite a v]"
  "hist (dma_free_coherent n b s) = hist s" "hist (free_if n mb s) = hist s"
  by (simp_all add: cq_advance_def reinit_completion_def reg_write_def on_dev_def dma_free_coherent_def free_if_def
      split: option.split)

lemma hist_free_pairs [simp]: "hist (free_pairs n bufs s) = hist s"
  by (induction bufs arbitrary: s) (simp_all add: free_pairs_def split_beta)

lemma hist_irq_wait: "prefix (hist s) (hist (fst (irq_wait P s)))"
  by (simp add: irq_wait_def Let_def on_dev_def irq_early_def prefix_def)

lemma reap_inv_drain:
  "reap_inv P h0 ids s r \<Longrightarrow> cq_drain P (reap_one ids) t s r = (s', r') \<Longrightarrow> reap_inv P h0 ids s' r'"
proof (induction P "reap_one ids" t s r rule: cq_drain.induct)
  case (1 P t s r)
  have "reap_inv P h0 ids (cq_advance s) (reap_one ids (cq_entry P s) r)"
    by (rule reap_inv_mono [OF reap_inv_one [OF 1(2)]]) simp
  with 1 show ?case by (subst (asm) cq_drain.simps) (auto split: if_splits)
qed

lemma reap_inv_waves:
  "reap_inv P h0 ids s r \<Longrightarrow> reap_waves n P ids s r = (s', r') \<Longrightarrow> reap_inv P h0 ids s' r'"
proof (induction n arbitrary: s r)
  case (Suc n)
  obtain s1 left where w: "irq_wait P s = (s1, left)" by fastforce
  have i1: "reap_inv P h0 ids s1 r"
    by (rule reap_inv_mono [OF Suc.prems(1)]) (use hist_irq_wait [of s P] w in simp)
  obtain s2 r2 where d: "cq_drain P (reap_one ids) (reg P REG_CQ_TAIL (reinit_completion s1)) (reinit_completion s1) r = (s2, r2)"
    by (metis prod.collapse)
  have i2: "reap_inv P h0 ids s2 r2" by (rule reap_inv_drain [OF reap_inv_mono [OF i1] d]) simp
  have i3: "reap_inv P h0 ids (reg_write REG_CQ_HEAD (cq_head (bt_dev s2)) s2) r2" by (rule reap_inv_mono [OF i2]) simp
  show ?case
    using Suc.prems i1 Suc.IH [OF i3] by (auto simp: w d Let_def split: if_splits)
qed simp

lemma reap_all_posted:
  assumes "reap_all P ids s = (s', reaped, length ids)" and "j < length ids"
  shows "\<exists>st. reaped ! j = Some st \<and> posted P (hist s) (hist s') (ids ! j) st"
proof -
  have "reap_inv P (hist s) ids s (replicate (length ids) None, 0)"
    by (simp add: reap_inv_def count_if_def)
  from reap_inv_waves [OF this] assms(1) have inv: "reap_inv P (hist s) ids s' (reaped, length ids)"
    by (simp add: reap_all_def)
  then have "count_if (\<lambda>x. x \<noteq> None) reaped = length reaped" by (simp add: reap_inv_def)
  then have "None \<notin> set reaped"
    unfolding count_if_def using length_filter_less [of None reaped "\<lambda>x. x \<noteq> None"] by auto
  moreover have "reaped ! j \<in> set reaped" using inv assms(2) by (simp add: reap_inv_def)
  ultimately obtain st where "reaped ! j = Some st" by (metis not_None_eq)
  with inv assms(2) show ?thesis by (auto simp: reap_inv_def)
qed

lemma hist_submit_all: "prefix (hist s) (hist (submit_all n ids bufs s))"
proof -
  have q: "prefix (hist t) (hist (queue_submit_step a b m c t))" for a b m c t
    by (simp add: queue_submit_step_def on_dev_def dma_accel_queue_submit_def dma_accel_queue_submit_ext_def
        sq_ring_doorbell_def sq_write_slot_def Let_def)
  have "prefix (hist t) (hist (fold (\<lambda>(cid, src, dst) s. queue_submit_step (snd (the src)) (snd (the dst)) m cid s) xs t))"
    for xs m t
  proof (induction xs arbitrary: t)
    case (Cons x xs)
    obtain cid src dst where x: "x = (cid, src, dst)" by (metis prod_cases3)
    show ?case
      using prefix_order.trans [OF q Cons [of "queue_submit_step (snd (the src)) (snd (the dst)) m cid t"]] by (simp add: x)
  qed simp
  then show ?thesis by (simp add: submit_all_def)
qed

text \<open>The buffers of a test whose allocations succeeded, and what the driver wrote into them.\<close>

definition written :: "nat \<Rightarrow> u8 list \<Rightarrow> dma_block option \<times> dma_block option \<Rightarrow> hw_event list \<Rightarrow> bool" where
  "written n bytes p h \<longleftrightarrow> MemWrite (fst (the (fst p))) bytes \<in> set h \<and> MemWrite (fst (the (snd p))) (replicate n 0) \<in> set h"

lemma written_mono: "written n bytes p h \<Longrightarrow> prefix h h' \<Longrightarrow> written n bytes p h'"
  using set_mono_prefix by (fastforce simp: written_def)

lemma hist_alloc [simp]: "hist (fst (dma_alloc_coherent P n s)) = hist s"
  by (simp add: dma_alloc_coherent_def Let_def split: option.split)

lemma hist_write_mem [simp]: "hist (write_mem b xs s) = hist s @ [MemWrite (fst b) xs]"
  by (simp add: write_mem_def on_dev_def)

lemma alloc_pairs_written:
  assumes "alloc_pairs P n key is s bufs = (s', bufs', None)"
  shows "prefix (hist s) (hist s') \<and> (\<exists>ps. length ps = length is \<and> bufs' = bufs @ ps
     \<and> (\<forall>j < length is. written n (pattern (key + of_nat (is ! j)) n) (ps ! j) (hist s')))"
  using assms
proof (induction "is" arbitrary: s bufs)
  case (Cons i "is")
  obtain s1 src where 1: "dma_alloc_coherent P n s = (s1, src)" by (metis prod.collapse)
  obtain s2 dst where 2: "dma_alloc_coherent P n s1 = (s2, dst)" by (metis prod.collapse)
  have h2: "hist s2 = hist s" using hist_alloc [of P n s] hist_alloc [of P n s1] by (simp add: 1 2)
  obtain a b where ab: "src = Some a" "dst = Some b" using Cons.prems by (auto simp: 1 2 Let_def split: option.splits)
  let ?t = "write_mem b (replicate n 0) (write_mem a (pattern (key + of_nat i) n) s2)"
  have run: "alloc_pairs P n key is ?t (bufs @ [(src, dst)]) = (s', bufs', None)" using Cons.prems by (simp add: 1 2 ab Let_def)
  from Cons.IH [OF this] obtain ps where ps: "prefix (hist ?t) (hist s')" "length ps = length is"
    "bufs' = bufs @ [(src, dst)] @ ps" "\<forall>j < length is. written n (pattern (key + of_nat (is ! j)) n) (ps ! j) (hist s')" by auto
  have "written n (pattern (key + of_nat i) n) (src, dst) (hist s')"
    by (rule written_mono [OF _ ps(1)]) (simp add: written_def ab)
  then have "\<forall>j < Suc (length is). written n (pattern (key + of_nat ((i # is) ! j)) n) (((src, dst) # ps) ! j) (hist s')"
    using ps(4) by (simp add: less_Suc_eq_0_disj all_conj_distrib imp_conjR) (auto simp: nth_Cons split: nat.split)
  moreover have "prefix (hist s) (hist s')" using ps(1) by (rule prefix_order.trans [rotated]) (simp add: h2)
  ultimately show ?case using ps(2,3) by (intro conjI exI [of _ "(src, dst) # ps"]) simp_all
qed simp

lemma copy_drain_posted:
  "prefix h0 (hist s) \<Longrightarrow> (\<And>st. acc = Some st \<Longrightarrow> posted P h0 (hist s) cid st)
   \<Longrightarrow> cq_drain P (take_status cid) t s acc = (s', r)
   \<Longrightarrow> hist s' = hist s \<and> (\<forall>st. r = Some st \<longrightarrow> posted P h0 (hist s) cid st)"
proof (induction P "take_status cid" t s acc rule: cq_drain.induct)
  case (1 P t s acc)
  show ?case
  proof (cases "cq_head (bt_dev s) = t")
    case True
    with 1 show ?thesis by (subst (asm) cq_drain.simps) auto
  next
    case False
    have "posted P h0 (hist s) cid st" if "take_status cid (cq_entry P s) acc = Some st" for st
      using that 1(2,3) unfolding posted_def cq_entry_def take_status_def by (auto split: if_splits)
    moreover have "cq_drain P (take_status cid) t (cq_advance s) (take_status cid (cq_entry P s) acc) = (s', r)"
      using 1(4) False by (subst (asm) cq_drain.simps) simp
    ultimately show ?thesis using 1(1) [OF False] 1(2) by simp
  qed
qed

lemma queue_do_copy_posted:
  assumes "dma_accel_queue_do_copy P a b n cid s = (s', ret, Some st)"
  shows "prefix (hist s) (hist s') \<and> posted P (hist s) (hist s') cid st"
proof -
  let ?s1 = "queue_submit_step a b n cid (reinit_completion s)"
  obtain s2 left where w: "irq_wait P ?s1 = (s2, left)" by fastforce
  have p: "prefix (hist s) (hist ?s1)" by (simp add: queue_submit_step_def reinit_completion_def on_dev_def
        dma_accel_queue_submit_def dma_accel_queue_submit_ext_def sq_ring_doorbell_def sq_write_slot_def Let_def)
  have p2: "prefix (hist s) (hist s2)" using prefix_order.trans [OF p hist_irq_wait [of ?s1 P]] w by simp
  obtain s3 r where d: "cq_drain P (take_status cid) (reg P REG_CQ_TAIL s2) s2 None = (s3, r)"
    by (metis prod.collapse)
  have h3: "hist s3 = hist s2 \<and> (\<forall>st. r = Some st \<longrightarrow> posted P (hist s) (hist s2) cid st)"
    by (rule copy_drain_posted [OF p2 _ d]) simp
  have "left" using assms by (simp add: dma_accel_queue_do_copy_def w Let_def split: if_splits)
  then have s': "s' = reg_write REG_CQ_HEAD (cq_head (bt_dev s3)) s3" "r = Some st"
    using assms by (simp_all add: dma_accel_queue_do_copy_def w d Let_def)
  then have "prefix (hist s2) (hist s')" using h3 by simp
  with h3 s'(2) p2 show ?thesis by (blast intro: posted_mono prefix_order.trans)
qed

text \<open>
  \<open>copied\<close>: a buffer the driver filled with a pattern and one it cleared hold the same bytes.
  \<open>untouched\<close>: the cleared one is still clear.
\<close>

definition copied :: "platform \<Rightarrow> nat \<Rightarrow> u8 \<Rightarrow> hw_event list \<Rightarrow> bool" where
  "copied P n key h \<longleftrightarrow> (\<exists>p. written n (pattern key n) p h
     \<and> pl_mem P h (fst (the (fst p))) n = pl_mem P h (fst (the (snd p))) n)"

definition untouched :: "platform \<Rightarrow> nat \<Rightarrow> u8 \<Rightarrow> hw_event list \<Rightarrow> bool" where
  "untouched P n key h \<longleftrightarrow> (\<exists>p. written n (pattern key n) p h \<and> list_all (\<lambda>b. b = 0) (pl_mem P h (fst (the (snd p))) n))"

lemma posted_early: "posted P h0 h cid st \<Longrightarrow> posted P [] h cid st"
  by (auto simp: posted_def)

lemma test_ids [simp]:
  "length m7_ids = M7_TEST_COUNT" "i < M7_TEST_COUNT \<Longrightarrow> m7_ids ! i = 0x7000 + of_nat i"
  "length m8_ids = M8_TEST_COUNT" "i < M8_TEST_COUNT \<Longrightarrow> m8_ids ! i = 0x8000 + of_nat i"
  by (simp_all add: m7_ids_def m8_ids_def)

lemma reap_run:
  assumes a: "alloc_pairs P n key [0..<m] s [] = (s1, bufs, None)" and t: "prefix (hist s1) (hist t)"
    and r: "reap_all P ids t = (s2, reaped, m)" and i: "i < m" "length ids = m"
  shows "prefix (hist s) (hist s2)" and "written n (pattern (key + of_nat i) n) (bufs ! i) (hist s2)"
    and "reaped ! i = Some st \<Longrightarrow> posted P [] (hist s2) (ids ! i) st"
proof -
  from reap_all_posted [OF r [folded i(2)], of i] i obtain st' where p: "reaped ! i = Some st'" "posted P (hist t) (hist s2) (ids ! i) st'" by auto
  then have "prefix (hist t) (hist s2)" unfolding posted_def by (blast intro: prefix_order.trans)
  with t have s12: "prefix (hist s1) (hist s2)" by (rule prefix_order.trans)
  from alloc_pairs_written [OF a] i have "prefix (hist s) (hist s1)"
    "written n (pattern (key + of_nat i) n) (bufs ! i) (hist s1)" by auto
  with s12 show "prefix (hist s) (hist s2)" "written n (pattern (key + of_nat i) n) (bufs ! i) (hist s2)"
    by (auto intro: written_mono prefix_order.trans)
  show "posted P [] (hist s2) (ids ! i) st" if "reaped ! i = Some st" using that p by (auto intro: posted_early)
qed

lemma concurrency_certifies:
  assumes "dma_accel_concurrency_test P s = (s', None)" and i: "i < M7_TEST_COUNT"
  shows "posted P [] (hist s') (0x7000 + of_nat i) DMA_ACCEL_OK \<and> copied P M7_TEST_LEN (0x10 + of_nat i) (hist s')"
proof -
  obtain s1 bufs ret where a: "alloc_pairs P M7_TEST_LEN 0x10 [0..<M7_TEST_COUNT] s [] = (s1, bufs, ret)" by (metis prod_cases3)
  have ret: "ret = None" using assms by (cases ret) (auto simp: dma_accel_concurrency_test_def a)
  obtain s2 where b: "m7_body P bufs s1 = (s2, None)" "s' = free_pairs M7_TEST_LEN bufs s2"
    using assms by (auto simp: dma_accel_concurrency_test_def a ret split: prod.splits)
  let ?t = "submit_all M7_TEST_LEN m7_ids bufs (reinit_completion s1)"
  obtain reaped n where r: "reap_all P m7_ids ?t = (s2, reaped, n)"
    using b(1) by (auto simp: m7_body_def Let_def split: prod.splits if_splits)
  have n: "n = M7_TEST_COUNT" and ok: "reaped ! i = Some DMA_ACCEL_OK"
      "read_mem P (the (fst (bufs ! i))) M7_TEST_LEN s2 = read_mem P (the (snd (bufs ! i))) M7_TEST_LEN s2"
    using b(1) i by (auto simp: m7_body_def r Let_def split: if_splits)
  have t: "prefix (hist s1) (hist ?t)" using hist_submit_all [of "reinit_completion s1"] by simp
  note run = reap_run [OF a [unfolded ret] t r [unfolded n] i test_ids(1)]
  have "copied P M7_TEST_LEN (0x10 + of_nat i) (hist s2)"
    unfolding copied_def using run(2) ok(2) by (intro exI [of _ "bufs ! i"]) (simp add: read_mem_def)
  with run(3) [OF ok(1)] i b(2) show ?thesis by simp
qed

lemma reset_certifies:
  assumes "dma_accel_reset_test P s = (s', None)"
  shows "\<exists>h. prefix (hist s) h \<and> prefix h (hist s') \<and> (\<forall>i < M8_TEST_COUNT.
      posted P [] h (0x8000 + of_nat i) DMA_ACCEL_ERR_ABORTED \<and> untouched P M8_TEST_LEN (0x30 + of_nat i) h)"
    and "posted P [] (hist s') 0x8FFF DMA_ACCEL_OK"
proof -
  obtain s1 bufs ret where a: "alloc_pairs P M8_TEST_LEN 0x30 [0..<M8_TEST_COUNT] s [] = (s1, bufs, ret)" by (metis prod_cases3)
  have ret: "ret = None" using assms by (cases ret) (auto simp: dma_accel_reset_test_def a)
  obtain s3 where b: "m8_body P bufs s1 = (s3, None)" "s' = free_pairs M8_TEST_LEN bufs s3"
    using assms by (auto simp: dma_accel_reset_test_def a ret split: prod.splits)
  let ?t = "dma_accel_do_reset (submit_all M8_TEST_LEN m8_ids bufs (reinit_completion s1))"
  obtain s2 reaped n where r: "reap_all P m8_ids ?t = (s2, reaped, n)" by (metis prod_cases3)
  have n: "n = M8_TEST_COUNT" and ok: "\<And>i. i < M8_TEST_COUNT \<Longrightarrow> reaped ! i = Some DMA_ACCEL_ERR_ABORTED
      \<and> list_all (\<lambda>b. b = 0) (read_mem P (the (snd (bufs ! i))) M8_TEST_LEN s2)" and rec: "m8_recovery P s2 = (s3, None)"
    using b(1) by (auto simp: m8_body_def r Let_def split: if_splits)
  have t: "prefix (hist s1) (hist ?t)"
    using hist_submit_all [of "reinit_completion s1" M8_TEST_LEN m8_ids bufs] by (simp add: dma_accel_do_reset_def)
  note run = reap_run [OF a [unfolded ret] t r [unfolded n] _ test_ids(3)]
  obtain u1 src where 1: "dma_alloc_coherent P M8_TEST_LEN s2 = (u1, src)" by (metis prod.collapse)
  obtain u2 dst where 2: "dma_alloc_coherent P M8_TEST_LEN u1 = (u2, dst)" by (metis prod.collapse)
  have h: "hist u2 = hist s2" using hist_alloc [of P M8_TEST_LEN s2] hist_alloc [of P M8_TEST_LEN u1] by (simp add: 1 2)
  obtain a b where ab: "src = Some a" "dst = Some b" using rec by (auto simp: m8_recovery_def 1 2 Let_def split: option.splits)
  obtain u3 q st where c: "dma_accel_queue_do_copy P (snd a) (snd b) (of_nat M8_TEST_LEN) 0x8FFF
      (write_mem b (replicate M8_TEST_LEN 0) (write_mem a (pattern 0x99 M8_TEST_LEN) u2)) = (u3, q, st)" by (metis prod_cases3)
  have st: "st = Some DMA_ACCEL_OK" and s3: "hist s3 = hist u3"
    using rec by (auto simp: m8_recovery_def 1 2 ab c Let_def split: if_splits)
  note post = queue_do_copy_posted [OF c [unfolded st]]
  show "posted P [] (hist s') 0x8FFF DMA_ACCEL_OK" using post s3 b(2) by (auto intro: posted_early)
  have "prefix (hist s2) (hist s')"
    using post s3 b(2) h by (auto dest: append_prefixD)
  moreover have "prefix (hist s) (hist s2)" using run(1) [of 0] by (simp add: accel_simps)
  moreover have "posted P [] (hist s2) (0x8000 + of_nat i) DMA_ACCEL_ERR_ABORTED \<and> untouched P M8_TEST_LEN (0x30 + of_nat i) (hist s2)"
    if "i < M8_TEST_COUNT" for i
  proof
    show "posted P [] (hist s2) (0x8000 + of_nat i) DMA_ACCEL_ERR_ABORTED" using run(3) [OF that] ok [OF that] that by simp
    show "untouched P M8_TEST_LEN (0x30 + of_nat i) (hist s2)"
      unfolding untouched_def using run(2) [OF that] ok [OF that] by (intro exI [of _ "bufs ! i"]) (simp add: read_mem_def)
  qed
  ultimately show "\<exists>h. prefix (hist s) h \<and> prefix h (hist s') \<and> (\<forall>i < M8_TEST_COUNT.
      posted P [] h (0x8000 + of_nat i) DMA_ACCEL_ERR_ABORTED \<and> untouched P M8_TEST_LEN (0x30 + of_nat i) h)" by blast
qed

lemma run_tests_None:
  assumes "run_tests err (t # ts) k s = (s', None)" and err: "\<And>e u. snd (err e u) \<noteq> None"
  obtains s1 where "t s = (s1, None)" "run_tests err ts k s1 = (s', None)"
proof -
  obtain s1 r where t: "t s = (s1, r)" by fastforce
  show ?thesis
  proof (cases r)
    case (Some e)
    then show ?thesis using assms(1) err [of e s1] by (simp add: t)
  qed (use assms(1) t that in simp)
qed

lemma err_exits: "snd (err_free_irq e s) \<noteq> None" "snd (err_queue_fini e s) \<noteq> None"
  by (simp_all add: err_free_irq_def err_queue_fini_def)

lemma probe_tests_None:
  assumes "probe_tests P s = (s', None)"
  obtains s1 s2 s3 where "dma_accel_concurrency_test P s1 = (s2, None)" "dma_accel_reset_test P s2 = (s3, None)" "hist s' = hist s3"
proof -
  let ?late = "run_tests err_queue_fini [dma_accel_queue_selftest P, dma_accel_concurrency_test P, dma_accel_reset_test P]
      (probe_register P)"
  obtain t where "?late t = (s', None)"
    using assms unfolding probe_tests_def by (elim run_tests_None) (auto simp: err_exits)
  then obtain s1 s2 s3 where t: "dma_accel_concurrency_test P s1 = (s2, None)" "dma_accel_reset_test P s2 = (s3, None)"
    "probe_register P s3 = (s', None)"
    by (elim run_tests_None) (auto simp: err_exits)
  have "hist s' = hist s3"
    using t(3) by (auto simp: probe_register_def Let_def on_dev_def err_queue_fini_def err_free_irq_def split: option.splits)
  with t that show ?thesis by blast
qed


section \<open>A timeout frees the buffers of a transfer that is still running\<close>

text \<open>
  If the device stays busy and raises no interrupt, the first self-test reports the timeout and frees
  both buffers; the last register write was the start of the transfer, so nothing has stopped it.
\<close>

lemma timeout_frees_in_flight:
  assumes busy: "\<And>h. pl_read P h REG_STATUS AND STATUS_BUSY \<noteq> 0" and quiet: "\<And>h. \<not> pl_irq P h"
    and mem: "\<And>n m. pl_alloc P n m = Some (f n)"
  shows "snd (dma_accel_selftest P s) = Some ETIMEDOUT \<and> bt_live (fst (dma_accel_selftest P s)) = bt_live s
     \<and> (\<exists>h. hist (fst (dma_accel_selftest P s)) = h @ [RegWrite REG_CONTROL CONTROL_START, IrqWait])"
proof -
  obtain s1 where 1: "dma_alloc_coherent P SELFTEST_LEN s = (s1, Some (f (bt_allocs s)))"
    by (simp add: dma_alloc_coherent_def Let_def mem)
  obtain s2 where 2: "dma_alloc_coherent P SELFTEST_LEN s1 = (s2, Some (f (bt_allocs s1)))"
    by (simp add: dma_alloc_coherent_def Let_def mem)
  have copy: "snd (dma_accel_do_copy P a b n t) = Some ETIMEDOUT
      \<and> (\<exists>h. hist (fst (dma_accel_do_copy P a b n t)) = h @ [RegWrite REG_CONTROL CONTROL_START, IrqWait])" for a b n t
    using busy quiet
    by (simp add: dma_accel_do_copy_def dma_accel_wait_irq_def irq_wait_def reg_def dma_accel_read_reg_def Let_def
        dma_accel_submit_def on_dev_def reg_write_def reinit_completion_def)
  have "bt_live (fst (dma_accel_selftest P s)) = bt_live s"
    using balanced_selftest [of P] by (simp add: balanced_def holds_def)
  with copy show ?thesis by (simp add: dma_accel_selftest_def 1 2 Let_def split_beta)
qed

end
