(* ===== verification/Driver_Probe_Demo.thy ===== *)
theory Driver_Probe_Demo
  imports Driver_Probe_Correct
begin

unbundle bit_operations_syntax

text \<open>
  A platform on which \<^verbatim>\<open>probe()\<close> succeeds: the properties of \<^verbatim>\<open>Driver_Probe_Correct\<close> apply to a run that goes
  through all the self-tests.
\<close>

section \<open>A platform on which the probe succeeds\<close>

text \<open>A device that executes at once, with an interrupt for every wait and memory of no interest.\<close>

definition last_write :: "u32 \<Rightarrow> hw_event list \<Rightarrow> u32" where
  "last_write off h = fold (\<lambda>e v. case e of RegWrite a x \<Rightarrow> if a = off then x else v | _ \<Rightarrow> v) h 0"

definition demo_status :: "hw_event list \<Rightarrow> u32 \<times> u32" where
  "demo_status h =
     (case rev h of
        RegWrite a v # RegWrite b w # _ \<Rightarrow>
          if a \<noteq> REG_CONTROL \<or> v \<noteq> CONTROL_START then (0, 0)
          else if b = REG_CONTROL then (STATUS_BUSY OR STATUS_ERROR, DMA_ACCEL_ERR_BUSY)
          else if last_write REG_LEN h = 0 then (STATUS_ERROR, DMA_ACCEL_ERR_LENGTH)
          else if last_write REG_OPCODE h = 0xFF then (STATUS_ERROR, DMA_ACCEL_ERR_OPCODE)
          else (STATUS_BUSY, 0)
      | _ \<Rightarrow> (0, 0))"

definition demo_read :: "hw_event list \<Rightarrow> u32 \<Rightarrow> u32" where
  "demo_read h off =
     (if off = REG_DEVICE_ID then DMA_ACCEL_DEVICE_ID_VAL
      else if off = REG_IRQ_STATUS then IRQ_DMA_DONE
      else if off = REG_CQ_TAIL then last_write REG_SQ_TAIL h
      else if off = REG_STATUS then fst (demo_status h)
      else if off = REG_ERROR_CODE then snd (demo_status h) else 0)"

definition demo_cq :: "nat \<Rightarrow> dma_accel_completion" where
  "demo_cq i = \<lparr>comp_cmd_id = (if i = 0 then 0xFACADE else if i < 7 then 0x7000 + of_nat (i - 1)
        else if i < 13 then 0x8000 + of_nat (i - 7) else 0x8FFF),
      comp_status = (if 7 \<le> i \<and> i < 13 then DMA_ACCEL_ERR_ABORTED else DMA_ACCEL_OK), comp_reserved = 0\<rparr>"

definition demo_platform :: platform where
  "demo_platform = \<lparr>pl_read = demo_read, pl_irq = (\<lambda>_. True), pl_cq = (\<lambda>_. demo_cq), pl_mem = (\<lambda>_ _ _. []),
     pl_alloc = (\<lambda>n _. Some (of_nat n, of_nat n)), pl_waves = (\<lambda>_. 2), pl_kzalloc = True, pl_enable = None,
     pl_iomap = None, pl_bar0 = True, pl_dma_mask = None, pl_irq_vectors = None, pl_request_irq = None,
     pl_misc_register = None\<rparr>"

definition unprobed :: bring_up where
  "unprobed = \<lparr>bt_dev = init_dev, bt_live = {#}, bt_bad = 0, bt_allocs = 0, bt_sq = 0, bt_cq = 0,
     bt_vectors = False, bt_irq = False, bt_misc = False\<rparr>"

lemma demo_simps [simp]:
  "reg demo_platform off s = demo_read (hist s) off" "pl_irq demo_platform h" "pl_cq demo_platform h = demo_cq"
  "read_mem demo_platform b n s = []" "pl_alloc demo_platform m n = Some (of_nat m, of_nat m)" "pl_waves demo_platform h = 2"
  "pl_kzalloc demo_platform" "pl_enable demo_platform = None" "pl_iomap demo_platform = None" "pl_bar0 demo_platform"
  "pl_dma_mask demo_platform = None" "pl_irq_vectors demo_platform = None" "pl_request_irq demo_platform = None"
  "pl_misc_register demo_platform = None"
  by (simp_all add: reg_def dma_accel_read_reg_def demo_platform_def read_mem_def)

lemma demo_reads:
  "demo_read h REG_DEVICE_ID = DMA_ACCEL_DEVICE_ID_VAL" "demo_read h REG_IRQ_STATUS = IRQ_DMA_DONE"
  "demo_read h REG_CQ_TAIL = last_write REG_SQ_TAIL h" "demo_read h REG_STATUS = fst (demo_status h)"
  "demo_read h REG_ERROR_CODE = snd (demo_status h)"
  by (simp_all add: demo_read_def accel_simps)

lemma last_write_append [simp]:
  "last_write off (h @ [RegWrite a v]) = (if a = off then v else last_write off h)"
  "last_write off (h @ [IrqWait]) = last_write off h" "last_write off (h @ [MemWrite b xs]) = last_write off h"
  by (simp_all add: last_write_def)

lemma demo_alloc [simp]: "snd (dma_alloc_coherent demo_platform n s) = Some (of_nat (bt_allocs s), of_nat (bt_allocs s))"
  by (simp add: dma_alloc_coherent_def Let_def)

text \<open>Every wait returns at once.\<close>

definition irq_seen :: "bring_up \<Rightarrow> bring_up" where
  "irq_seen = on_dev (\<lambda>d. d\<lparr>bar0 := bar0 d @ [IrqWait, RegWrite REG_IRQ_STATUS IRQ_DMA_DONE]\<rparr>)"

lemma demo_irq_wait [simp]: "irq_wait demo_platform s = (irq_seen s, True)"
proof -
  have nz: "IRQ_DMA_DONE \<noteq> 0" by (simp add: accel_simps)
  show ?thesis
    by (simp add: irq_wait_def Let_def irq_early_def on_dev_def irq_seen_def demo_reads nz dma_accel_write_reg_def)
qed

lemma demo_hist [simp]:
  "hist (irq_seen s) = hist s @ [IrqWait, RegWrite REG_IRQ_STATUS IRQ_DMA_DONE]"
  by (simp add: irq_seen_def on_dev_def)

lemma demo_wait_irq [simp]: "dma_accel_wait_irq demo_platform s = (irq_seen s, 0)"
proof -
  have "demo_status (hist (irq_seen s)) = (0, 0)" by (simp add: demo_status_def accel_simps split: list.split hw_event.split)
  then show ?thesis by (simp add: dma_accel_wait_irq_def demo_reads)
qed

lemma submit_hist:
  "hist (dma_accel_submit op a b n s) = hist s @ [RegWrite REG_OPCODE op, RegWrite REG_SRC_ADDR_LO (lower_32_bits a),
     RegWrite REG_SRC_ADDR_HI (upper_32_bits a), RegWrite REG_DST_ADDR_LO (lower_32_bits b),
     RegWrite REG_DST_ADDR_HI (upper_32_bits b), RegWrite REG_LEN n, RegWrite REG_CMD_ID_LO 0xC0FFEE,
     RegWrite REG_CMD_ID_HI 0, RegWrite REG_CONTROL CONTROL_START]"
  by (simp add: dma_accel_submit_def Let_def)

lemma demo_submitted:
  "demo_status (hist (dma_accel_submit op a b n s)) =
     (if n = 0 then (STATUS_ERROR, DMA_ACCEL_ERR_LENGTH)
      else if op = 0xFF then (STATUS_ERROR, DMA_ACCEL_ERR_OPCODE) else (STATUS_BUSY, 0))"
  by (simp add: demo_status_def submit_hist last_write_def) (simp add: accel_simps)

lemma demo_retriggered:
  "demo_status (hist (dma_accel_retrigger_start (dma_accel_submit op a b n s)))
     = (STATUS_BUSY OR STATUS_ERROR, DMA_ACCEL_ERR_BUSY)"
  by (simp add: demo_status_def dma_accel_retrigger_start_def submit_hist)

lemmas demo_bits = STATUS_BUSY_def STATUS_ERROR_def OPCODE_COPY_def DMA_ACCEL_ERR_LENGTH_def DMA_ACCEL_ERR_OPCODE_def

lemma demo_do_copy [simp]: "n \<noteq> 0 \<Longrightarrow> snd (dma_accel_do_copy demo_platform a b n s) = None"
  by (simp add: dma_accel_do_copy_def Let_def split_beta demo_reads demo_submitted demo_bits)

lemma demo_selftest: "snd (dma_accel_selftest demo_platform s) = None"
  by (simp add: dma_accel_selftest_def Let_def split_beta accel_simps split: prod.split option.split)

lemma demo_error_path: "snd (dma_accel_error_path_tests demo_platform s) = None"
proof -
  have busy: "snd (dma_accel_test_busy_rejection demo_platform s) = None" for s
    by (simp add: dma_accel_test_busy_rejection_def busy_body_def Let_def split_beta demo_reads demo_retriggered demo_bits
        split: prod.split)
  have rej: "snd (rejected_test op n want demo_platform s) = None"
    if "n = 0 \<and> want = DMA_ACCEL_ERR_LENGTH \<or> n \<noteq> 0 \<and> op = 0xFF \<and> want = DMA_ACCEL_ERR_OPCODE" for op n want s
    using that by (auto simp: rejected_test_def Let_def demo_reads demo_submitted demo_bits split: prod.split option.split)
       (use demo_alloc [of SELFTEST_LEN s] in auto)
  let ?len = "dma_accel_test_invalid_length demo_platform" and ?op = "dma_accel_test_invalid_opcode demo_platform"
  have len: "snd (?len s) = None" and op: "snd (?op s) = None" for s
    unfolding dma_accel_test_invalid_length_def dma_accel_test_invalid_opcode_def by (rule rej, simp add: accel_simps)+
  obtain s1 where 1: "dma_accel_test_busy_rejection demo_platform s = (s1, None)" by (metis busy prod.collapse)
  obtain s2 where 2: "?len (dma_accel_do_reset s1) = (s2, None)" by (metis len prod.collapse)
  obtain s3 where 3: "?op (dma_accel_do_reset s2) = (s3, None)" by (metis op prod.collapse)
  show ?thesis by (simp add: dma_accel_error_path_tests_def 1 2 3)
qed

text \<open>\<open>at k s\<close>: the driver's two ring counters are both \<open>k\<close>.\<close>

definition at :: "nat \<Rightarrow> bring_up \<Rightarrow> bool" where
  "at k s \<longleftrightarrow> cq_head (bt_dev s) = of_nat k \<and> sq_tail (bt_dev s) = of_nat k"

lemma demo_queue_init: "\<exists>s'. queue_init_step demo_platform s = (s', None) \<and> at 0 s'"
proof -
  obtain s1 sq where 1: "dma_alloc_coherent demo_platform sq_bytes s = (s1, Some sq)"
    by (metis demo_alloc prod.collapse)
  obtain s2 cq where 2: "dma_alloc_coherent demo_platform cq_bytes s1 = (s2, Some cq)"
    by (metis demo_alloc prod.collapse)
  show ?thesis by (simp add: queue_init_step_def 1 2 on_dev_def at_def dma_accel_queue_init_def Let_def)
qed

text \<open>Draining \<open>m\<close> entries from \<open>k\<close> on.\<close>

lemma demo_drain:
  assumes "cq_head (bt_dev s) = of_nat k" and "k + m < 16"
  shows "cq_drain demo_platform f (of_nat (k + m)) s acc =
     (on_dev (\<lambda>d. d\<lparr>cq_head := of_nat (k + m)\<rparr>) s, fold (\<lambda>i. f (demo_cq i)) [k..<k + m] acc)"
  using assms
proof (induction m arbitrary: s k acc)
  case 0
  then show ?case by (subst cq_drain.simps) (simp add: on_dev_def)
next
  case (Suc m)
  have small: "unat (of_nat k :: u32) = k" using Suc.prems(2) by (simp add: unat_of_nat)
  have ne: "cq_head (bt_dev s) \<noteq> of_nat (k + Suc m)"
  proof
    assume "cq_head (bt_dev s) = of_nat (k + Suc m)"
    then have "unat (of_nat k :: u32) = unat (of_nat (k + Suc m) :: u32)"
      unfolding Suc.prems(1) by (rule arg_cong)
    then show False using Suc.prems(2) unfolding unat_of_nat by simp
  qed
  have "cq_entry demo_platform s = demo_cq k" using Suc.prems small by (simp add: cq_entry_def accel_simps)
  then have step: "cq_drain demo_platform f (of_nat (k + Suc m)) s acc
      = cq_drain demo_platform f (of_nat (Suc k + m)) (cq_advance s) (f (demo_cq k) acc)"
    using ne by (subst cq_drain.simps) simp
  have head: "cq_head (bt_dev (cq_advance s)) = of_nat (Suc k)"
    using Suc.prems(1) by (simp add: cq_advance_def on_dev_def)
  have upt: "[k..<k + Suc m] = k # [Suc k..<Suc k + m]" by (simp add: upt_conv_Cons del: upt_Suc)
  have "Suc k + m < 16" using Suc.prems(2) by simp
  note IH = Suc.IH [OF head this, of "f (demo_cq k) acc"]
  show ?case unfolding step IH upt by (simp add: cq_advance_def on_dev_def del: upt_Suc)
qed

text \<open>The counters are not touched outside the ring operations.\<close>

lemma at_quiet [simp]:
  "at k (reg_write a v s) \<longleftrightarrow> at k s" "at k (write_mem b xs s) \<longleftrightarrow> at k s" "at k (reinit_completion s) \<longleftrightarrow> at k s"
  "at k (dma_free_coherent n c s) \<longleftrightarrow> at k s" "at k (free_if n mb s) \<longleftrightarrow> at k s" "at k (irq_seen s) \<longleftrightarrow> at k s"
  "at k (fst (dma_alloc_coherent P n s)) \<longleftrightarrow> at k s" "at k (dma_accel_do_reset s) \<longleftrightarrow> at k s"
  by (simp_all add: at_def reg_write_def write_mem_def reinit_completion_def dma_free_coherent_def free_if_def irq_seen_def
      on_dev_def dma_alloc_coherent_def Let_def dma_accel_do_reset_def split: option.split)

lemma at_free_pairs [simp]: "at k (free_pairs n bufs s) \<longleftrightarrow> at k s"
  by (induction bufs arbitrary: s) (simp_all add: free_pairs_def split_beta)

text \<open>\<open>full k m s\<close>: \<open>m\<close> commands have been submitted at \<open>k\<close> and not reaped; the doorbell says so.\<close>

definition full :: "nat \<Rightarrow> nat \<Rightarrow> bring_up \<Rightarrow> bool" where
  "full k m s \<longleftrightarrow> cq_head (bt_dev s) = of_nat k \<and> sq_tail (bt_dev s) = of_nat (k + m)
     \<and> (0 < m \<longrightarrow> last_write REG_SQ_TAIL (hist s) = of_nat (k + m))"

lemma full_0 [simp]: "full k 0 s \<longleftrightarrow> at k s"
  by (simp add: full_def at_def)

lemma full_submit: "full k m s \<Longrightarrow> full k (Suc m) (queue_submit_step a b n c s)"
  by (simp add: full_def queue_submit_step_def on_dev_def dma_accel_queue_submit_def dma_accel_queue_submit_ext_def
      sq_ring_doorbell_def sq_write_slot_def Let_def)

lemma full_submit_all: "at k s \<Longrightarrow> length ids = length bufs \<Longrightarrow> full k (length ids) (submit_all n ids bufs s)"
proof -
  assume h: "at k s" "length ids = length bufs"
  have "full k (m + length xs) (fold (\<lambda>(cid, src, dst) s. queue_submit_step (snd (the src)) (snd (the dst)) q cid s) xs t)"
    if "full k m t" for xs m t q
    using that
  proof (induction xs arbitrary: m t)
    case (Cons x xs)
    obtain cid src dst where x: "x = (cid, src, dst)" by (metis prod_cases3)
    from Cons.IH [OF full_submit [OF Cons.prems]] show ?case by (simp add: x)
  qed simp
  from this [of 0 s "zip ids bufs" "of_nat n"] h show ?thesis by (simp add: submit_all_def)
qed

lemma full_irq [simp]:
  "full k m (irq_seen s) \<longleftrightarrow> full k m s" "full k m (reinit_completion s) \<longleftrightarrow> full k m s"
  "full k m (dma_accel_do_reset s) \<longleftrightarrow> full k m s"
  by (simp_all add: full_def irq_seen_def reinit_completion_def on_dev_def last_write_def dma_accel_do_reset_def reg_write_def
      accel_simps)

text \<open>One drain takes all that was submitted.\<close>

lemma demo_drain_all:
  assumes "full k m s" and "0 < m" and "k + m < 16"
  shows "\<exists>s'. cq_drain demo_platform f (demo_read (hist s) REG_CQ_TAIL) s acc = (s', fold (\<lambda>i. f (demo_cq i)) [k..<k + m] acc)
     \<and> at (k + m) s'"
proof -
  have "demo_read (hist s) REG_CQ_TAIL = of_nat (k + m)" using assms(1,2) by (simp add: demo_reads full_def)
  with demo_drain [of s k m f acc] assms show ?thesis by (simp add: full_def at_def on_dev_def)
qed

lemma demo_queue_do_copy:
  assumes "at k s" and "k < 15" and cid: "comp_cmd_id (demo_cq k) = cid"
  shows "\<exists>s'. dma_accel_queue_do_copy demo_platform a b n cid s = (s', None, Some (comp_status (demo_cq k))) \<and> at (Suc k) s'"
proof -
  let ?s = "irq_seen (queue_submit_step a b n cid (reinit_completion s))"
  have "full k 1 ?s" using full_submit [of k 0 "reinit_completion s"] assms(1) by simp
  from demo_drain_all [OF this, of "take_status cid" None] assms(2) obtain s' where
    "cq_drain demo_platform (take_status cid) (demo_read (hist ?s) REG_CQ_TAIL) ?s None = (s', Some (comp_status (demo_cq k)))"
    "at (Suc k) s'" using assms(3) by (auto simp: take_status_def)
  then show ?thesis by (simp add: dma_accel_queue_do_copy_def Let_def)
qed

lemma demo_queue_selftest:
  assumes "at 0 s"
  shows "\<exists>s'. dma_accel_queue_selftest demo_platform s = (s', None) \<and> at 1 s'"
proof -
  obtain s1 src where 1: "dma_alloc_coherent demo_platform SELFTEST_LEN s = (s1, Some src)" by (metis demo_alloc prod.collapse)
  obtain s2 dst where 2: "dma_alloc_coherent demo_platform SELFTEST_LEN s1 = (s2, Some dst)" by (metis demo_alloc prod.collapse)
  have "at 0 s2" using assms at_quiet(7) [of 0 demo_platform SELFTEST_LEN s] at_quiet(7) [of 0 demo_platform SELFTEST_LEN s1]
    by (simp add: 1 2)
  then obtain s3 where "dma_accel_queue_do_copy demo_platform (snd src) (snd dst) (of_nat SELFTEST_LEN) 0xFACADE
      (write_mem dst (replicate SELFTEST_LEN 0) (write_mem src (pattern 0x3C SELFTEST_LEN) s2)) = (s3, None, Some DMA_ACCEL_OK)"
    "at 1 s3"
    using demo_queue_do_copy [where k = 0 and s = "write_mem dst (replicate SELFTEST_LEN 0) (write_mem src (pattern 0x3C SELFTEST_LEN) s2)"
        and a = "snd src" and b = "snd dst" and n = "of_nat SELFTEST_LEN", OF _ _ refl]
    by (auto simp: demo_cq_def)
  then show ?thesis by (simp add: dma_accel_queue_selftest_def 1 2 Let_def)
qed

lemma demo_alloc_pairs:
  "at k s \<Longrightarrow> \<exists>s' bufs'. alloc_pairs demo_platform n key is s bufs = (s', bufs', None) \<and> at k s' \<and> length bufs' = length bufs + length is"
proof (induction "is" arbitrary: s bufs)
  case (Cons i "is")
  obtain s1 src where 1: "dma_alloc_coherent demo_platform n s = (s1, Some src)" by (metis demo_alloc prod.collapse)
  obtain s2 dst where 2: "dma_alloc_coherent demo_platform n s1 = (s2, Some dst)" by (metis demo_alloc prod.collapse)
  let ?t = "write_mem dst (replicate n 0) (write_mem src (pattern (key + of_nat i) n) s2)"
  have "at k ?t" using Cons.prems at_quiet(7) [of k demo_platform n s] at_quiet(7) [of k demo_platform n s1] by (simp add: 1 2)
  from Cons.IH [OF this, of "bufs @ [(Some src, Some dst)]"] show ?case by (auto simp: 1 2 Let_def)
qed simp

lemma demo_reap_all:
  assumes "full k 6 s" "k + 6 < 16" and len: "length ids = 6"
    and fold: "fold (\<lambda>i. reap_one ids (demo_cq i)) [k..<k + 6] (replicate 6 None, 0) = (replicate 6 (Some st), 6)"
  shows "\<exists>s'. reap_all demo_platform ids s = (s', replicate 6 (Some st), 6) \<and> at (k + 6) s'"
proof -
  have "full k 6 (reinit_completion (irq_seen s))" using assms(1) by simp
  from demo_drain_all [OF this, of "reap_one ids" "(replicate 6 None, 0)"] assms(2) obtain s' where
    "cq_drain demo_platform (reap_one ids) (demo_read (hist (reinit_completion (irq_seen s))) REG_CQ_TAIL)
       (reinit_completion (irq_seen s)) (replicate 6 None, 0) = (s', replicate 6 (Some st), 6)" "at (k + 6) s'"
    unfolding fold by auto
  then show ?thesis by (simp add: reap_all_def len numeral_2_eq_2 Let_def)
qed

lemma demo_ids: "length m7_ids = 6" "length m8_ids = 6"
  by (simp_all add: accel_simps)

lemma demo_concurrency:
  assumes "at 1 s"
  shows "\<exists>s'. dma_accel_concurrency_test demo_platform s = (s', None) \<and> at 7 s'"
proof -
  obtain s1 bufs where a: "alloc_pairs demo_platform M7_TEST_LEN 0x10 [0..<M7_TEST_COUNT] s [] = (s1, bufs, None)" "at 1 s1"
    "length bufs = 6"
    using demo_alloc_pairs [OF assms, of M7_TEST_LEN "0x10" "[0..<M7_TEST_COUNT]" "[]"] by (auto simp: M7_TEST_COUNT_def)
  have f: "full 1 6 (submit_all M7_TEST_LEN m7_ids bufs (reinit_completion s1))"
    using full_submit_all [of 1 "reinit_completion s1" m7_ids bufs M7_TEST_LEN] a demo_ids by simp
  have "fold (\<lambda>i. reap_one m7_ids (demo_cq i)) [1..<1 + 6] (replicate 6 None, 0) = (replicate 6 (Some DMA_ACCEL_OK), 6)"
    by code_simp
  from demo_reap_all [OF f _ demo_ids(1) this] obtain s2 where
    "reap_all demo_platform m7_ids (submit_all M7_TEST_LEN m7_ids bufs (reinit_completion s1)) = (s2, replicate 6 (Some DMA_ACCEL_OK), 6)"
    "at 7 s2" by auto
  then have "m7_body demo_platform bufs s1 = (s2, None)" "at 7 s2" by (simp_all add: m7_body_def Let_def M7_TEST_COUNT_def)
  then show ?thesis by (simp add: dma_accel_concurrency_test_def a)
qed

lemma demo_recovery:
  assumes "at 13 s"
  shows "\<exists>s'. m8_recovery demo_platform s = (s', None)"
proof -
  obtain s1 src where 1: "dma_alloc_coherent demo_platform M8_TEST_LEN s = (s1, Some src)" by (metis demo_alloc prod.collapse)
  obtain s2 dst where 2: "dma_alloc_coherent demo_platform M8_TEST_LEN s1 = (s2, Some dst)" by (metis demo_alloc prod.collapse)
  let ?t = "write_mem dst (replicate M8_TEST_LEN 0) (write_mem src (pattern 0x99 M8_TEST_LEN) s2)"
  have "at 13 ?t" using assms at_quiet(7) [of 13 demo_platform M8_TEST_LEN s] at_quiet(7) [of 13 demo_platform M8_TEST_LEN s1]
    by (simp add: 1 2)
  from demo_queue_do_copy [OF this, where a = "snd src" and b = "snd dst" and n = "of_nat M8_TEST_LEN", OF _ refl]
  show ?thesis by (auto simp: m8_recovery_def 1 2 Let_def demo_cq_def)
qed

lemma demo_reset:
  assumes "at 7 s"
  shows "\<exists>s'. dma_accel_reset_test demo_platform s = (s', None)"
proof -
  obtain s1 bufs where a: "alloc_pairs demo_platform M8_TEST_LEN 0x30 [0..<M8_TEST_COUNT] s [] = (s1, bufs, None)" "at 7 s1"
    "length bufs = 6"
    using demo_alloc_pairs [OF assms, of M8_TEST_LEN "0x30" "[0..<M8_TEST_COUNT]" "[]"] by (auto simp: M8_TEST_COUNT_def)
  let ?t = "dma_accel_do_reset (submit_all M8_TEST_LEN m8_ids bufs (reinit_completion s1))"
  have f: "full 7 6 ?t" using full_submit_all [of 7 "reinit_completion s1" m8_ids bufs M8_TEST_LEN] a demo_ids by simp
  have "fold (\<lambda>i. reap_one m8_ids (demo_cq i)) [7..<7 + 6] (replicate 6 None, 0) = (replicate 6 (Some DMA_ACCEL_ERR_ABORTED), 6)"
    by code_simp
  from demo_reap_all [OF f _ demo_ids(2) this] obtain s2 where
    r: "reap_all demo_platform m8_ids ?t = (s2, replicate 6 (Some DMA_ACCEL_ERR_ABORTED), 6)" "at 13 s2" by auto
  obtain s3 where "m8_recovery demo_platform s2 = (s3, None)" using demo_recovery [OF r(2)] by blast
  with r(1) have "m8_body demo_platform bufs s1 = (s3, None)" by (simp add: m8_body_def Let_def M8_TEST_COUNT_def)
  then show ?thesis by (simp add: dma_accel_reset_test_def a)
qed

lemma demo_probe: "\<exists>s'. dma_accel_probe demo_platform s = (s', None)"
proof -
  let ?s = "reg_write REG_IRQ_MASK (IRQ_DMA_DONE OR IRQ_DMA_ERROR) (s\<lparr>bt_dev := init_dev, bt_vectors := True, bt_irq := True\<rparr>)"
  obtain s1 where 1: "dma_accel_selftest demo_platform ?s = (s1, None)" by (metis demo_selftest prod.collapse)
  obtain s2 where 2: "dma_accel_error_path_tests demo_platform s1 = (s2, None)" by (metis demo_error_path prod.collapse)
  obtain s3 where 3: "queue_init_step demo_platform s2 = (s3, None)" "at 0 s3" using demo_queue_init by blast
  obtain s4 where 4: "dma_accel_queue_selftest demo_platform s3 = (s4, None)" "at 1 s4" using demo_queue_selftest [OF 3(2)] by blast
  obtain s5 where 5: "dma_accel_concurrency_test demo_platform s4 = (s5, None)" "at 7 s5" using demo_concurrency [OF 4(2)] by blast
  obtain s6 where 6: "dma_accel_reset_test demo_platform s5 = (s6, None)" using demo_reset [OF 5(2)] by blast
  have "snd (probe_tests demo_platform ?s) = None"
    by (simp add: probe_tests_def 1 2 3 4 5 6 probe_register_def Let_def)
  then show ?thesis
    by (cases "probe_tests demo_platform ?s") (simp add: dma_accel_probe_def Let_def demo_reads)
qed

theorem probe_releases_witness:
  "case dma_accel_probe demo_platform unprobed of (s', ret) \<Rightarrow> ret = None \<and> ready s' \<and> released (dma_accel_remove s')"
proof -
  obtain s' where run: "dma_accel_probe demo_platform unprobed = (s', None)" using demo_probe by blast
  have "released unprobed" by (simp add: released_def unprobed_def)
  from probe_releases [OF this, of demo_platform] show ?thesis unfolding run by simp
qed


end
