(* ===== verification/Spec2Isabelle.thy ===== *)
theory Spec2Isabelle
  imports Driver_Findings Driver_Refinement Driver_Atomic Driver_Remove Context_Driver Scheduler Stream_Scheduler
    Group_Driver Engine_Driver Stream_Observer Buffer_Pool Gemm_Row Leak_Probe Driver_Probe_Demo
begin

text \<open>
  \<^bold>\<open>Verification of the dma-accel driver stack.\<close>

  The repository holds a Linux driver for a simulated DMA accelerator and the user-space libraries
  above it. This development models the driver and the libraries as HOL functions and proves what
  makes each part, and their composition, correct.

  \<^bold>\<open>The program.\<close> The driver (\<^verbatim>\<open>track-a/dma_accel_drv.c\<close>) talks to the device through BAR0 registers, a
  submission ring and a completion ring. Processes open a character device; each open file is a
  session with its own buffers (\<^verbatim>\<open>ioctl(BUFFER_ALLOC)\<close> and \<^verbatim>\<open>mmap\<close>), submissions (\<^verbatim>\<open>ioctl(SUBMIT)\<close>)
  and ring of unread completions (\<^verbatim>\<open>read\<close>, \<^verbatim>\<open>poll\<close>). The interrupt handler drains the device's
  completion ring and routes each completion to the session that submitted the command. The runtime
  (\<^verbatim>\<open>track-a/dma_accel_runtime\<close>, copied unchanged to \<^verbatim>\<open>track-c/runtime\<close>) wraps a session as a \<^verbatim>\<open>Stream\<close>
  with \<^verbatim>\<open>Buffer\<close> and \<^verbatim>\<open>Fence\<close> objects. On top of it sit a context with an ownership check and a
  scheduler of contexts (\<^verbatim>\<open>track-b\<close>), and command groups, batches, a dependency engine, a stream
  scheduler, an observer and a buffer pool (\<^verbatim>\<open>track-c/runtime\<close>), and programs: three that multiply
  matrices in tiles (\<^verbatim>\<open>track-a/dma_accel_gemm_stage1/2/3.cpp\<close>), one that computes a row of a product with a
  chain of device commands (\<^verbatim>\<open>track-a/dma_accel_gemm_row_via_scale_add.cpp\<close>), and one that probes whether
  completions leak between sessions (\<^verbatim>\<open>track-b/dma_accel_completion_leak_probe.cpp\<close>).

  \<^bold>\<open>Theories and sources.\<close>
  \<^item> \<^verbatim>\<open>Accel_Prelude\<close>: the named collection \<open>accel_simps\<close> and generic lemmas on search, counting and
    updates of lists. \<^verbatim>\<open>Ring\<close>: rings with free-running word counters as queues.
  \<^item> \<^verbatim>\<open>Regs\<close>: \<^verbatim>\<open>dma_accel_regs.h\<close>. \<^verbatim>\<open>Driver_State\<close>, \<^verbatim>\<open>Driver_Queue\<close>, \<^verbatim>\<open>Driver_Isr\<close>, \<^verbatim>\<open>Driver_Buffers\<close>,
    \<^verbatim>\<open>Driver_Submit\<close>, \<^verbatim>\<open>Driver_Chr\<close>: the driver's structures and handlers, in the order of the source.
    A session is a value in a map from pointers, so that a freed session is visible; BAR0 is the
    history of what the driver did to the device; a dereference of freed memory is \<open>None\<close>.
  \<^item> \<^verbatim>\<open>Driver_System\<close>: the driver under concurrency, a step relation that interleaves submitting threads,
    the interrupt handler, open, allocation, read and release at the granularity of the locks and
    atomics. \<^verbatim>\<open>Driver_Invariants\<close>, \<^verbatim>\<open>Driver_Routing\<close>, \<^verbatim>\<open>Driver_Operands\<close>: its invariants.
    \<^verbatim>\<open>Driver_Correct\<close>: the properties of the handlers and of all reachable states.
    \<^verbatim>\<open>Driver_Findings\<close>: reachable states that the code means to exclude.
  \<^item> \<^verbatim>\<open>Driver_Spec\<close>: what the driver promises as an abstract machine of sessions, with neither tables nor
    threads, a locale for refinement along an abstraction function, and the simulation of every step
    of the driver. \<^verbatim>\<open>Driver_Refinement\<close>: the properties this gives. \<^verbatim>\<open>Driver_Atomic\<close>: the sections of the
    interleaved system, run without interference, are the handlers. \<^verbatim>\<open>Driver_Remove\<close>: the calls of \<^verbatim>\<open>remove()\<close>
    interleaved with the sessions that are still open.
  \<^item> \<^verbatim>\<open>Driver_Selftest\<close>, \<^verbatim>\<open>Driver_Probe\<close>: the register path, the self-tests M3 to M8, \<^verbatim>\<open>probe()\<close> and
    \<^verbatim>\<open>remove()\<close> over a record of what the device and the kernel answer. \<^verbatim>\<open>Driver_Probe_Correct\<close>: resource
    accounting and what success certifies; \<^verbatim>\<open>Driver_Probe_Demo\<close>: a platform on which all tests pass.
  \<^item> \<^verbatim>\<open>Runtime\<close>: \<^verbatim>\<open>Buffer\<close>, \<^verbatim>\<open>Fence\<close> and \<^verbatim>\<open>Stream\<close> over a record of system calls. \<^verbatim>\<open>Runtime_Correct\<close>: its
    contracts as locales, and what follows from them. \<^verbatim>\<open>Runtime_Driver\<close>: the driver as the kernel below
    the runtime, which discharges the contracts. \<^verbatim>\<open>Runtime_Frame\<close>: what waiting leaves unchanged.
  \<^item> \<^verbatim>\<open>Client_Context\<close>, \<^verbatim>\<open>Context_Driver\<close>: \<^verbatim>\<open>track-b/dma_accel_context\<close>, alone and on the driver.
    \<^verbatim>\<open>Round_Robin\<close>, \<^verbatim>\<open>Scheduler\<close>, \<^verbatim>\<open>Stream_Scheduler\<close>: the two schedulers, instances of one locale.
  \<^item> \<^verbatim>\<open>Commands\<close>, \<^verbatim>\<open>Command_Group\<close>, \<^verbatim>\<open>Command_Batch\<close>, \<^verbatim>\<open>Group_Driver\<close>, \<^verbatim>\<open>Dependency\<close>, \<^verbatim>\<open>Stream_Observer\<close>,
    \<^verbatim>\<open>Buffer_Pool\<close>: the files of \<^verbatim>\<open>track-c/runtime\<close> with these names. \<^verbatim>\<open>Engine_Settles\<close>: a client that keeps
    calling the dependency engine, over a locale of what it needs of the kernel; \<^verbatim>\<open>Engine_Driver\<close>: the same
    on the driver, which discharges it.
  \<^item> \<^verbatim>\<open>Gemm\<close>, \<^verbatim>\<open>Gemm_Programs\<close>, \<^verbatim>\<open>Gemm_Row\<close>: the arithmetic of the tiled products, and the matrix programs on
    the runtime and on the driver. \<^verbatim>\<open>Leak_Probe\<close>: the leak probe on the driver.

  \<^bold>\<open>What is shown.\<close>
  \<^item> Of the driver as a whole: under every interleaving it refines the abstract machine, in which a
    session owns slots nobody else owns, and a command is admitted under a new identifier, completes
    once and is then read from the front of its session's bounded queue.
  \<^item> Of every reachable state of the driver: the state is well typed; completions reach only the session that submitted the
    command, each once; descriptors address only memory the session owns; buffers have one owner and quotas
    hold; the interrupt handler works on live sessions; the in-flight counters are exact up to the
    increments under way, the ring cap holds up to the number of submitters, and an admissible
    command finds a table entry.
  \<^item> Of the handlers: the drain loop consumes exactly
    the posted completions, \<^verbatim>\<open>read()\<close> is first-in first-out, allocation and mapping agree, release
    frees exactly what the session owned, submission has its effect or none, the admission loop
    returns.
  \<^item> Of \<^verbatim>\<open>probe()\<close> and \<^verbatim>\<open>remove()\<close>: no path leaks or frees twice, and success certifies the device;
    removal with every file closed leaves nothing that could run.
  \<^item> Of the runtime: back-pressure, soundness of waiting, and on the driver the delivery of all
    completions and the round trip from submission to a ready fence.
  \<^item> Of the clients: the ownership guard, exclusive allocation, the order of both schedulers, the status
    of groups and that waiting for one ends, one-shot batches, acyclic dependencies that \<^verbatim>\<open>progress()\<close>
    respects, a whole graph of commands that is settled on the driver within as many calls as it has
    commands, a truthful observer, a pool that lends each buffer once.
  \<^item> Of the matrix programs: their exit code, on any kernel and on the driver. Of the leak probe: its
    whole report on the driver, which excludes the leak.
  \<^item> Departures of the code from its intent: the reachable overrun of the ring cap, the wake-up of a
    freed session and the lost descriptor under concurrent submission; the completion lost by a
    faulting read; the submission order lost by a moved stream; the request lost by a throwing
    submission; the narrowed timeout of the observer; buffers freed under a running transfer; the
    completion ring freed under the handler and the release that waits for ever when the device is removed; two
    matrix programs that always exceed the buffer quota.

  \<^bold>\<open>Bounds, fuel and loops.\<close> Register, counter and identifier values are words of their width and wrap.
  Loops over rings are functions with the distance of the counters as measure. A loop that can wait
  for ever is a \<^theory_text>\<open>partial_function\<close> into \<open>option\<close> (\<^verbatim>\<open>Stream_pump\<close>, the waits, the dependency search), and
  its return is proved where it is claimed; the admission loop and \<^verbatim>\<open>release()\<close> take the list of what
  happens while they sleep; the reaping loops of the self-tests take how often their deadline check
  still holds. No other fuel is used. The matrix elements are integers: all are small enough that
  the \<^verbatim>\<open>float\<close> arithmetic is exact. Scalars of commands are bit patterns.

  \<^bold>\<open>Not modelled.\<close> The device itself (not in the repository; a parameter), log output and elapsed times,
  memory barriers (the model is sequentially consistent), the contents of DMA buffers beyond the
  self-tests and the matrix programs, lockless access to \<^verbatim>\<open>comp_ring\<close> in \<^verbatim>\<open>poll()\<close> other than as one
  read, the defaulted moves of batches and schedulers, the memory of the device structure after \<^verbatim>\<open>remove()\<close>, the tests, the copies
  of the runtime in \<^verbatim>\<open>track-c\<close> (identical to those of \<^verbatim>\<open>track-a\<close>), and the vendored \<^verbatim>\<open>kctl\<close> headers, of which a
  test includes one and no modelled file any.
\<close>

end
